(* ===== verification/Prelude.thy ===== *)
theory Prelude
  imports Main "HOL-Library.Word" "HOL-Library.AList" "HOL-Library.Multiset"
begin

unbundle bit_operations_syntax

text \<open>
  What every component of the rollup shares: the fixed-width types of the Rust sources
  (\<open>u8\<close>, \<open>u32\<close>, \<open>u64\<close>, the 256-bit Ethereum word and the 32-byte array \<open>Hash\<close> of
  \<^verbatim>\<open>stf/src/lib.rs\<close>), the arithmetic of the Rust standard library the code uses
  (\<open>checked_add\<close>, \<open>saturating_sub\<close>, \<open>+\<close> under the two build profiles), big-endian byte
  encodings, the result of a fallible Rust function with its three outcomes (a value, an
  error, a panic), and the state-passing form of a function with a \<open>&mut self\<close> receiver.
\<close>

named_theorems outcome_simps "equations for the result and computation combinators"
named_theorems evals "equations that evaluate closed terms of the model"
named_theorems arith_simps "what the machine operations return, read as natural numbers"

section \<open>Machine integers and byte strings\<close>

type_synonym u8 = "8 word"
type_synonym u32 = "32 word"
type_synonym u64 = "64 word"
type_synonym u256 = "256 word"
type_synonym bytes = "u8 list"

subsection \<open>Checked, saturating and profile-dependent arithmetic\<close>

definition checked_add :: "'a::len word \<Rightarrow> 'a word \<Rightarrow> 'a word option" where
  "checked_add a b = (if unat a + unat b < 2 ^ LENGTH('a) then Some (a + b) else None)"

definition saturating_sub :: "'a::len word \<Rightarrow> 'a word \<Rightarrow> 'a word" where
  "saturating_sub a b = (if a < b then 0 else a - b)"

lemma checked_add_Some_iff [arith_simps]:
  fixes a b c :: "'a::len word"
  shows "checked_add a b = Some c \<longleftrightarrow> unat c = unat a + unat b"
proof
  assume "checked_add a b = Some c"
  then have "unat a + unat b < 2 ^ LENGTH('a)" and "c = a + b"
    by (auto simp: checked_add_def split: if_splits)
  then show "unat c = unat a + unat b"
    by (simp add: unat_word_ariths)
next
  assume eq: "unat c = unat a + unat b"
  have "unat c < 2 ^ LENGTH('a)"
    by (rule unsigned_less)
  with eq have small: "unat a + unat b < 2 ^ LENGTH('a)"
    by simp
  then have "unat (a + b) = unat a + unat b"
    by (simp add: unat_word_ariths)
  with eq have "c = a + b"
    by (simp add: word_unat_eq_iff)
  with small show "checked_add a b = Some c"
    by (simp add: checked_add_def)
qed

lemma checked_add_None_iff [arith_simps]:
  "checked_add a b = None \<longleftrightarrow> 2 ^ LENGTH('a) \<le> unat a + unat (b :: 'a::len word)"
  by (auto simp: checked_add_def)

lemma unat_saturating_sub [arith_simps]:
  "unat (saturating_sub a b) = unat a - unat b"
  by (auto simp: saturating_sub_def word_less_nat_alt unat_sub_if')

lemma unat_sub_le [arith_simps]:
  "b \<le> a \<Longrightarrow> unat (a - b) = unat a - unat (b :: 'a::len word)"
  by (simp add: unat_sub_if' word_le_nat_alt)

lemma unat_of_nat_u64 [arith_simps]: "n < 2 ^ 64 \<Longrightarrow> unat (of_nat n :: u64) = n"
  by (simp add: unat_of_nat)

lemma unat_u64_less: "unat (w :: u64) < 2 ^ 64"
  using unsigned_less [of w, where 'a = nat] by simp

lemmas unat_u64_less_numeral = unat_u64_less [simplified]

lemma word_succ_neq [simp]:
  "a + 1 \<noteq> (a :: 'a::len word)"
  by simp

subsection \<open>Big-endian byte encodings\<close>

text \<open>\<open>be_bytes n w\<close> is \<open>w.to_be_bytes()\<close> for an integer of \<open>n\<close> bytes.\<close>

definition be_bytes :: "nat \<Rightarrow> 'a::len word \<Rightarrow> bytes" where
  "be_bytes n w = map (\<lambda>i. ucast (drop_bit (8 * i) w)) (rev [0..<n])"

fun from_be_bytes :: "bytes \<Rightarrow> 'a::len word" where
  "from_be_bytes bs = foldl (\<lambda>acc b. push_bit 8 acc OR ucast b) 0 bs"

declare from_be_bytes.simps [simp del]

lemma length_be_bytes [simp]: "length (be_bytes n w) = n"
  by (simp add: be_bytes_def)

lemma be_bytes_Suc:
  "be_bytes (Suc n) w = ucast (drop_bit (8 * n) w) # be_bytes n w"
  by (simp add: be_bytes_def)

lemma be_bytes_0 [simp]: "be_bytes 0 w = []"
  by (simp add: be_bytes_def)

lemma be_bytes_inj:
  fixes v w :: "'a::len word"
  assumes "be_bytes n v = be_bytes n w" and "LENGTH('a) \<le> 8 * n"
  shows "v = w"
proof (rule bit_word_eqI)
  fix k assume k: "k < LENGTH('a)"
  let ?i = "k div 8"
  from k assms(2) have i: "?i < n" by auto
  from assms(1) have "\<forall>i \<in> set (rev [0..<n]).
      (ucast (drop_bit (8 * i) v) :: u8) = ucast (drop_bit (8 * i) w)"
    unfolding be_bytes_def by (simp only: map_eq_conv)
  with i have "(ucast (drop_bit (8 * ?i) v) :: u8) = ucast (drop_bit (8 * ?i) w)"
    by simp
  then have "bit (ucast (drop_bit (8 * ?i) v) :: u8) (k mod 8)
      = bit (ucast (drop_bit (8 * ?i) w) :: u8) (k mod 8)"
    by simp
  then show "bit v k = bit w k"
    by (simp add: bit_simps)
qed

lemmas be_bytes64_inj = be_bytes_inj [where 'a = 64 and n = 8, simplified]

lemma be_bytes32_inj: "be_bytes 4 v = be_bytes 4 w \<Longrightarrow> v = (w :: u32)"
  by (erule be_bytes_inj) simp

lemma foldl_be_bytes:
  fixes acc w :: "'a::len word"
  shows "foldl (\<lambda>acc b. push_bit 8 acc OR ucast b) acc (be_bytes n w)
    = push_bit (8 * n) acc OR take_bit (8 * n) w"
proof (induction n arbitrary: acc)
  case 0
  then show ?case by simp
next
  case (Suc n)
  show ?case
    unfolding be_bytes_Suc foldl_Cons Suc.IH
    by (rule bit_word_eqI) (auto simp: bit_simps add.commute)
qed

lemma from_be_bytes_be_bytes:
  fixes w :: "'a::len word"
  assumes "LENGTH('a) \<le> 8 * n"
  shows "from_be_bytes (be_bytes n w) = w"
  using assms by (simp add: from_be_bytes.simps foldl_be_bytes take_bit_word_eq_self)

section \<open>The 32-byte array\<close>

text \<open>
  \<open>pub type Hash = [u8; 32]\<close>: a byte string whose length is part of its type, so that no
  statement about hashes carries a length condition.
\<close>

typedef hash = "{bs :: bytes. length bs = 32}"
  morphisms hash_bytes Abs_hash
  by (rule exI [of _ "replicate 32 0"]) simp

setup_lifting type_definition_hash

instantiation hash :: equal
begin

lift_definition equal_hash :: "hash \<Rightarrow> hash \<Rightarrow> bool" is "(=)" .

instance
  by standard (transfer, rule refl)

end

text \<open>\<open>Hash::default()\<close> is the all-zero array.\<close>

definition hash_default :: hash where
  "hash_default = Abs_hash (replicate 32 0)"

text \<open>
  \<open>hash_of bs\<close> is the array filled from the front with \<open>bs\<close>, zeros behind: a zero array
  into which bytes were copied. \<open>try_into_hash\<close> is the fallible conversion
  \<open>bytes.try_into()\<close> from a slice of unknown length.
\<close>

definition hash_of :: "bytes \<Rightarrow> hash" where
  "hash_of bs = Abs_hash (take 32 (bs @ replicate 32 0))"

definition try_into_hash :: "bytes \<Rightarrow> hash option" where
  "try_into_hash bs = (if length bs = 32 then Some (hash_of bs) else None)"

lemma length_hash_bytes [simp]: "length (hash_bytes h) = 32"
  using hash_bytes [of h] by simp

lemma hash_bytes_inj [simp]: "hash_bytes g = hash_bytes h \<longleftrightarrow> g = h"
  by (rule hash_bytes_inject)

lemma hash_bytes_hash_of [code abstract]:
  "hash_bytes (hash_of bs) = take 32 (bs @ replicate 32 0)"
  by (simp add: hash_of_def Abs_hash_inverse)

lemma hash_bytes_hash_of_exact [simp]:
  "length bs = 32 \<Longrightarrow> hash_bytes (hash_of bs) = bs"
  by (simp add: hash_bytes_hash_of)

lemma hash_of_eq_iff [evals]:
  "hash_of xs = hash_of ys \<longleftrightarrow> take 32 (xs @ replicate 32 0) = take 32 (ys @ replicate 32 0)"
  by (simp add: hash_bytes_hash_of flip: hash_bytes_inj)

lemma replicate_numeral [evals]:
  "replicate (numeral k) x = x # replicate (pred_numeral k) x"
  by (simp add: numeral_eq_Suc)

lemmas byte_evals [evals] = hash_bytes_hash_of be_bytes_def upt_rec

lemma hash_of_hash_bytes [simp]: "hash_of (hash_bytes h) = h"
  by (simp flip: hash_bytes_inj)

lemma hash_bytes_default [simp, code abstract]: "hash_bytes hash_default = replicate 32 0"
  by (simp add: hash_default_def Abs_hash_inverse)

lemma hash_default_eq_iff [evals]:
  "hash_of xs = hash_default \<longleftrightarrow> take 32 (xs @ replicate 32 0) = replicate 32 0"
  "hash_default = hash_of xs \<longleftrightarrow> replicate 32 0 = take 32 (xs @ replicate 32 0)"
  unfolding hash_bytes_inj [symmetric] hash_bytes_default hash_bytes_hash_of by (rule refl)+

lemma try_into_hash_hash_bytes [simp]: "try_into_hash (hash_bytes h) = Some h"
  by (simp add: try_into_hash_def)

lemma try_into_hash_None_iff: "try_into_hash bs = None \<longleftrightarrow> length bs \<noteq> 32"
  by (simp add: try_into_hash_def)

section \<open>Outcomes of fallible functions\<close>

text \<open>
  A Rust function of type \<open>Result<T, E>\<close> ends in one of three ways: \<open>Ok\<close>, \<open>Err\<close> or a
  panic. \<open>bind_res\<close> is sequencing with the question-mark operator: the first error or
  panic ends the function.
\<close>

datatype ('a, 'e) result = Ok 'a | Err 'e | Panic string

definition bind_res :: "('a, 'e) result \<Rightarrow> ('a \<Rightarrow> ('b, 'e) result) \<Rightarrow> ('b, 'e) result" where
  "bind_res m f = (case m of Ok x \<Rightarrow> f x | Err e \<Rightarrow> Err e | Panic p \<Rightarrow> Panic p)"

definition map_err :: "('e \<Rightarrow> 'f) \<Rightarrow> ('a, 'e) result \<Rightarrow> ('a, 'f) result" where
  "map_err g m = (case m of Ok x \<Rightarrow> Ok x | Err e \<Rightarrow> Err (g e) | Panic p \<Rightarrow> Panic p)"

definition ok_or :: "'e \<Rightarrow> 'a option \<Rightarrow> ('a, 'e) result" where
  "ok_or e x = (case x of Some v \<Rightarrow> Ok v | None \<Rightarrow> Err e)"

text \<open>Indexing a \<open>Vec\<close> panics out of bounds.\<close>

definition index_vec :: "'a list \<Rightarrow> nat \<Rightarrow> ('a, 'e) result" where
  "index_vec xs i = (if i < length xs then Ok (xs ! i) else Panic ''index out of bounds'')"

text \<open>
  \<open>a + b\<close> on unsigned integers panics on overflow in a build with overflow checks (the
  \<open>dev\<close> profile) and wraps without them (the \<open>release\<close> profile).
\<close>

definition plain_add :: "bool \<Rightarrow> 'a::len word \<Rightarrow> 'a word \<Rightarrow> ('a word, 'e) result" where
  "plain_add overflow_checks a b =
     (if overflow_checks \<and> checked_add a b = None
      then Panic ''attempt to add with overflow'' else Ok (a + b))"

lemma bind_res_simps [simp, outcome_simps]:
  "bind_res (Ok x) f = f x"
  "bind_res (Err e) f = Err e"
  "bind_res (Panic p) f = Panic p"
  by (simp_all add: bind_res_def)

lemma bind_res_Ok_iff:
  "bind_res m f = Ok y \<longleftrightarrow> (\<exists>x. m = Ok x \<and> f x = Ok y)"
  by (cases m) simp_all

lemma bind_res_Panic_iff:
  "bind_res m f = Panic msg \<longleftrightarrow> m = Panic msg \<or> (\<exists>x. m = Ok x \<and> f x = Panic msg)"
  by (cases m) auto

lemma bind_res_OkE [elim!]:
  assumes "bind_res m f = Ok y"
  obtains x where "m = Ok x" and "f x = Ok y"
  using assms by (auto simp: bind_res_Ok_iff)

lemma bind_res_assoc [outcome_simps]:
  "bind_res (bind_res m f) g = bind_res m (\<lambda>x. bind_res (f x) g)"
  by (cases m) simp_all

lemma bind_res_cong [fundef_cong]:
  "m = n \<Longrightarrow> (\<And>x. n = Ok x \<Longrightarrow> f x = g x) \<Longrightarrow> bind_res m f = bind_res n g"
  by (cases n) simp_all

lemma map_err_simps [simp, outcome_simps]:
  "map_err g (Ok x) = Ok x"
  "map_err g (Err e) = Err (g e)"
  "map_err g (Panic p) = Panic p"
  by (simp_all add: map_err_def)

lemma map_err_Ok_iff [simp]: "map_err g m = Ok x \<longleftrightarrow> m = Ok x"
  by (cases m) simp_all

lemma ok_or_simps [simp, outcome_simps]:
  "ok_or e (Some v) = Ok v"
  "ok_or e None = Err e"
  by (simp_all add: ok_or_def)

lemma ok_or_Ok_iff [simp]: "ok_or e x = Ok v \<longleftrightarrow> x = Some v"
  by (cases x) simp_all

lemma index_vec_Ok_iff [simp]: "index_vec xs i = Ok x \<longleftrightarrow> i < length xs \<and> xs ! i = x"
  by (auto simp: index_vec_def)

lemma index_vec_Cons [simp]:
  "index_vec (x # xs) (Suc i) = index_vec xs i"
  "index_vec (x # xs) 0 = Ok x"
  by (simp_all add: index_vec_def)

lemma plain_add_release [simp]: "plain_add False a b = Ok (a + b)"
  by (simp add: plain_add_def)

lemma plain_add_Ok_iff:
  "plain_add oc a b = Ok c \<longleftrightarrow> c = a + b \<and> (oc \<longrightarrow> checked_add a b \<noteq> None)"
  by (auto simp: plain_add_def)

section \<open>Methods with a mutable receiver\<close>

text \<open>
  A function that takes \<open>&mut self\<close> and returns a \<open>Result\<close> is a function from the state to
  the outcome and the state it leaves behind; an error keeps the changes made before it.
\<close>

type_synonym ('s, 'a, 'e) action = "'s \<Rightarrow> ('a, 'e) result \<times> 's"

definition return_m :: "'a \<Rightarrow> ('s, 'a, 'e) action" where
  "return_m x s = (Ok x, s)"

definition lift_m :: "('a, 'e) result \<Rightarrow> ('s, 'a, 'e) action" where
  "lift_m r s = (r, s)"

definition bind_m ::
  "('s, 'a, 'e) action \<Rightarrow> ('a \<Rightarrow> ('s, 'b, 'e) action) \<Rightarrow> ('s, 'b, 'e) action" where
  "bind_m m f s = (case m s of
     (Ok x, s') \<Rightarrow> f x s' | (Err e, s') \<Rightarrow> (Err e, s') | (Panic p, s') \<Rightarrow> (Panic p, s'))"

text \<open>A \<open>match\<close> on the outcome of a call, panics passing through.\<close>

definition match_m ::
  "('s, 'a, 'e) action \<Rightarrow> ('a \<Rightarrow> ('s, 'b, 'f) action) \<Rightarrow> ('e \<Rightarrow> ('s, 'b, 'f) action)
     \<Rightarrow> ('s, 'b, 'f) action" where
  "match_m m f h s = (case m s of
     (Ok x, s') \<Rightarrow> f x s' | (Err e, s') \<Rightarrow> h e s' | (Panic p, s') \<Rightarrow> (Panic p, s'))"

definition map_err_m :: "('e \<Rightarrow> 'f) \<Rightarrow> ('s, 'a, 'e) action \<Rightarrow> ('s, 'a, 'f) action" where
  "map_err_m g m s = (case m s of (r, s') \<Rightarrow> (map_err g r, s'))"

text \<open>An \<open>anyhow::Error\<close> is its chain of messages, the outermost context first.\<close>

type_synonym anyhow = "string list"

definition context_m :: "string \<Rightarrow> ('s, 'a, anyhow) action \<Rightarrow> ('s, 'a, anyhow) action" where
  "context_m c = map_err_m (\<lambda>e. c # e)"

definition anyhow_m :: "('s, 'a, string) action \<Rightarrow> ('s, 'a, anyhow) action" where
  "anyhow_m = map_err_m (\<lambda>e. [e])"

text \<open>\<open>for x in xs { body(x)?; }\<close>\<close>

fun for_each :: "('x \<Rightarrow> ('s, unit, 'e) action) \<Rightarrow> 'x list \<Rightarrow> ('s, unit, 'e) action" where
  "for_each body [] = return_m ()"
| "for_each body (x # xs) = bind_m (body x) (\<lambda>_. for_each body xs)"

lemma action_simps [simp, outcome_simps]:
  "return_m x s = (Ok x, s)"
  "lift_m r s = (r, s)"
  by (simp_all add: return_m_def lift_m_def)

lemma bind_m_return [simp]: "bind_m (return_m x) f = f x"
  by (simp add: fun_eq_iff bind_m_def)

lemma bind_m_run [outcome_simps]:
  "m s = (Ok x, s') \<Longrightarrow> bind_m m f s = f x s'"
  "m s = (Err e, s') \<Longrightarrow> bind_m m f s = (Err e, s')"
  "m s = (Panic p, s') \<Longrightarrow> bind_m m f s = (Panic p, s')"
  by (simp_all add: bind_m_def)

lemma bind_m_OkE:
  assumes "bind_m m f s = (Ok y, t)"
  obtains x s' where "m s = (Ok x, s')" and "f x s' = (Ok y, t)"
  using assms by (auto simp: bind_m_def split: prod.splits result.splits)

lemma match_m_run [outcome_simps]:
  "m s = (Ok x, s') \<Longrightarrow> match_m m f h s = f x s'"
  "m s = (Err e, s') \<Longrightarrow> match_m m f h s = h e s'"
  "m s = (Panic p, s') \<Longrightarrow> match_m m f h s = (Panic p, s')"
  by (simp_all add: match_m_def)

lemma map_err_m_run [simp, outcome_simps]:
  "map_err_m g m s = (map_err g (fst (m s)), snd (m s))"
  by (simp add: map_err_m_def split: prod.split)

lemma bind_m_lift [simp]: "bind_m (lift_m r) f s = (case r of Ok x \<Rightarrow> f x s | Err e \<Rightarrow> (Err e, s) | Panic p \<Rightarrow> (Panic p, s))"
  by (cases r) (simp_all add: bind_m_def)

lemma bind_m_split:
  "bind_m m f s = (case fst (m s) of Ok x \<Rightarrow> f x (snd (m s)) | Err e \<Rightarrow> (Err e, snd (m s))
     | Panic p \<Rightarrow> (Panic p, snd (m s)))"
  by (cases "m s") (simp add: bind_m_def split: result.split)

lemma match_m_split:
  "match_m m f h s = (case fst (m s) of Ok x \<Rightarrow> f x (snd (m s)) | Err e \<Rightarrow> h e (snd (m s))
     | Panic p \<Rightarrow> (Panic p, snd (m s)))"
  by (cases "m s") (simp add: match_m_def split: result.split)

text \<open>A property of the state that a call keeps on every outcome, and its composition.\<close>

definition keeps :: "('s \<Rightarrow> bool) \<Rightarrow> ('s, 'a, 'e) action \<Rightarrow> bool" where
  "keeps P m \<longleftrightarrow> (\<forall>s. P s \<longrightarrow> P (snd (m s)))"

lemma keepsI [intro]: "(\<And>s. P s \<Longrightarrow> P (snd (m s))) \<Longrightarrow> keeps P m"
  by (simp add: keeps_def)

lemma keepsD: "keeps P m \<Longrightarrow> P s \<Longrightarrow> m s = (r, t) \<Longrightarrow> P t"
  by (force simp: keeps_def)

lemma keeps_return [intro, simp]: "keeps P (return_m x)"
  by (simp add: keeps_def)

lemma keeps_lift [intro, simp]: "keeps P (lift_m r)"
  by (simp add: keeps_def)

lemma keeps_map_err [intro]: "keeps P m \<Longrightarrow> keeps P (map_err_m g m)"
  by (simp add: keeps_def)

lemma keeps_bind [intro]:
  assumes "keeps P m" and "\<And>x. keeps P (f x)"
  shows "keeps P (bind_m m f)"
  using assms unfolding keeps_def bind_m_def
  by (auto split: prod.splits result.splits dest: spec)

lemma keeps_match [intro]:
  assumes "keeps P m" and "\<And>x. keeps P (f x)" and "\<And>e. keeps P (h e)"
  shows "keeps P (match_m m f h)"
  using assms unfolding keeps_def match_m_def
  by (auto split: prod.splits result.splits dest: spec)

lemma keeps_for_each [intro]:
  assumes "\<And>x. keeps P (body x)"
  shows "keeps P (for_each body xs)"
  using assms by (induction xs) auto

end
