(* ===== verification/Stf_Types.thy ===== *)
theory Stf_Types
  imports Prelude
begin

text \<open>
  The data of \<^verbatim>\<open>crates/stf/src/lib.rs\<close>: accounts, transactions, deposits, forced
  transactions, Merkle proofs, the error and result enums and the ABI structs of the
  \<open>sol!\<close> block; the record \<open>externs\<close> of the third-party functions the rollup calls; and
  \<open>Account::new\<close> with \<open>Account::hash\<close>, whose 48-byte preimage is shown injective.
\<close>

section \<open>Errors and results\<close>

datatype stf_error =
    InsufficientBalance
  | BalanceOverflow
  | MerkleProofVerificationFailed
  | InvalidNonce (expected: u64) (got: u64)
  | InvalidTransaction string

record account =
  acc_id :: hash
  acc_balance :: u64
  acc_nonce :: u64

datatype transaction_result =
    Success account account
  | Failure account

section \<open>Operations submitted to the rollup\<close>

record transaction =
  tx_from :: hash
  tx_to :: hash
  tx_nonce :: u64
  tx_fee :: u64
  tx_amount :: u64

record deposit =
  dep_to :: hash
  dep_amount :: u64
  dep_timestamp :: u64

record forced_tx =
  ftx_from :: hash
  ftx_to :: hash
  ftx_nonce :: u64
  ftx_fee :: u64
  ftx_amount :: u64
  ftx_timestamp :: u64
  ftx_l2_calldata :: bytes

text \<open>A sibling hash is paired with \<open>is_right\<close>: it stands to the right of the climbing node.\<close>

record merkle_proof =
  mp_account :: account
  mp_siblings :: "(bool \<times> hash) list"

section \<open>The ABI structs\<close>

text \<open>An Ethereum address is 160 bits wide.\<close>

type_synonym address = "160 word"

record public_values =
  preStateRoot :: hash
  postStateRoot :: hash
  depositsCommitment :: hash
  forcedTxsCommitment :: hash

record deposit_l1 =
  dl1_user :: address
  dl1_amount :: u256
  dl1_timestamp :: u256

record forced_transaction_l1 =
  fl1_data :: bytes
  fl1_timestamp :: u256

section \<open>Third-party functions\<close>

text \<open>
  The rollup calls code that is not part of its repository. Every definition that does so
  takes this record. \<open>overflow_checks\<close> is the Cargo profile switch. \<open>sha3_256\<close> and
  \<open>keccak256\<close> are the digests of the \<open>sha3\<close> crate. \<open>u256_from\<close>, \<open>u256_to_u64\<close> (\<open>None\<close>
  where \<open>to::<u64>()\<close> panics), \<open>address_from_slice\<close> and \<open>address_as_slice\<close> are
  conversions of \<open>alloy_primitives\<close>; the \<open>abi\<close> functions are \<open>alloy_sol_types\<close>, the
  \<open>bincode\<close> functions the \<open>bincode\<close> crate (\<open>None\<close> is its error).
\<close>

record externs =
  overflow_checks :: bool
  sha3_256 :: "bytes \<Rightarrow> hash"
  keccak256 :: "bytes \<Rightarrow> hash"
  u256_from :: "u64 \<Rightarrow> u256"
  u256_to_u64 :: "u256 \<Rightarrow> u64 option"
  address_from_slice :: "bytes \<Rightarrow> address"
  address_as_slice :: "address \<Rightarrow> bytes"
  abi_encode_deposit :: "deposit_l1 \<Rightarrow> bytes"
  abi_encode_forced :: "forced_transaction_l1 \<Rightarrow> bytes"
  abi_encode_public_values :: "public_values \<Rightarrow> bytes"
  abi_decode_public_values :: "bytes \<Rightarrow> public_values option"
  bincode_account :: "bytes \<Rightarrow> account option"
  bincode_forced_tx :: "bytes \<Rightarrow> forced_tx option"

section \<open>Accounts\<close>

definition account_new :: "hash \<Rightarrow> account" where
  "account_new i = \<lparr>acc_id = i, acc_balance = 0, acc_nonce = 0\<rparr>"

text \<open>The byte string \<open>Account::hash\<close> feeds to the digest, and the hash.\<close>

definition account_data :: "account \<Rightarrow> bytes" where
  "account_data a = be_bytes 8 (acc_nonce a) @ hash_bytes (acc_id a) @ be_bytes 8 (acc_balance a)"

definition account_hash :: "externs \<Rightarrow> account \<Rightarrow> hash" where
  "account_hash E a = sha3_256 E (account_data a)"

lemma account_new_simps [simp]:
  "acc_id (account_new i) = i"
  "acc_balance (account_new i) = 0"
  "acc_nonce (account_new i) = 0"
  by (simp_all add: account_new_def)

lemma length_account_data [simp]: "length (account_data a) = 48"
  by (simp add: account_data_def)

lemma account_data_inj [simp]: "account_data a = account_data b \<longleftrightarrow> a = b"
proof
  assume "account_data a = account_data b"
  then have "acc_nonce a = acc_nonce b" and "acc_id a = acc_id b" and "acc_balance a = acc_balance b"
    by (auto simp: account_data_def dest: be_bytes64_inj)
  then show "a = b" by simp
qed simp

text \<open>The signed fields of a forced transaction, read as an ordinary one.\<close>

definition tx_of_forced :: "forced_tx \<Rightarrow> transaction" where
  "tx_of_forced f = \<lparr>tx_from = ftx_from f, tx_to = ftx_to f, tx_nonce = ftx_nonce f,
     tx_fee = ftx_fee f, tx_amount = ftx_amount f\<rparr>"

lemma tx_of_forced_simps [simp]:
  "tx_from (tx_of_forced f) = ftx_from f"
  "tx_to (tx_of_forced f) = ftx_to f"
  "tx_nonce (tx_of_forced f) = ftx_nonce f"
  "tx_fee (tx_of_forced f) = ftx_fee f"
  "tx_amount (tx_of_forced f) = ftx_amount f"
  by (simp_all add: tx_of_forced_def)

end
