(* ===== verification/Sol_Abi.thy ===== *)
theory Sol_Abi
  imports Stf_Types
begin

text \<open>
  Solidity's \<open>abi.encode\<close> for the structs that cross the L1 boundary, the contract the
  rollup expects of the \<open>alloy\<close> and \<open>bincode\<close> crates (locales \<open>alloy\<close> and
  \<open>bincode_fixint\<close>), and \<open>ref_externs\<close>, a concrete instance of the external functions that
  meets it. The instance's encoders follow the ABI and \<open>bincode\<close> specifications; its digests
  only mix the two halves of their input: no statement relies on more than their type.
\<close>

section \<open>The contract ABI\<close>

definition sol_uint :: "u256 \<Rightarrow> bytes" where
  "sol_uint w = be_bytes 32 w"

definition sol_encode_deposit :: "deposit_l1 \<Rightarrow> bytes" where
  "sol_encode_deposit d =
     sol_uint (ucast (dl1_user d)) @ sol_uint (dl1_amount d) @ sol_uint (dl1_timestamp d)"

text \<open>
  A struct with a \<open>bytes\<close> member is dynamic: an offset to it, the offset of the member, the
  timestamp, then the length and the bytes padded to a multiple of 32.
\<close>

definition sol_pad :: "bytes \<Rightarrow> bytes" where
  "sol_pad bs = bs @ replicate ((32 - length bs mod 32) mod 32) 0"

definition sol_encode_forced :: "forced_transaction_l1 \<Rightarrow> bytes" where
  "sol_encode_forced f =
     sol_uint 32 @ sol_uint 64 @ sol_uint (fl1_timestamp f)
       @ sol_uint (of_nat (length (fl1_data f))) @ sol_pad (fl1_data f)"

definition sol_encode_public_values :: "public_values \<Rightarrow> bytes" where
  "sol_encode_public_values pv =
     hash_bytes (preStateRoot pv) @ hash_bytes (postStateRoot pv)
       @ hash_bytes (depositsCommitment pv) @ hash_bytes (forcedTxsCommitment pv)"

text \<open>\<open>abi.decode\<close> of four \<open>bytes32\<close> reverts on short input and ignores trailing bytes.\<close>

definition sol_decode_public_values :: "bytes \<Rightarrow> public_values option" where
  "sol_decode_public_values bs =
     (if length bs < 128 then None
      else Some \<lparr>preStateRoot = hash_of (take 32 bs),
        postStateRoot = hash_of (take 32 (drop 32 bs)),
        depositsCommitment = hash_of (take 32 (drop 64 bs)),
        forcedTxsCommitment = hash_of (take 32 (drop 96 bs))\<rparr>)"

lemma length_sol_uint [simp]: "length (sol_uint w) = 32"
  by (simp add: sol_uint_def)

lemma sol_uint_inj [simp]: "sol_uint v = sol_uint w \<longleftrightarrow> v = w"
  by (auto simp: sol_uint_def intro: be_bytes_inj)

lemma sol_decode_encode_public_values [simp]:
  "sol_decode_public_values (sol_encode_public_values pv) = Some pv"
  by (simp add: sol_decode_public_values_def sol_encode_public_values_def)

section \<open>Contracts of the external crates\<close>

locale alloy =
  fixes E :: externs
  assumes abi_encode_deposit: "abi_encode_deposit E d = sol_encode_deposit d"
    and abi_encode_forced: "abi_encode_forced E f = sol_encode_forced f"
    and abi_encode_public_values: "abi_encode_public_values E pv = sol_encode_public_values pv"
    and abi_decode_public_values: "abi_decode_public_values E (sol_encode_public_values pv) = Some pv"
    and u256_from: "u256_from E x = ucast x"
    and u256_to_u64: "u256_to_u64 E w = (if unat w < 2 ^ 64 then Some (ucast w) else None)"
    and address_as_slice: "address_as_slice E a = be_bytes 20 a"
    and address_from_slice: "address_from_slice E (be_bytes 20 a) = a"

text \<open>
  \<open>bincode\<close> writes fixed-width integers: an \<open>Account\<close> is 32 + 8 + 8 bytes, and input that
  ends earlier is an error.
\<close>

locale bincode_fixint =
  fixes E :: externs
  assumes bincode_account_short: "length bs < 48 \<Longrightarrow> bincode_account E bs = None"

section \<open>A concrete instance\<close>

definition fold_digest :: "u8 \<Rightarrow> bytes \<Rightarrow> hash" where
  "fold_digest seed bs =
     (let n = length bs div 2
      in hash_of (take 16 (rev (take n bs)) @ seed # take 15 (rev (drop n bs))))"

definition from_le_bytes :: "bytes \<Rightarrow> 'a::len word" where
  "from_le_bytes bs = from_be_bytes (rev bs)"

definition ref_bincode_account :: "bytes \<Rightarrow> account option" where
  "ref_bincode_account bs =
     (if length bs < 48 then None
      else Some \<lparr>acc_id = hash_of (take 32 bs), acc_balance = from_le_bytes (take 8 (drop 32 bs)),
        acc_nonce = from_le_bytes (take 8 (drop 40 bs))\<rparr>)"

definition ref_bincode_forced_tx :: "bytes \<Rightarrow> forced_tx option" where
  "ref_bincode_forced_tx bs =
     (let n = unat (from_le_bytes (take 8 (drop 96 bs)) :: u64)
      in if length bs < 104 + n then None
         else Some \<lparr>ftx_from = hash_of (take 32 bs), ftx_to = hash_of (take 32 (drop 32 bs)),
           ftx_nonce = from_le_bytes (take 8 (drop 64 bs)),
           ftx_fee = from_le_bytes (take 8 (drop 72 bs)),
           ftx_amount = from_le_bytes (take 8 (drop 80 bs)),
           ftx_timestamp = from_le_bytes (take 8 (drop 88 bs)),
           ftx_l2_calldata = take n (drop 104 bs)\<rparr>)"

definition ref_externs :: externs where
  "ref_externs = \<lparr>overflow_checks = False, sha3_256 = fold_digest 1, keccak256 = fold_digest 2,
     u256_from = ucast,
     u256_to_u64 = (\<lambda>w. if unat w < 2 ^ 64 then Some (ucast w) else None),
     address_from_slice = from_be_bytes, address_as_slice = be_bytes 20,
     abi_encode_deposit = sol_encode_deposit, abi_encode_forced = sol_encode_forced,
     abi_encode_public_values = sol_encode_public_values,
     abi_decode_public_values = sol_decode_public_values,
     bincode_account = ref_bincode_account, bincode_forced_tx = ref_bincode_forced_tx\<rparr>"

lemma ref_release [simp]: "\<not> overflow_checks ref_externs"
  by (simp add: ref_externs_def)

text \<open>Sample accounts and operations at which the statements of the development are exercised.\<close>

definition alice :: account where
  "alice = \<lparr>acc_id = hash_of [1], acc_balance = 100, acc_nonce = 0\<rparr>"

definition bob :: account where
  "bob = \<lparr>acc_id = hash_of [2], acc_balance = 5, acc_nonce = 3\<rparr>"

definition pay_bob :: transaction where
  "pay_bob = \<lparr>tx_from = hash_of [1], tx_to = hash_of [2], tx_nonce = 0, tx_fee = 1, tx_amount = 10\<rparr>"

definition to_alice :: deposit where
  "to_alice = \<lparr>dep_to = hash_of [1], dep_amount = 7, dep_timestamp = 9\<rparr>"

lemmas sample_evals [evals] = alice_def bob_def pay_bob_def to_alice_def

lemmas ref_evals [evals] = ref_externs_def fold_digest_def account_hash_def account_data_def

interpretation ref: alloy ref_externs
  by unfold_locales (simp_all add: ref_externs_def from_be_bytes_be_bytes)

interpretation ref: bincode_fixint ref_externs
  by unfold_locales (simp add: ref_externs_def ref_bincode_account_def)

end
