(* ===== verification/Stf_Merkle.thy ===== *)
theory Stf_Merkle
  imports Sol_Abi
begin

text \<open>
  The Merkle arithmetic of \<^verbatim>\<open>crates/stf/src/lib.rs\<close> (\<open>hash_nodes\<close>,
  \<open>compute_new_root\<close>, \<open>MerkleProof::verify\<close>) against a reference binary Merkle tree
  \<open>mtree\<close>: a proof cut from a tree verifies, \<open>compute_new_root\<close> is the root of the tree with
  one leaf replaced, and, unless two of the byte strings hashed by the tree and the proof
  collide, a proof that verifies is the proof of the leaf that stands at its position.
\<close>

section \<open>The code\<close>

definition hash_nodes :: "externs \<Rightarrow> hash \<Rightarrow> hash \<Rightarrow> hash" where
  "hash_nodes E l r = sha3_256 E (hash_bytes l @ hash_bytes r)"

text \<open>The loop over the siblings that \<open>compute_new_root\<close> and \<open>verify\<close> both run.\<close>

fun climb :: "externs \<Rightarrow> hash \<Rightarrow> (bool \<times> hash) list \<Rightarrow> hash" where
  "climb E current_hash [] = current_hash"
| "climb E current_hash ((is_right, sibling) # rest) =
     climb E (if is_right then hash_nodes E current_hash sibling
              else hash_nodes E sibling current_hash) rest"

definition compute_new_root :: "externs \<Rightarrow> merkle_proof \<Rightarrow> hash \<Rightarrow> hash" where
  "compute_new_root E prf new_leaf_hash = climb E new_leaf_hash (mp_siblings prf)"

definition verify :: "externs \<Rightarrow> merkle_proof \<Rightarrow> hash \<Rightarrow> bool" where
  "verify E prf expected_root \<longleftrightarrow>
     climb E (account_hash E (mp_account prf)) (mp_siblings prf) = expected_root"

lemma climb_append [simp]: "climb E h (xs @ ys) = climb E (climb E h xs) ys"
  by (induction E h xs rule: climb.induct) simp_all

lemma verify_compute_new_root:
  "verify E p r \<longleftrightarrow> compute_new_root E p (account_hash E (mp_account p)) = r"
  by (simp add: verify_def compute_new_root_def)

section \<open>The reference tree\<close>

text \<open>
  Leaves are accounts. A position is the list of turns from the root, \<open>True\<close> for left; a
  proof lists the same turns from the leaf upwards as its \<open>is_right\<close> flags.
\<close>

datatype mtree = Tip account | Br mtree mtree

fun root_of :: "externs \<Rightarrow> mtree \<Rightarrow> hash" where
  "root_of E (Tip a) = account_hash E a"
| "root_of E (Br l r) = hash_nodes E (root_of E l) (root_of E r)"

fun leaf_at :: "mtree \<Rightarrow> bool list \<Rightarrow> account option" where
  "leaf_at (Tip a) [] = Some a"
| "leaf_at (Br l r) (b # p) = leaf_at (if b then l else r) p"
| "leaf_at _ _ = None"

fun set_leaf :: "mtree \<Rightarrow> bool list \<Rightarrow> account \<Rightarrow> mtree" where
  "set_leaf (Tip _) [] a = Tip a"
| "set_leaf (Br l r) (b # p) a = (if b then Br (set_leaf l p a) r else Br l (set_leaf r p a))"
| "set_leaf t _ a = t"

fun siblings_of :: "externs \<Rightarrow> mtree \<Rightarrow> bool list \<Rightarrow> (bool \<times> hash) list" where
  "siblings_of E (Br l r) (b # p) =
     siblings_of E (if b then l else r) p @ [(b, root_of E (if b then r else l))]"
| "siblings_of E _ _ = []"

definition position :: "merkle_proof \<Rightarrow> bool list" where
  "position p = rev (map fst (mp_siblings p))"

definition proof_of :: "externs \<Rightarrow> mtree \<Rightarrow> bool list \<Rightarrow> account \<Rightarrow> merkle_proof" where
  "proof_of E t p a = \<lparr>mp_account = a, mp_siblings = siblings_of E t p\<rparr>"

fun accounts_of :: "mtree \<Rightarrow> account list" where
  "accounts_of (Tip a) = [a]"
| "accounts_of (Br l r) = accounts_of l @ accounts_of r"

definition total_supply :: "mtree \<Rightarrow> nat" where
  "total_supply t = sum_list (map (\<lambda>a. unat (acc_balance a)) (accounts_of t))"

lemma total_supply_simps [simp]:
  "total_supply (Tip a) = unat (acc_balance a)"
  "total_supply (Br l r) = total_supply l + total_supply r"
  by (simp_all add: total_supply_def)

lemma climb_siblings_of:
  "leaf_at t p = Some a \<Longrightarrow> climb E (account_hash E a') (siblings_of E t p) = root_of E (set_leaf t p a')"
  by (induction t p rule: leaf_at.induct) (auto split: if_splits)

lemma set_leaf_same: "leaf_at t p = Some a \<Longrightarrow> set_leaf t p a = t"
  by (induction t p rule: leaf_at.induct) (auto split: if_splits)

lemma leaf_at_set_leaf:
  "leaf_at t p = Some a \<Longrightarrow> leaf_at (set_leaf t p a') q = (if q = p then Some a' else leaf_at t q)"
proof (induction t p arbitrary: q rule: leaf_at.induct)
  case (1 a)
  then show ?case by (cases q) auto
next
  case (2 l r b p)
  then show ?case by (cases q) auto
qed auto

lemma total_supply_set_leaf:
  "leaf_at t p = Some a \<Longrightarrow>
   total_supply (set_leaf t p a') + unat (acc_balance a) = total_supply t + unat (acc_balance a')"
  by (induction t p rule: leaf_at.induct) (auto split: if_splits)

lemma total_supply_leaf_le: "leaf_at t p = Some a \<Longrightarrow> unat (acc_balance a) \<le> total_supply t"
  by (induction t p rule: leaf_at.induct) (fastforce split: if_splits)+

section \<open>The byte strings that are hashed\<close>

text \<open>
  Digests are shorter than what they digest, so no hypothesis says that \<open>sha3_256\<close> is
  injective. Statements about forgery name the finitely many strings hashed by the
  reference tree and by the proof and ask that no two of these collide.
\<close>

fun tree_inputs :: "externs \<Rightarrow> mtree \<Rightarrow> bytes list" where
  "tree_inputs E (Tip a) = [account_data a]"
| "tree_inputs E (Br l r) =
     (hash_bytes (root_of E l) @ hash_bytes (root_of E r)) # tree_inputs E l @ tree_inputs E r"

fun climb_inputs :: "externs \<Rightarrow> hash \<Rightarrow> (bool \<times> hash) list \<Rightarrow> bytes list" where
  "climb_inputs E h [] = []"
| "climb_inputs E h ((b, s) # rest) =
     (if b then hash_bytes h @ hash_bytes s else hash_bytes s @ hash_bytes h)
       # climb_inputs E (if b then hash_nodes E h s else hash_nodes E s h) rest"

definition proof_inputs :: "externs \<Rightarrow> merkle_proof \<Rightarrow> account \<Rightarrow> bytes list" where
  "proof_inputs E p a = account_data a # climb_inputs E (account_hash E a) (mp_siblings p)"

definition collision_free :: "externs \<Rightarrow> bytes set \<Rightarrow> bool" where
  "collision_free E S \<longleftrightarrow> inj_on (sha3_256 E) S"

lemma collision_freeD:
  "collision_free E S \<Longrightarrow> x \<in> S \<Longrightarrow> y \<in> S \<Longrightarrow> sha3_256 E x = sha3_256 E y \<Longrightarrow> x = y"
  by (simp add: collision_free_def inj_on_def)

lemma collision_free_subset: "collision_free E S \<Longrightarrow> T \<subseteq> S \<Longrightarrow> collision_free E T"
  by (auto simp: collision_free_def inj_on_def)

lemma collision_free_list:
  "\<forall>x \<in> set xs. \<forall>y \<in> set xs. sha3_256 E x = sha3_256 E y \<longrightarrow> x = y \<Longrightarrow> collision_free E (set xs)"
  by (auto simp: collision_free_def inj_on_def)

lemma climb_inputs_append [simp]:
  "climb_inputs E h (xs @ ys) = climb_inputs E h xs @ climb_inputs E (climb E h xs) ys"
  by (induction E h xs rule: climb_inputs.induct) auto

lemma tree_inputs_set_leaf:
  "leaf_at t p = Some a \<Longrightarrow>
   set (tree_inputs E (set_leaf t p a'))
     \<subseteq> set (tree_inputs E t) \<union> set (proof_inputs E (proof_of E t p b) a')"
proof (induction t p rule: leaf_at.induct)
  case (2 l r d p)
  then show ?case
    by (auto simp: proof_inputs_def proof_of_def climb_siblings_of split: if_splits)
qed (auto simp: proof_inputs_def proof_of_def)

text \<open>A verified climb from a 48-byte leaf string follows the tree turn by turn.\<close>

lemma climb_sound:
  assumes "climb E (account_hash E a) ss = root_of E t"
    and "collision_free E (set (tree_inputs E t) \<union> set (account_data a # climb_inputs E (account_hash E a) ss))"
  shows "leaf_at t (rev (map fst ss)) = Some a \<and> ss = siblings_of E t (rev (map fst ss))"
  using assms
proof (induction t arbitrary: ss)
  case (Tip b)
  show ?case
  proof (cases ss rule: rev_cases)
    case Nil
    with Tip.prems(1) have "sha3_256 E (account_data a) = sha3_256 E (account_data b)"
      by (simp add: account_hash_def)
    then have "account_data a = account_data b"
      by (rule collision_freeD [OF Tip.prems(2), rotated 2]) auto
    with Nil show ?thesis by simp
  next
    case (snoc ys y)
    obtain d s where y: "y = (d, s)" by (cases y)
    let ?h = "climb E (account_hash E a) ys"
    let ?w = "if d then hash_bytes ?h @ hash_bytes s else hash_bytes s @ hash_bytes ?h"
    from Tip.prems(1) snoc y have "sha3_256 E ?w = sha3_256 E (account_data b)"
      by (simp add: hash_nodes_def account_hash_def split: if_splits)
    then have "?w = account_data b"
      by (rule collision_freeD [OF Tip.prems(2), rotated 2]) (auto simp: snoc y)
    then have "length ?w = 48" by (simp only: length_account_data)
    then show ?thesis by (simp split: if_splits)
  qed
next
  case (Br l r)
  show ?case
  proof (cases ss rule: rev_cases)
    case Nil
    let ?w = "hash_bytes (root_of E l) @ hash_bytes (root_of E r)"
    from Br.prems(1) Nil have "sha3_256 E (account_data a) = sha3_256 E ?w"
      by (simp add: hash_nodes_def account_hash_def)
    then have "account_data a = ?w"
      by (rule collision_freeD [OF Br.prems(2), rotated 2]) auto
    then have "length ?w = 48" by (metis length_account_data)
    then show ?thesis by simp
  next
    case (snoc ys y)
    obtain d s where y: "y = (d, s)" by (cases y)
    let ?h = "climb E (account_hash E a) ys"
    let ?w = "if d then hash_bytes ?h @ hash_bytes s else hash_bytes s @ hash_bytes ?h"
    from Br.prems(1) snoc y have
      "sha3_256 E ?w = sha3_256 E (hash_bytes (root_of E l) @ hash_bytes (root_of E r))"
      by (simp add: hash_nodes_def split: if_splits)
    then have "?w = hash_bytes (root_of E l) @ hash_bytes (root_of E r)"
      by (rule collision_freeD [OF Br.prems(2), rotated 2]) (auto simp: snoc y)
    then have eq: "?h = root_of E (if d then l else r)" "s = root_of E (if d then r else l)"
      by (auto split: if_splits)
    have sub: "collision_free E (set (tree_inputs E (if d then l else r))
        \<union> set (account_data a # climb_inputs E (account_hash E a) ys))"
      using Br.prems(2) by (rule collision_free_subset) (auto simp: snoc y)
    show ?thesis
      using Br.IH(1) [of ys] Br.IH(2) [of ys] eq sub snoc y by (cases d) auto
  qed
qed

text \<open>A two-leaf ledger at which the statements are exercised.\<close>

definition sample_tree :: mtree where
  "sample_tree = Br (Tip alice) (Tip bob)"

lemmas tree_evals [evals] = sample_tree_def proof_of_def proof_inputs_def hash_nodes_def position_def

section \<open>Properties\<close>

text \<open>
C15. Merkle proofs cannot be forged without a hash collision: if a proof verifies against the
  root of a tree, and no two different byte strings among those hashed by the tree and by the
  proof have the same digest, then the account in the proof is the leaf of the tree at the
  proof's position. A leaf string of 48 bytes is never mistaken for a node string of 64.
\<close>
theorem verify_sound:
  assumes "verify E p (root_of E t)"
    and "collision_free E (set (tree_inputs E t @ proof_inputs E p (mp_account p)))"
  shows "leaf_at t (position p) = Some (mp_account p)"
  using climb_sound [of E "mp_account p" "mp_siblings p" t] assms
  by (simp add: verify_def position_def proof_inputs_def)

theorem verify_sound_witness:
  "leaf_at sample_tree (position (proof_of ref_externs sample_tree [False] bob)) = Some bob"
proof -
  let ?p = "proof_of ref_externs sample_tree [False] bob"
  have "verify ref_externs ?p (root_of ref_externs sample_tree)"
    by (simp add: verify_def sample_tree_def proof_of_def)
  moreover have "collision_free ref_externs
      (set (tree_inputs ref_externs sample_tree @ proof_inputs ref_externs ?p (mp_account ?p)))"
    by (rule collision_free_list) (simp add: evals)
  ultimately show ?thesis
    using verify_sound [of ref_externs ?p sample_tree] by (simp add: proof_of_def)
qed

text \<open>
C16. The proof cut from a tree for one of its leaves verifies against the tree's root, and
  \<open>compute_new_root\<close> with a new account's hash is the root of the tree in which that leaf,
  and no other, is replaced.
\<close>
theorem compute_new_root_updates:
  assumes "leaf_at t p = Some a"
  shows "verify E (proof_of E t p a) (root_of E t)
    \<and> compute_new_root E (proof_of E t p a) (account_hash E a') = root_of E (set_leaf t p a')
    \<and> leaf_at (set_leaf t p a') q = (if q = p then Some a' else leaf_at t q)"
  using climb_siblings_of [OF assms] set_leaf_same [OF assms] leaf_at_set_leaf [OF assms]
  by (simp add: verify_def compute_new_root_def proof_of_def)

theorem compute_new_root_updates_witness:
  "compute_new_root ref_externs (proof_of ref_externs sample_tree [True] alice) (account_hash ref_externs bob)
     = root_of ref_externs (Br (Tip bob) (Tip bob))"
  using compute_new_root_updates [of sample_tree "[True]" alice ref_externs bob "[]"]
  by (simp add: sample_tree_def)

end
