(* ===== verification/Stf_Apply.thy ===== *)
theory Stf_Apply
  imports Sol_Abi
begin

text \<open>
  The three operations on accounts of \<^verbatim>\<open>crates/stf/src/lib.rs\<close>:
  \<open>apply_deposit\<close>, \<open>apply_transaction\<close> and \<open>apply_forced_tx\<close>, with the exact condition
  for each of their outcomes. These are the operations both the optimistic executor of the
  sequencer and the zkVM guest call.
\<close>

section \<open>The code\<close>

definition apply_deposit :: "account \<Rightarrow> deposit \<Rightarrow> (account, stf_error) result" where
  "apply_deposit acc dep =
     bind_res (ok_or BalanceOverflow (checked_add (acc_balance acc) (dep_amount dep)))
       (\<lambda>b. Ok (acc\<lparr>acc_balance := b\<rparr>))"

definition apply_transaction ::
  "externs \<Rightarrow> account \<Rightarrow> account \<Rightarrow> transaction \<Rightarrow> (transaction_result, stf_error) result" where
  "apply_transaction E src dst tx =
     (if acc_nonce src \<noteq> tx_nonce tx
      then Err (InvalidNonce (acc_nonce src) (tx_nonce tx))
      else
        bind_res (plain_add (overflow_checks E) (acc_nonce src) 1) (\<lambda>n.
        let src = src\<lparr>acc_nonce := n\<rparr> in
        bind_res (ok_or BalanceOverflow (checked_add (tx_amount tx) (tx_fee tx))) (\<lambda>total_debit.
        if acc_balance src < total_debit
        then Ok (Failure (src\<lparr>acc_balance := saturating_sub (acc_balance src) (tx_fee tx)\<rparr>))
        else
          let src = src\<lparr>acc_balance := acc_balance src - total_debit\<rparr> in
          bind_res (ok_or BalanceOverflow (checked_add (acc_balance dst) (tx_amount tx))) (\<lambda>b.
          Ok (Success src (dst\<lparr>acc_balance := b\<rparr>))))))"

definition apply_forced_tx ::
  "externs \<Rightarrow> account \<Rightarrow> account \<Rightarrow> forced_tx \<Rightarrow> (transaction_result, stf_error) result" where
  "apply_forced_tx E src dst tx =
     (if acc_nonce src \<noteq> ftx_nonce tx
      then Err (InvalidNonce (acc_nonce src) (ftx_nonce tx))
      else
        bind_res (plain_add (overflow_checks E) (acc_nonce src) 1) (\<lambda>n.
        let src = src\<lparr>acc_nonce := n\<rparr> in
        bind_res (ok_or BalanceOverflow (checked_add (ftx_amount tx) (ftx_fee tx))) (\<lambda>total_debit.
        if acc_balance src < total_debit
        then Ok (Failure (src\<lparr>acc_balance := saturating_sub (acc_balance src) (ftx_fee tx)\<rparr>))
        else
          let src = src\<lparr>acc_balance := acc_balance src - total_debit\<rparr> in
          bind_res (ok_or BalanceOverflow (checked_add (acc_balance dst) (ftx_amount tx))) (\<lambda>b.
          Ok (Success src (dst\<lparr>acc_balance := b\<rparr>))))))"

section \<open>Conditions for each outcome\<close>

lemma apply_forced_tx_as_transaction:
  "apply_forced_tx E src dst f = apply_transaction E src dst (tx_of_forced f)"
  by (simp only: apply_forced_tx_def apply_transaction_def tx_of_forced_simps)

lemma apply_deposit_Ok_iff:
  "apply_deposit a d = Ok a' \<longleftrightarrow>
     (\<exists>b. unat b = unat (acc_balance a) + unat (dep_amount d) \<and> a' = a\<lparr>acc_balance := b\<rparr>)"
  by (auto simp: apply_deposit_def bind_res_Ok_iff arith_simps)

lemma apply_deposit_cases:
  obtains (credited) a' where "apply_deposit a d = Ok a'"
  | (overflow) "apply_deposit a d = Err BalanceOverflow"
      "2 ^ 64 \<le> unat (acc_balance a) + unat (dep_amount d)"
  by (cases "checked_add (acc_balance a) (dep_amount d)")
    (auto simp: apply_deposit_def arith_simps)

text \<open>The sender's nonce may be increased: overflow checks are off, or it is below the maximum.\<close>

definition nonce_ok :: "externs \<Rightarrow> u64 \<Rightarrow> bool" where
  "nonce_ok E n \<longleftrightarrow> (overflow_checks E \<longrightarrow> n \<noteq> - 1)"

lemma last_nonce: "unat (n :: u64) + 1 = 2 ^ 64 \<longleftrightarrow> n = - 1"
proof -
  have "unat (- 1 :: u64) = 2 ^ 64 - 1"
    by (simp add: unsigned_minus_1_eq_mask mask_eq_exp_minus_1)
  then show ?thesis by (auto simp: word_unat_eq_iff)
qed

lemma plain_add_one_Ok_iff:
  "plain_add (overflow_checks E) k 1 = Ok n \<longleftrightarrow> n = k + 1 \<and> nonce_ok E (k :: u64)"
proof -
  have "checked_add k 1 = None \<longleftrightarrow> k = - 1"
    using last_nonce [of k] unat_u64_less [of k] by (auto simp: checked_add_None_iff)
  then show ?thesis
    by (auto simp: plain_add_Ok_iff nonce_ok_def)
qed

lemma plain_add_one_panic:
  "\<not> nonce_ok E n \<Longrightarrow> plain_add (overflow_checks E) n 1 = Panic ''attempt to add with overflow''"
  using last_nonce [of n] by (auto simp: plain_add_def nonce_ok_def checked_add_None_iff)

lemma apply_transaction_Success_iff:
  "apply_transaction E a b tx = Ok (Success a' b') \<longleftrightarrow>
     acc_nonce a = tx_nonce tx \<and> nonce_ok E (acc_nonce a)
     \<and> unat (tx_amount tx) + unat (tx_fee tx) \<le> unat (acc_balance a)
     \<and> acc_id a' = acc_id a \<and> acc_nonce a' = acc_nonce a + 1
     \<and> unat (acc_balance a') + unat (tx_amount tx) + unat (tx_fee tx) = unat (acc_balance a)
     \<and> acc_id b' = acc_id b \<and> acc_nonce b' = acc_nonce b
     \<and> unat (acc_balance b') = unat (acc_balance b) + unat (tx_amount tx)"
    (is "?lhs \<longleftrightarrow> ?rhs")
proof
  assume ?lhs
  then show ?rhs
    by (auto simp: apply_transaction_def bind_res_Ok_iff plain_add_one_Ok_iff arith_simps
        Let_def not_less word_le_nat_alt unat_sub_le split: if_splits)
next
  assume r: ?rhs
  let ?d = "tx_amount tx + tx_fee tx"
  have "unat (acc_balance a) < 2 ^ 64"
    using unsigned_less [of "acc_balance a", where 'a = nat] by simp
  with r have d: "checked_add (tx_amount tx) (tx_fee tx) = Some ?d"
    and ud: "unat ?d = unat (tx_amount tx) + unat (tx_fee tx)"
    by (auto simp: checked_add_def unat_word_ariths)
  from r ud have le: "?d \<le> acc_balance a" by (simp add: word_le_nat_alt)
  have c: "checked_add (acc_balance b) (tx_amount tx) = Some (acc_balance b')"
    using r by (simp add: checked_add_Some_iff)
  have "unat (acc_balance a') = unat (acc_balance a - ?d)"
    using r ud unat_sub_le [OF le] by linarith
  then have "acc_balance a' = acc_balance a - ?d"
    by (simp add: word_unat_eq_iff)
  then have a': "a' = a\<lparr>acc_nonce := acc_nonce a + 1, acc_balance := acc_balance a - ?d\<rparr>"
    using r by simp
  have b': "b' = b\<lparr>acc_balance := acc_balance b'\<rparr>"
    using r by simp
  have n: "(plain_add (overflow_checks E) (acc_nonce a) 1 :: (u64, stf_error) result)
      = Ok (acc_nonce a + 1)"
    unfolding plain_add_one_Ok_iff using r by blast
  have "acc_nonce a = tx_nonce tx" and "\<not> acc_balance a < ?d"
    using r le by (simp_all add: not_less)
  with d c n show ?lhs
    by (subst b', simp add: apply_transaction_def a' Let_def)
qed

lemma apply_transaction_Failure_iff:
  "apply_transaction E a b tx = Ok (Failure a') \<longleftrightarrow>
     acc_nonce a = tx_nonce tx \<and> nonce_ok E (acc_nonce a)
     \<and> unat (tx_amount tx) + unat (tx_fee tx) < 2 ^ 64
     \<and> unat (acc_balance a) < unat (tx_amount tx) + unat (tx_fee tx)
     \<and> acc_id a' = acc_id a \<and> acc_nonce a' = acc_nonce a + 1
     \<and> unat (acc_balance a') = unat (acc_balance a) - unat (tx_fee tx)"
    (is "?lhs \<longleftrightarrow> ?rhs")
proof
  assume ?lhs
  then show ?rhs
    by (auto simp: apply_transaction_def bind_res_Ok_iff plain_add_one_Ok_iff
        Let_def word_less_nat_alt unat_saturating_sub checked_add_def unat_word_ariths
        split: if_splits)
next
  assume r: ?rhs
  let ?d = "tx_amount tx + tx_fee tx"
  from r have d: "checked_add (tx_amount tx) (tx_fee tx) = Some ?d"
    and ud: "unat ?d = unat (tx_amount tx) + unat (tx_fee tx)"
    by (auto simp: checked_add_def unat_word_ariths)
  from r ud have lt: "acc_balance a < ?d" by (simp add: word_less_nat_alt)
  have "acc_balance a' = saturating_sub (acc_balance a) (tx_fee tx)"
    using r by (simp add: word_unat_eq_iff unat_saturating_sub)
  then have a': "a' = a\<lparr>acc_nonce := acc_nonce a + 1,
      acc_balance := saturating_sub (acc_balance a) (tx_fee tx)\<rparr>"
    using r by simp
  have n: "(plain_add (overflow_checks E) (acc_nonce a) 1 :: (u64, stf_error) result)
      = Ok (acc_nonce a + 1)"
    unfolding plain_add_one_Ok_iff using r by blast
  have "acc_nonce a = tx_nonce tx"
    using r by simp
  with d lt n show ?lhs
    by (simp add: apply_transaction_def a' Let_def)
qed

lemma apply_transaction_Err_cases:
  assumes "apply_transaction E a b tx = Err e"
  shows "e = InvalidNonce (acc_nonce a) (tx_nonce tx) \<and> acc_nonce a \<noteq> tx_nonce tx
    \<or> e = BalanceOverflow \<and> acc_nonce a = tx_nonce tx"
  using assms
  by (auto simp: apply_transaction_def bind_res_def Let_def ok_or_def plain_add_def
      split: if_splits result.splits option.splits)

lemma apply_transaction_overflow:
  assumes "acc_nonce a = tx_nonce tx" and "nonce_ok E (acc_nonce a)"
    and "2 ^ 64 \<le> unat (tx_amount tx) + unat (tx_fee tx)"
  shows "apply_transaction E a b tx = Err BalanceOverflow"
proof -
  have "checked_add (tx_amount tx) (tx_fee tx) = None"
    using assms(3) by (simp add: checked_add_None_iff)
  moreover have "(plain_add (overflow_checks E) (acc_nonce a) 1 :: (u64, stf_error) result)
      = Ok (acc_nonce a + 1)"
    unfolding plain_add_one_Ok_iff using assms(2) by blast
  ultimately show ?thesis using assms(1) by (simp add: apply_transaction_def Let_def)
qed

lemma apply_transaction_recipient_overflow:
  assumes "acc_nonce a = tx_nonce tx" and "nonce_ok E (acc_nonce a)"
    and "unat (tx_amount tx) + unat (tx_fee tx) \<le> unat (acc_balance a)"
    and "2 ^ 64 \<le> unat (acc_balance b) + unat (tx_amount tx)"
  shows "apply_transaction E a b tx = Err BalanceOverflow"
proof -
  have sum: "unat (tx_amount tx) + unat (tx_fee tx) < 2 ^ 64"
    using assms(3) unat_u64_less [of "acc_balance a"] by linarith
  then have "checked_add (tx_amount tx) (tx_fee tx) = Some (tx_amount tx + tx_fee tx)"
    by (simp add: checked_add_def)
  moreover have "\<not> acc_balance a < tx_amount tx + tx_fee tx"
    using assms(3) sum by (simp add: word_less_nat_alt unat_word_ariths)
  moreover have "checked_add (acc_balance b) (tx_amount tx) = None"
    using assms(4) by (simp add: checked_add_None_iff)
  moreover have "(plain_add (overflow_checks E) (acc_nonce a) 1 :: (u64, stf_error) result)
      = Ok (acc_nonce a + 1)"
    unfolding plain_add_one_Ok_iff using assms(2) by blast
  ultimately show ?thesis using assms(1) by (simp add: apply_transaction_def Let_def)
qed

lemma apply_transaction_nonce_panic:
  "acc_nonce a = tx_nonce tx \<Longrightarrow> \<not> nonce_ok E (acc_nonce a) \<Longrightarrow>
   apply_transaction E a b tx = Panic ''attempt to add with overflow''"
  by (simp add: apply_transaction_def plain_add_one_panic)

lemma apply_transaction_poor:
  assumes "acc_nonce a = tx_nonce tx" and "nonce_ok E (acc_nonce a)"
    and "unat (tx_amount tx) + unat (tx_fee tx) < 2 ^ 64"
    and "unat (acc_balance a) < unat (tx_amount tx) + unat (tx_fee tx)"
  shows "apply_transaction E a b tx = Ok (Failure (a\<lparr>acc_nonce := acc_nonce a + 1,
    acc_balance := of_nat (unat (acc_balance a) - unat (tx_fee tx))\<rparr>))"
  unfolding apply_transaction_Failure_iff using assms
  by (simp add: less_imp_diff_less unat_of_nat_u64 del: of_nat_diff)

lemma apply_transaction_paid:
  assumes "acc_nonce a = tx_nonce tx" and "nonce_ok E (acc_nonce a)"
    and "unat (tx_amount tx) + unat (tx_fee tx) \<le> unat (acc_balance a)"
    and "unat (acc_balance b) + unat (tx_amount tx) < 2 ^ 64"
  shows "apply_transaction E a b tx = Ok (Success
    (a\<lparr>acc_nonce := acc_nonce a + 1,
       acc_balance := of_nat (unat (acc_balance a) - (unat (tx_amount tx) + unat (tx_fee tx)))\<rparr>)
    (b\<lparr>acc_balance := of_nat (unat (acc_balance b) + unat (tx_amount tx))\<rparr>))"
  unfolding apply_transaction_Success_iff using assms
  by (simp add: less_imp_diff_less unat_of_nat_u64 unat_u64_less_numeral del: of_nat_diff of_nat_add)

section \<open>Properties\<close>

text \<open>
C17. \<open>apply_transaction\<close> computes the transfer over unbounded integers: a wrong nonce is
  rejected first; then a build with overflow checks panics on the last nonce; then an
  \<open>amount + fee\<close> or a recipient balance of \<open>2^64\<close> or more is a balance overflow; a sender who
  cannot pay \<open>amount + fee\<close> loses the fee (or all it has) and one nonce; otherwise sender and
  recipient change by exactly \<open>amount + fee\<close> and \<open>amount\<close>.
\<close>
theorem apply_transaction_unbounded:
  "apply_transaction E a b tx =
     (if acc_nonce a \<noteq> tx_nonce tx then Err (InvalidNonce (acc_nonce a) (tx_nonce tx))
      else if overflow_checks E \<and> unat (acc_nonce a) + 1 = 2 ^ 64
        then Panic ''attempt to add with overflow''
      else if 2 ^ 64 \<le> unat (tx_amount tx) + unat (tx_fee tx) then Err BalanceOverflow
      else if unat (acc_balance a) < unat (tx_amount tx) + unat (tx_fee tx)
        then Ok (Failure (a\<lparr>acc_nonce := acc_nonce a + 1,
          acc_balance := of_nat (unat (acc_balance a) - unat (tx_fee tx))\<rparr>))
      else if 2 ^ 64 \<le> unat (acc_balance b) + unat (tx_amount tx) then Err BalanceOverflow
      else Ok (Success
        (a\<lparr>acc_nonce := acc_nonce a + 1,
           acc_balance := of_nat (unat (acc_balance a) - (unat (tx_amount tx) + unat (tx_fee tx)))\<rparr>)
        (b\<lparr>acc_balance := of_nat (unat (acc_balance b) + unat (tx_amount tx))\<rparr>)))"
proof (cases "acc_nonce a = tx_nonce tx \<and> nonce_ok E (acc_nonce a)")
  case True
  then have nn: "acc_nonce a = tx_nonce tx" "nonce_ok E (acc_nonce a)" by blast+
  let ?s = "unat (tx_amount tx) + unat (tx_fee tx)"
  have n: "\<not> (overflow_checks E \<and> unat (acc_nonce a) + 1 = 2 ^ 64)"
    using True last_nonce [of "acc_nonce a"] unfolding nonce_ok_def by blast
  consider (over) "2 ^ 64 \<le> ?s" | (poor) "?s < 2 ^ 64" "unat (acc_balance a) < ?s"
    | (full) "?s \<le> unat (acc_balance a)" "2 ^ 64 \<le> unat (acc_balance b) + unat (tx_amount tx)"
    | (paid) "?s \<le> unat (acc_balance a)" "unat (acc_balance b) + unat (tx_amount tx) < 2 ^ 64"
    by linarith
  then show ?thesis
  proof cases
    case over
    with apply_transaction_overflow [of a tx E b] nn n show ?thesis by auto
  next
    case poor
    with apply_transaction_poor [OF nn] nn n show ?thesis by auto
  next
    case full
    with apply_transaction_recipient_overflow [of a tx E b] nn n unat_u64_less [of "acc_balance a"]
    show ?thesis by auto
  next
    case paid
    with apply_transaction_paid [OF nn] nn n unat_u64_less [of "acc_balance a"] show ?thesis by auto
  qed
next
  case False
  show ?thesis
  proof (cases "acc_nonce a = tx_nonce tx")
    case eq: True
    with False have bad: "\<not> nonce_ok E (acc_nonce a)" by simp
    then have "overflow_checks E \<and> unat (acc_nonce a) + 1 = 2 ^ 64"
      unfolding nonce_ok_def last_nonce by simp
    with eq apply_transaction_nonce_panic [OF eq bad] show ?thesis by auto
  qed (simp add: apply_transaction_def)
qed

text \<open>
C21. A transfer that succeeds moves value and creates none: the two balances and the fee add
  up to the two balances before, the sender's nonce grows by one, and the identities and the
  recipient's nonce stay.
\<close>
theorem apply_transaction_conserves:
  assumes "apply_transaction E a b tx = Ok (Success a' b')"
  shows "unat (acc_balance a') + unat (acc_balance b') + unat (tx_fee tx)
      = unat (acc_balance a) + unat (acc_balance b)
    \<and> acc_nonce a' = acc_nonce a + 1 \<and> acc_nonce b' = acc_nonce b
    \<and> acc_id a' = acc_id a \<and> acc_id b' = acc_id b"
  using assms by (simp add: apply_transaction_Success_iff)

theorem apply_transaction_conserves_witness:
  "unat (89 :: u64) + unat (15 :: u64) + unat (tx_fee pay_bob)
     = unat (acc_balance alice) + unat (acc_balance bob)
   \<and> (1 :: u64) = acc_nonce alice + 1"
proof -
  have "apply_transaction ref_externs alice bob pay_bob
      = Ok (Success (alice\<lparr>acc_balance := 89, acc_nonce := 1\<rparr>) (bob\<lparr>acc_balance := 15\<rparr>))"
    by (simp add: apply_transaction_def checked_add_def evals)
  from apply_transaction_conserves [OF this] show ?thesis by simp
qed

text \<open>
C22. A transaction takes effect at most once on the sender it produced: after it succeeded, or
  failed with the fee charged, the same transaction is rejected for its nonce whatever the
  recipient, also where the nonce wrapped around.
\<close>
theorem apply_transaction_no_replay:
  assumes "apply_transaction E a b tx = Ok res"
    and "res = Success a' b' \<or> res = Failure a'"
  shows "apply_transaction E a' c tx = Err (InvalidNonce (tx_nonce tx + 1) (tx_nonce tx))"
proof -
  from assms have "acc_nonce a' = tx_nonce tx + 1"
    by (auto simp: apply_transaction_Success_iff apply_transaction_Failure_iff)
  then show ?thesis by (simp add: apply_transaction_def)
qed

theorem apply_transaction_no_replay_witness:
  "apply_transaction ref_externs (alice\<lparr>acc_balance := 89, acc_nonce := 1\<rparr>) bob pay_bob
     = Err (InvalidNonce (tx_nonce pay_bob + 1) (tx_nonce pay_bob))"
proof -
  have "apply_transaction ref_externs alice bob pay_bob
      = Ok (Success (alice\<lparr>acc_balance := 89, acc_nonce := 1\<rparr>) (bob\<lparr>acc_balance := 15\<rparr>))"
    by (simp add: apply_transaction_def checked_add_def evals)
  then show ?thesis
    by (rule apply_transaction_no_replay) (rule disjI1, rule refl)
qed

text \<open>
  \<open>apply_deposit\<close> adds the amount over unbounded integers and touches nothing else of the
  account; a balance of \<open>2^64\<close> or more is a balance overflow, the only error it returns.
\<close>

lemma apply_deposit_unbounded:
  "apply_deposit a d =
     (if unat (acc_balance a) + unat (dep_amount d) < 2 ^ 64
      then Ok (a\<lparr>acc_balance := of_nat (unat (acc_balance a) + unat (dep_amount d))\<rparr>)
      else Err BalanceOverflow)"
  by (simp add: apply_deposit_def checked_add_def)

end
