(* ===== verification/Stf_Commit.thy ===== *)
theory Stf_Commit
  imports Sol_Abi
begin

text \<open>
  The commitments of \<^verbatim>\<open>crates/stf/src/lib.rs\<close> that the L1 contract checks:
  \<open>hash_deposits\<close>, \<open>hash_forced_txs\<close> (a Keccak hash over the item hashes) and
  \<open>build_commitment\<close> (28 bytes of the hash, 4 bytes of the count).
\<close>

section \<open>The code\<close>

definition build_commitment :: "hash \<Rightarrow> u32 \<Rightarrow> hash" where
  "build_commitment h cnt = hash_of (take 28 (hash_bytes h) @ be_bytes 4 cnt)"

definition deposit_item_hash :: "externs \<Rightarrow> deposit \<Rightarrow> hash" where
  "deposit_item_hash E item =
     (let user_address = address_from_slice E (drop 12 (hash_bytes (dep_to item)));
          amount_u256 = u256_from E (dep_amount item);
          timestamp_u256 = u256_from E (dep_timestamp item);
          sol_struct = \<lparr>dl1_user = user_address, dl1_amount = amount_u256,
                        dl1_timestamp = timestamp_u256\<rparr>
      in keccak256 E (abi_encode_deposit E sol_struct))"

definition hash_deposits :: "externs \<Rightarrow> deposit list \<Rightarrow> hash" where
  "hash_deposits E items =
     (if items = [] then keccak256 E []
      else keccak256 E (concat (map (\<lambda>item. hash_bytes (deposit_item_hash E item)) items)))"

definition forced_item_hash :: "externs \<Rightarrow> forced_tx \<Rightarrow> hash" where
  "forced_item_hash E item =
     (let sol_struct = \<lparr>fl1_data = ftx_l2_calldata item,
                        fl1_timestamp = u256_from E (ftx_timestamp item)\<rparr>
      in keccak256 E (abi_encode_forced E sol_struct))"

definition hash_forced_txs :: "externs \<Rightarrow> forced_tx list \<Rightarrow> hash" where
  "hash_forced_txs E items =
     (if items = [] then keccak256 E []
      else keccak256 E (concat (map (\<lambda>item. hash_bytes (forced_item_hash E item)) items)))"

text \<open>
  The commitment to forced transactions covers their calldata and timestamps alone: sender,
  recipient, nonce, fee and amount, which the guest executes, are not bound by it.
\<close>

lemma hash_forced_txs_blind:
  assumes "map (\<lambda>f. (ftx_l2_calldata f, ftx_timestamp f)) fs = map (\<lambda>f. (ftx_l2_calldata f, ftx_timestamp f)) gs"
  shows "hash_forced_txs E fs = hash_forced_txs E gs"
proof -
  let ?h = "\<lambda>(data, t). hash_bytes (keccak256 E (abi_encode_forced E \<lparr>fl1_data = data, fl1_timestamp = u256_from E t\<rparr>))"
  have "map (\<lambda>f. hash_bytes (forced_item_hash E f)) xs = map ?h (map (\<lambda>f. (ftx_l2_calldata f, ftx_timestamp f)) xs)" for xs
    by (simp add: forced_item_hash_def)
  moreover have "fs = [] \<longleftrightarrow> gs = []" using arg_cong [OF assms, of length] by (metis length_0_conv length_map)
  ultimately show ?thesis by (simp only: hash_forced_txs_def assms)
qed

section \<open>Layout of a commitment\<close>

lemma hash_bytes_build_commitment:
  "hash_bytes (build_commitment h n) = take 28 (hash_bytes h) @ be_bytes 4 n"
  by (simp add: build_commitment_def)

lemma build_commitment_eq_iff:
  "build_commitment g m = build_commitment h n \<longleftrightarrow>
     take 28 (hash_bytes g) = take 28 (hash_bytes h) \<and> m = n"
proof -
  show ?thesis
    by (auto dest: be_bytes32_inj simp: hash_bytes_build_commitment simp flip: hash_bytes_inj)
qed

text \<open>Hash lists of the same bytes are equal item by item.\<close>

lemma concat_hash_bytes_inj:
  "concat (map (\<lambda>x. hash_bytes (f x)) xs) = concat (map (\<lambda>y. hash_bytes (g y)) ys)
   \<Longrightarrow> map f xs = map g ys"
proof (induction xs arbitrary: ys)
  case Nil
  show ?case
  proof (cases ys)
    case (Cons y ys')
    with Nil have "length (hash_bytes (g y)) = 0" by simp
    then show ?thesis by simp
  qed simp
next
  case (Cons x xs)
  show ?case
  proof (cases ys)
    case Nil
    with Cons.prems have "length (hash_bytes (f x)) = 0" by simp
    then show ?thesis by simp
  next
    case (Cons y ys')
    with Cons.prems Cons.IH show ?thesis by simp
  qed
qed

end
