(* ===== verification/Stf_Transition.thy ===== *)
theory Stf_Transition
  imports Stf_Merkle Stf_Apply Stf_Commit
begin

text \<open>
  \<open>StateTransitioner::execute_transition\<close> of \<^verbatim>\<open>crates/stf/src/lib.rs\<close>, the
  function whose execution the zkVM proves, and what a successful run means: the abstract
  ledger transition \<open>ledger_run\<close> on the Merkle tree under the pre-state root.
\<close>

section \<open>The code\<close>

fun deposit_loop ::
  "externs \<Rightarrow> merkle_proof list \<Rightarrow> nat \<Rightarrow> deposit list \<Rightarrow> hash \<Rightarrow> (hash, stf_error) result" where
  "deposit_loop E proofs i [] current_root = Ok current_root"
| "deposit_loop E proofs i (dep # deps) current_root =
     bind_res (index_vec proofs i) (\<lambda>proof_to.
     if \<not> verify E proof_to current_root then Err MerkleProofVerificationFailed
     else bind_res (apply_deposit (mp_account proof_to) dep) (\<lambda>updated_account.
       deposit_loop E proofs (Suc i) deps
         (compute_new_root E proof_to (account_hash E updated_account))))"

fun forced_loop ::
  "externs \<Rightarrow> merkle_proof list \<Rightarrow> merkle_proof list \<Rightarrow> nat \<Rightarrow> forced_tx list \<Rightarrow> hash
     \<Rightarrow> (hash, stf_error) result" where
  "forced_loop E proofs_from proofs_to i [] current_root = Ok current_root"
| "forced_loop E proofs_from proofs_to i (tx # txs) current_root =
     (if ftx_from tx = hash_default
      then forced_loop E proofs_from proofs_to (Suc i) txs current_root
      else bind_res (index_vec proofs_from i) (\<lambda>proof_from.
        if \<not> verify E proof_from current_root then Err MerkleProofVerificationFailed
        else bind_res (apply_forced_tx E (mp_account proof_from) (account_new (ftx_to tx)) tx)
          (\<lambda>outcome. case outcome of
             Success updated_from updated_to \<Rightarrow>
               let current_root = compute_new_root E proof_from (account_hash E updated_from) in
               bind_res (index_vec proofs_to i) (\<lambda>proof_to.
               if \<not> verify E proof_to current_root then Err MerkleProofVerificationFailed
               else forced_loop E proofs_from proofs_to (Suc i) txs
                 (compute_new_root E proof_to (account_hash E updated_to)))
           | Failure updated_from \<Rightarrow>
               forced_loop E proofs_from proofs_to (Suc i) txs
                 (compute_new_root E proof_from (account_hash E updated_from)))))"

fun tx_loop ::
  "externs \<Rightarrow> merkle_proof list \<Rightarrow> merkle_proof list \<Rightarrow> nat \<Rightarrow> transaction list \<Rightarrow> hash
     \<Rightarrow> (hash, stf_error) result" where
  "tx_loop E proofs_from proofs_to i [] current_root = Ok current_root"
| "tx_loop E proofs_from proofs_to i (tx # txs) current_root =
     bind_res (index_vec proofs_from i) (\<lambda>proof_from.
     if \<not> verify E proof_from current_root then Err MerkleProofVerificationFailed
     else bind_res (apply_transaction E (mp_account proof_from) (account_new (tx_to tx)) tx)
       (\<lambda>outcome. case outcome of
          Success updated_from updated_to \<Rightarrow>
            let current_root = compute_new_root E proof_from (account_hash E updated_from) in
            bind_res (index_vec proofs_to i) (\<lambda>proof_to.
            if \<not> verify E proof_to current_root then Err MerkleProofVerificationFailed
            else tx_loop E proofs_from proofs_to (Suc i) txs
              (compute_new_root E proof_to (account_hash E updated_to)))
        | Failure updated_from \<Rightarrow>
            tx_loop E proofs_from proofs_to (Suc i) txs
              (compute_new_root E proof_from (account_hash E updated_from))))"

text \<open>The five proof vectors travel together, from the host to the guest's nine arguments.\<close>

record proof_bundle =
  proofs_deposits :: "merkle_proof list"
  proofs_forced_from :: "merkle_proof list"
  proofs_forced_to :: "merkle_proof list"
  proofs_txs_from :: "merkle_proof list"
  proofs_txs_to :: "merkle_proof list"

definition execute_transition ::
  "externs \<Rightarrow> hash \<Rightarrow> transaction list \<Rightarrow> deposit list \<Rightarrow> forced_tx list
     \<Rightarrow> merkle_proof list \<Rightarrow> merkle_proof list \<Rightarrow> merkle_proof list
     \<Rightarrow> merkle_proof list \<Rightarrow> merkle_proof list
     \<Rightarrow> (hash \<times> hash \<times> hash, stf_error) result" where
  "execute_transition E pre_state_root txs deposits forced_txs
     p_deposits p_forced_from p_forced_to p_txs_from p_txs_to =
     (let deposits_hash = hash_deposits E deposits;
          forced_txs_hash = hash_forced_txs E forced_txs
      in bind_res (deposit_loop E p_deposits 0 deposits pre_state_root) (\<lambda>current_root.
         bind_res (forced_loop E p_forced_from p_forced_to 0 forced_txs current_root) (\<lambda>current_root.
         bind_res (tx_loop E p_txs_from p_txs_to 0 txs current_root) (\<lambda>current_root.
         Ok (current_root, deposits_hash, forced_txs_hash)))))"

text \<open>The call with the five proof vectors of one bundle.\<close>

abbreviation execute_with ::
  "externs \<Rightarrow> hash \<Rightarrow> transaction list \<Rightarrow> deposit list \<Rightarrow> forced_tx list \<Rightarrow> proof_bundle
     \<Rightarrow> (hash \<times> hash \<times> hash, stf_error) result" where
  "execute_with E r txs deposits forced_txs B \<equiv>
     execute_transition E r txs deposits forced_txs
       (proofs_deposits B) (proofs_forced_from B) (proofs_forced_to B)
       (proofs_txs_from B) (proofs_txs_to B)"

section \<open>The abstract ledger transition\<close>

text \<open>
  What one operation does to the tree of accounts. The position of the account is not tied
  to the operation: the code never compares the identity in a proof with the sender or the
  recipient. The recipient's leaf is replaced by a fresh account that holds the amount.
\<close>

inductive ledger_deposit :: "mtree \<Rightarrow> deposit \<Rightarrow> mtree \<Rightarrow> bool" where
  credit: "leaf_at t p = Some a \<Longrightarrow> apply_deposit a d = Ok a' \<Longrightarrow>
     ledger_deposit t d (set_leaf t p a')"

inductive ledger_tx :: "externs \<Rightarrow> mtree \<Rightarrow> transaction \<Rightarrow> mtree \<Rightarrow> bool" for E where
  transfer: "leaf_at t p = Some a \<Longrightarrow>
     apply_transaction E a (account_new (tx_to tx)) tx = Ok (Success a' b') \<Longrightarrow>
     leaf_at (set_leaf t p a') q = Some b \<Longrightarrow>
     ledger_tx E t tx (set_leaf (set_leaf t p a') q b')"
| charge: "leaf_at t p = Some a \<Longrightarrow>
     apply_transaction E a (account_new (tx_to tx)) tx = Ok (Failure a') \<Longrightarrow>
     ledger_tx E t tx (set_leaf t p a')"

inductive ledger_forced :: "externs \<Rightarrow> mtree \<Rightarrow> forced_tx \<Rightarrow> mtree \<Rightarrow> bool" for E where
  skip: "ftx_from f = hash_default \<Longrightarrow> ledger_forced E t f t"
| run: "ftx_from f \<noteq> hash_default \<Longrightarrow> ledger_tx E t (tx_of_forced f) t' \<Longrightarrow> ledger_forced E t f t'"

inductive chain :: "('s \<Rightarrow> 'x \<Rightarrow> 's \<Rightarrow> bool) \<Rightarrow> 's \<Rightarrow> 'x list \<Rightarrow> 's \<Rightarrow> bool" for R where
  chain_nil: "chain R s [] s"
| chain_cons: "R s x t \<Longrightarrow> chain R t xs u \<Longrightarrow> chain R s (x # xs) u"

inductive_simps chain_Nil_iff [simp]: "chain R s [] t"
inductive_simps chain_Cons_iff: "chain R s (x # xs) t"

definition ledger_run ::
  "externs \<Rightarrow> mtree \<Rightarrow> deposit list \<Rightarrow> forced_tx list \<Rightarrow> transaction list \<Rightarrow> mtree \<Rightarrow> bool" where
  "ledger_run E t deposits forced_txs txs t' \<longleftrightarrow>
     (\<exists>u v. chain ledger_deposit t deposits u \<and> chain (ledger_forced E) u forced_txs v
       \<and> chain (ledger_tx E) v txs t')"

lemma chain_weight:
  assumes "chain R s xs t" and "\<And>s x t. R s x t \<Longrightarrow> w t \<le> w s + c x"
  shows "w t \<le> w s + (sum_list (map c xs) :: nat)"
  using assms(1)
proof induction
  case (chain_cons s x t xs u)
  from assms(2) [OF chain_cons.hyps(1)] chain_cons.IH show ?case by simp
qed simp

lemma ledger_deposit_supply:
  "ledger_deposit t d t' \<Longrightarrow> total_supply t' = total_supply t + unat (dep_amount d)"
proof (induction rule: ledger_deposit.induct)
  case (credit t p a d a')
  from total_supply_set_leaf [OF credit(1), of a'] show ?case
    using credit(2) by (auto simp: apply_deposit_Ok_iff)
qed

text \<open>
  A transfer burns the fee and whatever the overwritten recipient leaf held; a failed one
  burns what could be charged of the fee. Nothing is created.
\<close>

lemma ledger_tx_supply: "ledger_tx E t tx t' \<Longrightarrow> total_supply t' \<le> total_supply t"
proof (induction rule: ledger_tx.induct)
  case (transfer t p a tx a' b' q b)
  from total_supply_set_leaf [OF transfer(1), of a'] total_supply_set_leaf [OF transfer(3), of b']
  show ?case
    using transfer(2) by (auto simp: apply_transaction_Success_iff)
next
  case (charge t p a tx a')
  from total_supply_set_leaf [OF charge(1), of a'] show ?case
    using charge(2) by (auto simp: apply_transaction_Failure_iff)
qed

lemma ledger_forced_supply: "ledger_forced E t f t' \<Longrightarrow> total_supply t' \<le> total_supply t"
  by (auto elim!: ledger_forced.cases dest: ledger_tx_supply)

lemma ledger_run_supply:
  assumes "ledger_run E t deposits forced_txs txs t'"
  shows "total_supply t' \<le> total_supply t + sum_list (map (\<lambda>d. unat (dep_amount d)) deposits)"
proof -
  from assms obtain u v where d: "chain ledger_deposit t deposits u"
    and f: "chain (ledger_forced E) u forced_txs v" and x: "chain (ledger_tx E) v txs t'"
    unfolding ledger_run_def by blast
  from d have "total_supply u \<le> total_supply t + sum_list (map (\<lambda>d. unat (dep_amount d)) deposits)"
    by (rule chain_weight) (simp add: ledger_deposit_supply)
  moreover from f have "total_supply v \<le> total_supply u + sum_list (map (\<lambda>_. 0) forced_txs)"
    by (rule chain_weight) (simp add: ledger_forced_supply)
  moreover from x have "total_supply t' \<le> total_supply v + sum_list (map (\<lambda>_. 0) txs)"
    by (rule chain_weight) (simp add: ledger_tx_supply)
  ultimately show ?thesis by (simp add: map_replicate_const sum_list_replicate)
qed


section \<open>A successful run is a ledger transition\<close>

text \<open>The byte strings the guest hashes at one operation, and in a whole run.\<close>

definition deposit_step_inputs :: "externs \<Rightarrow> merkle_proof \<Rightarrow> deposit \<Rightarrow> bytes list" where
  "deposit_step_inputs E p d = proof_inputs E p (mp_account p)
     @ (case apply_deposit (mp_account p) d of Ok a \<Rightarrow> proof_inputs E p a | _ \<Rightarrow> [])"

definition tx_step_inputs ::
  "externs \<Rightarrow> merkle_proof \<Rightarrow> merkle_proof \<Rightarrow> transaction \<Rightarrow> bytes list" where
  "tx_step_inputs E p q tx = proof_inputs E p (mp_account p)
     @ (case apply_transaction E (mp_account p) (account_new (tx_to tx)) tx of
          Ok (Success a b) \<Rightarrow> proof_inputs E p a @ proof_inputs E q (mp_account q) @ proof_inputs E q b
        | Ok (Failure a) \<Rightarrow> proof_inputs E p a
        | _ \<Rightarrow> [])"

fun deposit_inputs :: "externs \<Rightarrow> merkle_proof list \<Rightarrow> nat \<Rightarrow> deposit list \<Rightarrow> bytes list" where
  "deposit_inputs E ps i [] = []"
| "deposit_inputs E ps i (d # ds) =
     (if i < length ps then deposit_step_inputs E (ps ! i) d else [])
       @ deposit_inputs E ps (Suc i) ds"

fun tx_inputs ::
  "externs \<Rightarrow> merkle_proof list \<Rightarrow> merkle_proof list \<Rightarrow> nat \<Rightarrow> transaction list \<Rightarrow> bytes list" where
  "tx_inputs E ps qs i [] = []"
| "tx_inputs E ps qs i (tx # txs) =
     (if i < length ps
      then tx_step_inputs E (ps ! i) (if i < length qs then qs ! i else ps ! i) tx else [])
       @ tx_inputs E ps qs (Suc i) txs"

definition transition_inputs ::
  "externs \<Rightarrow> transaction list \<Rightarrow> deposit list \<Rightarrow> forced_tx list \<Rightarrow> proof_bundle \<Rightarrow> bytes list" where
  "transition_inputs E txs deposits forced_txs B =
     deposit_inputs E (proofs_deposits B) 0 deposits
     @ tx_inputs E (proofs_forced_from B) (proofs_forced_to B) 0 (map tx_of_forced forced_txs)
     @ tx_inputs E (proofs_txs_from B) (proofs_txs_to B) 0 txs"

lemma verified_leaf:
  assumes "verify E p (root_of E t)" and "collision_free E Q"
    and "set (tree_inputs E t) \<subseteq> Q" and "set (proof_inputs E p (mp_account p)) \<subseteq> Q"
  shows "leaf_at t (position p) = Some (mp_account p)"
    and "mp_siblings p = siblings_of E t (position p)"
proof -
  have "collision_free E (set (tree_inputs E t) \<union> set (account_data (mp_account p)
      # climb_inputs E (account_hash E (mp_account p)) (mp_siblings p)))"
    using assms(2) by (rule collision_free_subset) (use assms(3,4) in \<open>auto simp: proof_inputs_def\<close>)
  from climb_sound [OF _ this] assms(1)
  show "leaf_at t (position p) = Some (mp_account p)"
    and "mp_siblings p = siblings_of E t (position p)"
    by (auto simp: verify_def position_def)
qed

lemma verified_update:
  assumes "verify E p (root_of E t)" and "collision_free E Q"
    and "set (tree_inputs E t) \<subseteq> Q" and "set (proof_inputs E p (mp_account p)) \<subseteq> Q"
    and "set (proof_inputs E p a) \<subseteq> Q"
  shows "compute_new_root E p (account_hash E a) = root_of E (set_leaf t (position p) a)"
    and "set (tree_inputs E (set_leaf t (position p) a)) \<subseteq> Q"
proof -
  note leaf = verified_leaf [OF assms(1-4)]
  from climb_siblings_of [OF leaf(1)] leaf(2)
  show "compute_new_root E p (account_hash E a) = root_of E (set_leaf t (position p) a)"
    by (simp add: compute_new_root_def)
  have "proof_inputs E (proof_of E t (position p) a) a = proof_inputs E p a"
    using leaf(2) by (simp add: proof_inputs_def proof_of_def)
  with tree_inputs_set_leaf [OF leaf(1), of E a a] assms(3,5)
  show "set (tree_inputs E (set_leaf t (position p) a)) \<subseteq> Q"
    by auto
qed

lemma deposit_loop_sound:
  assumes "deposit_loop E ps i ds (root_of E t) = Ok r" and "collision_free E Q"
    and "set (tree_inputs E t) \<subseteq> Q" and "set (deposit_inputs E ps i ds) \<subseteq> Q"
  shows "\<exists>t'. chain ledger_deposit t ds t' \<and> r = root_of E t' \<and> set (tree_inputs E t') \<subseteq> Q"
  using assms(1,3,4)
proof (induction ds arbitrary: i t)
  case Nil
  then show ?case by auto
next
  case (Cons d ds)
  let ?p = "ps ! i"
  from Cons.prems(1) obtain a where i: "i < length ps"
    and v: "verify E ?p (root_of E t)" and a: "apply_deposit (mp_account ?p) d = Ok a"
    and rest: "deposit_loop E ps (Suc i) ds (compute_new_root E ?p (account_hash E a)) = Ok r"
    by (auto split: if_splits)
  from Cons.prems(3) i a
  have ins: "set (proof_inputs E ?p (mp_account ?p)) \<subseteq> Q" "set (proof_inputs E ?p a) \<subseteq> Q"
    and tail: "set (deposit_inputs E ps (Suc i) ds) \<subseteq> Q"
    by (auto simp: deposit_step_inputs_def)
  let ?t = "set_leaf t (position ?p) a"
  note upd = verified_update [OF v assms(2) Cons.prems(2) ins]
  have "ledger_deposit t d ?t"
    using verified_leaf(1) [OF v assms(2) Cons.prems(2) ins(1)] a by (rule ledger_deposit.credit)
  with Cons.IH [OF rest [unfolded upd(1)] upd(2) tail] show ?case
    by (auto intro: chain.intros)
qed

text \<open>One accepted transfer, whichever loop runs it.\<close>

lemma tx_step_sound:
  assumes "verify E p (root_of E t)" and "collision_free E Q" and "set (tree_inputs E t) \<subseteq> Q"
    and "set (proof_inputs E p (mp_account p)) \<subseteq> Q" and "set (proof_inputs E p a) \<subseteq> Q"
    and "apply_transaction E (mp_account p) (account_new (tx_to tx)) tx = Ok (Success a b)"
    and "verify E q (compute_new_root E p (account_hash E a))"
    and "set (proof_inputs E q (mp_account q)) \<subseteq> Q" and "set (proof_inputs E q b) \<subseteq> Q"
  shows "\<exists>t'. ledger_tx E t tx t' \<and> compute_new_root E q (account_hash E b) = root_of E t'
    \<and> set (tree_inputs E t') \<subseteq> Q"
proof -
  let ?t = "set_leaf t (position p) a"
  note upd = verified_update [OF assms(1-5)]
  note v = assms(7) [unfolded upd(1)]
  note upd' = verified_update [OF v assms(2) upd(2) assms(8,9)]
  have "ledger_tx E t tx (set_leaf ?t (position q) b)"
    using verified_leaf(1) [OF assms(1-4)] assms(6) verified_leaf(1) [OF v assms(2) upd(2) assms(8)]
    by (rule ledger_tx.transfer)
  with upd' show ?thesis by blast
qed

lemma tx_charge_sound:
  assumes "verify E p (root_of E t)" and "collision_free E Q" and "set (tree_inputs E t) \<subseteq> Q"
    and "set (proof_inputs E p (mp_account p)) \<subseteq> Q" and "set (proof_inputs E p a) \<subseteq> Q"
    and "apply_transaction E (mp_account p) (account_new (tx_to tx)) tx = Ok (Failure a)"
  shows "\<exists>t'. ledger_tx E t tx t' \<and> compute_new_root E p (account_hash E a) = root_of E t'
    \<and> set (tree_inputs E t') \<subseteq> Q"
proof -
  have "ledger_tx E t tx (set_leaf t (position p) a)"
    using verified_leaf(1) [OF assms(1-4)] assms(6) by (rule ledger_tx.charge)
  with verified_update [OF assms(1-5)] show ?thesis by blast
qed

text \<open>
  One iteration of either transaction loop: the new root is the root of a tree that the
  ledger step reaches, and the loop goes on from there.
\<close>

lemma tx_loop_step:
  assumes "tx_loop E ps qs i (tx # txs) (root_of E t) = Ok r" and "collision_free E Q"
    and "set (tree_inputs E t) \<subseteq> Q" and "set (tx_inputs E ps qs i (tx # txs)) \<subseteq> Q"
  shows "\<exists>t'. ledger_tx E t tx t' \<and> set (tree_inputs E t') \<subseteq> Q
    \<and> tx_loop E ps qs (Suc i) txs (root_of E t') = Ok r"
proof -
  let ?p = "ps ! i"
  from assms(1) obtain o1 where i: "i < length ps" and v: "verify E ?p (root_of E t)"
    and o1: "apply_transaction E (mp_account ?p) (account_new (tx_to tx)) tx = Ok o1"
    by (auto simp: bind_res_Ok_iff split: if_splits)
  from assms(4) i have inp: "set (proof_inputs E ?p (mp_account ?p)) \<subseteq> Q"
    by (auto simp: tx_step_inputs_def)
  note sound = v assms(2,3) inp
  show ?thesis
  proof (cases o1)
    case (Success a b)
    let ?q = "qs ! i"
    from Success assms(1) i v o1 have q: "i < length qs"
      and vq: "verify E ?q (compute_new_root E ?p (account_hash E a))"
      and rest: "tx_loop E ps qs (Suc i) txs (compute_new_root E ?q (account_hash E b)) = Ok r"
      by (auto simp: Let_def bind_res_Ok_iff split: if_splits)
    from assms(4) i q o1 Success have "set (proof_inputs E ?p a) \<subseteq> Q"
      "set (proof_inputs E ?q (mp_account ?q)) \<subseteq> Q" "set (proof_inputs E ?q b) \<subseteq> Q"
      by (auto simp: tx_step_inputs_def)
    with tx_step_sound [OF sound _ o1 [unfolded Success] vq] rest show ?thesis by auto
  next
    case (Failure a)
    from assms(4) i o1 Failure have "set (proof_inputs E ?p a) \<subseteq> Q"
      by (auto simp: tx_step_inputs_def)
    from tx_charge_sound [OF sound this o1 [unfolded Failure]] Failure assms(1) i v o1
    show ?thesis by (auto simp: bind_res_Ok_iff)
  qed
qed

lemma tx_loop_sound:
  assumes "tx_loop E ps qs i txs (root_of E t) = Ok r" and "collision_free E Q"
    and "set (tree_inputs E t) \<subseteq> Q" and "set (tx_inputs E ps qs i txs) \<subseteq> Q"
  shows "\<exists>t'. chain (ledger_tx E) t txs t' \<and> r = root_of E t' \<and> set (tree_inputs E t') \<subseteq> Q"
  using assms(1,3,4)
proof (induction txs arbitrary: i t)
  case Nil
  then show ?case by auto
next
  case (Cons tx txs)
  from tx_loop_step [OF Cons.prems(1) assms(2) Cons.prems(2,3)] obtain u
    where "ledger_tx E t tx u" and "set (tree_inputs E u) \<subseteq> Q"
      and "tx_loop E ps qs (Suc i) txs (root_of E u) = Ok r"
    by blast
  moreover from Cons.prems(3) have "set (tx_inputs E ps qs (Suc i) txs) \<subseteq> Q"
    by auto
  ultimately show ?case using Cons.IH by (fastforce intro: chain.intros)
qed

text \<open>
  A forced transaction that is not skipped goes through the same iteration as an ordinary
  one.
\<close>

lemma forced_loop_step_as_tx:
  assumes "ftx_from f \<noteq> hash_default"
    and "forced_loop E ps qs i (f # fs) root = Ok r"
  shows "\<exists>root'. tx_loop E ps qs i [tx_of_forced f] root = Ok root'
    \<and> forced_loop E ps qs (Suc i) fs root' = Ok r"
proof -
  from assms obtain o1 where
    "apply_transaction E (mp_account (ps ! i)) (account_new (ftx_to f)) (tx_of_forced f) = Ok o1"
    by (auto simp: apply_forced_tx_as_transaction bind_res_Ok_iff split: if_splits)
  with assms show ?thesis
    by (cases o1) (auto simp: apply_forced_tx_as_transaction Let_def bind_res_Ok_iff split: if_splits)
qed

lemma forced_loop_sound:
  assumes "forced_loop E ps qs i fs (root_of E t) = Ok r" and "collision_free E Q"
    and "set (tree_inputs E t) \<subseteq> Q" and "set (tx_inputs E ps qs i (map tx_of_forced fs)) \<subseteq> Q"
  shows "\<exists>t'. chain (ledger_forced E) t fs t' \<and> r = root_of E t' \<and> set (tree_inputs E t') \<subseteq> Q"
  using assms(1,3,4)
proof (induction fs arbitrary: i t)
  case Nil
  then show ?case by auto
next
  case (Cons f fs)
  have tail: "set (tx_inputs E ps qs (Suc i) (map tx_of_forced fs)) \<subseteq> Q"
    using Cons.prems(3) by auto
  show ?case
  proof (cases "ftx_from f = hash_default")
    case True
    with Cons.prems(1) have "forced_loop E ps qs (Suc i) fs (root_of E t) = Ok r" by simp
    from Cons.IH [OF this Cons.prems(2) tail] True show ?thesis
      by (auto intro: chain.intros ledger_forced.skip)
  next
    case False
    from forced_loop_step_as_tx [OF False Cons.prems(1)] obtain root'
      where one: "tx_loop E ps qs i [tx_of_forced f] (root_of E t) = Ok root'"
        and rest: "forced_loop E ps qs (Suc i) fs root' = Ok r" by blast
    from Cons.prems(3) have "set (tx_inputs E ps qs i [tx_of_forced f]) \<subseteq> Q" by simp
    from tx_loop_sound [OF one assms(2) Cons.prems(2) this] obtain u
      where u: "ledger_tx E t (tx_of_forced f) u" "root' = root_of E u" "set (tree_inputs E u) \<subseteq> Q"
      by (auto simp: chain_Cons_iff)
    from Cons.IH [OF rest [unfolded u(2)] u(3) tail] u(1) False show ?thesis
      by (auto intro: chain.intros ledger_forced.run)
  qed
qed

lemma execute_transition_ledger_run:
  assumes "execute_with E (root_of E t) txs deposits forced_txs B = Ok (r, dh, fh)"
    and "collision_free E (set (tree_inputs E t) \<union> set (transition_inputs E txs deposits forced_txs B))"
  shows "\<exists>t'. ledger_run E t deposits forced_txs txs t' \<and> r = root_of E t'"
proof -
  let ?Q = "set (tree_inputs E t) \<union> set (transition_inputs E txs deposits forced_txs B)"
  from assms(1) obtain r1 r2
    where d: "deposit_loop E (proofs_deposits B) 0 deposits (root_of E t) = Ok r1"
      and f: "forced_loop E (proofs_forced_from B) (proofs_forced_to B) 0 forced_txs r1 = Ok r2"
      and x: "tx_loop E (proofs_txs_from B) (proofs_txs_to B) 0 txs r2 = Ok r"
    by (auto simp: execute_transition_def Let_def)
  from deposit_loop_sound [OF d assms(2)] obtain u
    where u: "chain ledger_deposit t deposits u" "r1 = root_of E u" "set (tree_inputs E u) \<subseteq> ?Q"
    by (auto simp: transition_inputs_def)
  from forced_loop_sound [OF f [unfolded u(2)] assms(2) u(3)] obtain v
    where v: "chain (ledger_forced E) u forced_txs v" "r2 = root_of E v" "set (tree_inputs E v) \<subseteq> ?Q"
    by (auto simp: transition_inputs_def)
  from tx_loop_sound [OF x [unfolded v(2)] assms(2) v(3)] obtain t'
    where "chain (ledger_tx E) v txs t'" "r = root_of E t'"
    by (auto simp: transition_inputs_def)
  with u(1) v(1) show ?thesis unfolding ledger_run_def by blast
qed


section \<open>Every ledger transition is accepted\<close>

text \<open>
  The converse, with no condition on the digest: proofs cut from the trees along a ledger
  run make \<open>execute_transition\<close> return the root of the run's last tree.
\<close>

lemma loops_skip_first [simp]:
  "deposit_loop E (p # ps) (Suc i) ds r = deposit_loop E ps i ds r"
  "tx_loop E (p # ps) (q # qs) (Suc i) txs r = tx_loop E ps qs i txs r"
  "forced_loop E (p # ps) (q # qs) (Suc i) fs r = forced_loop E ps qs i fs r"
proof -
  show "deposit_loop E (p # ps) (Suc i) ds r = deposit_loop E ps i ds r"
    by (induction ds arbitrary: i r) (simp_all cong: if_cong)
  show "tx_loop E (p # ps) (q # qs) (Suc i) txs r = tx_loop E ps qs i txs r"
    by (induction txs arbitrary: i r) (simp_all cong: if_cong transaction_result.case_cong)
  show "forced_loop E (p # ps) (q # qs) (Suc i) fs r = forced_loop E ps qs i fs r"
    by (induction fs arbitrary: i r) (simp_all cong: if_cong transaction_result.case_cong)
qed

lemma proof_of_verifies:
  assumes "leaf_at t p = Some a"
  shows "verify E (proof_of E t p a) (root_of E t)"
    and "compute_new_root E (proof_of E t p a) (account_hash E a') = root_of E (set_leaf t p a')"
  using climb_siblings_of [OF assms] set_leaf_same [OF assms]
  by (simp_all add: verify_def compute_new_root_def proof_of_def)

lemma mp_account_proof_of [simp]: "mp_account (proof_of E t p a) = a"
  by (simp add: proof_of_def)

lemma deposit_loop_complete:
  assumes "chain ledger_deposit t ds t'"
  shows "\<exists>ps. deposit_loop E ps 0 ds (root_of E t) = Ok (root_of E t')"
  using assms
proof induction
  case (chain_nil t)
  then show ?case by simp
next
  case (chain_cons t d u ds t')
  from chain_cons.IH obtain ps where ps: "deposit_loop E ps 0 ds (root_of E u) = Ok (root_of E t')"
    by blast
  from chain_cons.hyps(1) obtain p a a' where leaf: "leaf_at t p = Some a"
    and a': "apply_deposit a d = Ok a'" and u: "u = set_leaf t p a'"
    by (auto elim: ledger_deposit.cases)
  from ps u a' proof_of_verifies [OF leaf]
  have "deposit_loop E (proof_of E t p a # ps) 0 (d # ds) (root_of E t) = Ok (root_of E t')"
    by simp
  then show ?case by blast
qed

lemma ledger_tx_accepted:
  assumes "ledger_tx E t tx u"
  shows "\<exists>p q. \<forall>ps qs txs. tx_loop E (p # ps) (q # qs) 0 (tx # txs) (root_of E t)
    = tx_loop E ps qs 0 txs (root_of E u)"
  using assms
proof cases
  case (transfer p a a' b' q b)
  let ?p = "proof_of E t p a" and ?q = "proof_of E (set_leaf t p a') q b"
  have "\<forall>ps qs txs. tx_loop E (?p # ps) (?q # qs) 0 (tx # txs) (root_of E t)
      = tx_loop E ps qs 0 txs (root_of E u)"
    using transfer proof_of_verifies [OF transfer(2)] proof_of_verifies [OF transfer(4)]
    by (simp add: Let_def)
  then show ?thesis by blast
next
  case (charge p a a')
  let ?p = "proof_of E t p a"
  have "\<forall>ps qs txs. tx_loop E (?p # ps) (?p # qs) 0 (tx # txs) (root_of E t)
      = tx_loop E ps qs 0 txs (root_of E u)"
    using charge proof_of_verifies [OF charge(2)] by simp
  then show ?thesis by blast
qed

lemma tx_loop_complete:
  assumes "chain (ledger_tx E) t txs t'"
  shows "\<exists>ps qs. tx_loop E ps qs 0 txs (root_of E t) = Ok (root_of E t')"
  using assms
proof induction
  case (chain_cons t tx u txs t')
  from chain_cons.IH ledger_tx_accepted [OF chain_cons.hyps(1)] show ?case by metis
qed simp

lemma forced_as_tx_loop:
  assumes "ftx_from f \<noteq> hash_default"
    and "tx_loop E (p # ps) (q # qs) 0 [tx_of_forced f] root = Ok root'"
  shows "forced_loop E (p # ps) (q # qs) 0 (f # fs) root = forced_loop E ps qs 0 fs root'"
proof -
  from assms obtain o1 where
    "apply_transaction E (mp_account p) (account_new (ftx_to f)) (tx_of_forced f) = Ok o1"
    by (auto simp: bind_res_Ok_iff split: if_splits)
  with assms show ?thesis
    by (cases o1) (auto simp: apply_forced_tx_as_transaction Let_def split: if_splits)
qed

lemma forced_loop_complete:
  assumes "chain (ledger_forced E) t fs t'"
  shows "\<exists>ps qs. forced_loop E ps qs 0 fs (root_of E t) = Ok (root_of E t')"
  using assms
proof induction
  case (chain_cons t f u fs t')
  from chain_cons.IH obtain ps qs
    where ih: "forced_loop E ps qs 0 fs (root_of E u) = Ok (root_of E t')" by blast
  from chain_cons.hyps(1) show ?case
  proof cases
    case skip
    with ih have "forced_loop E (undefined # ps) (undefined # qs) 0 (f # fs) (root_of E t)
      = Ok (root_of E t')" by simp
    then show ?thesis by blast
  next
    case run
    from ledger_tx_accepted [OF run(2)] obtain p q where
      "tx_loop E (p # ps) (q # qs) 0 [tx_of_forced f] (root_of E t) = Ok (root_of E u)"
      by (metis tx_loop.simps(1))
    from forced_as_tx_loop [OF run(1) this, of fs] ih show ?thesis by metis
  qed
qed simp

lemma execute_transition_accepts:
  assumes "ledger_run E t deposits forced_txs txs t'"
  shows "\<exists>B. execute_with E (root_of E t) txs deposits forced_txs B
    = Ok (root_of E t', hash_deposits E deposits, hash_forced_txs E forced_txs)"
proof -
  from assms obtain u v where "chain ledger_deposit t deposits u"
    and "chain (ledger_forced E) u forced_txs v" and "chain (ledger_tx E) v txs t'"
    unfolding ledger_run_def by blast
  then obtain ps fps fqs xps xqs
    where d: "deposit_loop E ps 0 deposits (root_of E t) = Ok (root_of E u)"
      and f: "forced_loop E fps fqs 0 forced_txs (root_of E u) = Ok (root_of E v)"
      and x: "tx_loop E xps xqs 0 txs (root_of E v) = Ok (root_of E t')"
    using deposit_loop_complete forced_loop_complete tx_loop_complete by metis
  show ?thesis
    by (rule exI [of _ "\<lparr>proofs_deposits = ps, proofs_forced_from = fps, proofs_forced_to = fqs,
        proofs_txs_from = xps, proofs_txs_to = xqs\<rparr>"])
      (simp add: execute_transition_def d f x)
qed

section \<open>Panics and the empty root\<close>

lemma apply_transaction_no_panic:
  "\<not> overflow_checks E \<Longrightarrow> apply_transaction E a b tx \<noteq> Panic msg"
  by (auto simp: apply_transaction_def bind_res_def ok_or_def Let_def
      split: result.splits option.splits)

lemma apply_deposit_no_panic: "apply_deposit a d \<noteq> Panic msg"
  by (cases a d rule: apply_deposit_cases) simp_all

lemma index_vec_in_range: "i < length xs \<Longrightarrow> index_vec xs i = Ok (xs ! i)"
  by simp

lemmas no_panic_simps =
  index_vec_in_range apply_deposit_no_panic apply_forced_tx_as_transaction bind_res_Panic_iff Let_def

lemma deposit_loop_no_panic:
  "i + length ds \<le> length ps \<Longrightarrow> deposit_loop E ps i ds r \<noteq> Panic msg"
  by (induction ds arbitrary: i r) (auto simp: no_panic_simps)

lemma tx_loop_no_panic:
  assumes "\<not> overflow_checks E"
  shows "i + length txs \<le> length ps \<Longrightarrow> i + length txs \<le> length qs \<Longrightarrow>
    tx_loop E ps qs i txs r \<noteq> Panic msg"
  by (induction txs arbitrary: i r)
    (auto simp: no_panic_simps apply_transaction_no_panic [OF assms]
      split: transaction_result.splits)

lemma forced_loop_no_panic:
  assumes "\<not> overflow_checks E"
  shows "i + length fs \<le> length ps \<Longrightarrow> i + length fs \<le> length qs \<Longrightarrow>
    forced_loop E ps qs i fs r \<noteq> Panic msg"
  by (induction fs arbitrary: i r)
    (auto simp: no_panic_simps apply_transaction_no_panic [OF assms]
      split: transaction_result.splits)

lemma climb_last_input:
  "climb E (account_hash E a) ss
     = sha3_256 E (last (account_data a # climb_inputs E (account_hash E a) ss))"
proof (cases ss rule: rev_cases)
  case Nil
  then show ?thesis by (simp add: account_hash_def)
next
  case (snoc ys y)
  then show ?thesis by (cases y) (simp add: hash_nodes_def)
qed


text \<open>A run of one deposit and one transfer on the sample ledger.\<close>

definition sample_paid :: mtree where
  "sample_paid = Br (Tip (alice\<lparr>acc_balance := 96, acc_nonce := 1\<rparr>))
     (Tip \<lparr>acc_id = hash_of [2], acc_balance = 10, acc_nonce = 0\<rparr>)"

definition sample_bundle :: proof_bundle where
  "sample_bundle =
     (let a' = alice\<lparr>acc_balance := 107\<rparr>;
          a'' = alice\<lparr>acc_balance := 96, acc_nonce := 1\<rparr>;
          E = ref_externs
      in \<lparr>proofs_deposits = [proof_of E sample_tree [True] alice],
          proofs_forced_from = [], proofs_forced_to = [],
          proofs_txs_from = [proof_of E (Br (Tip a') (Tip bob)) [True] a'],
          proofs_txs_to = [proof_of E (Br (Tip a'') (Tip bob)) [False] bob]\<rparr>)"

lemmas bundle_evals [evals] = sample_bundle_def sample_paid_def

lemma sample_execution:
  "execute_with ref_externs (root_of ref_externs sample_tree) [pay_bob] [to_alice] [] sample_bundle
     = Ok (root_of ref_externs sample_paid, hash_deposits ref_externs [to_alice],
           hash_forced_txs ref_externs [])"
  by (simp add: execute_transition_def sample_bundle_def sample_tree_def sample_paid_def Let_def
      apply_deposit_def apply_transaction_def checked_add_def verify_def compute_new_root_def
      account_new_def proof_of_def to_alice_def pay_bob_def alice_def ref_externs_def)

text \<open>The nine different strings hashed in that run.\<close>

definition sample_strings :: "bytes list" where
  "sample_strings =
     (let a' = alice\<lparr>acc_balance := 107\<rparr>;
          a'' = alice\<lparr>acc_balance := 96, acc_nonce := 1\<rparr>;
          b' = \<lparr>acc_id = hash_of [2], acc_balance = 10, acc_nonce = 0\<rparr>;
          node = (\<lambda>x y. hash_bytes (account_hash ref_externs x) @ hash_bytes (account_hash ref_externs y))
      in [account_data alice, account_data a', account_data a'', account_data bob, account_data b',
          node alice bob, node a' bob, node a'' bob, node a'' b'])"

lemma sample_strings_collision_free: "collision_free ref_externs (set sample_strings)"
  by (rule collision_free_list) (simp add: sample_strings_def Let_def evals)

lemma sample_collision_free:
  "collision_free ref_externs (set (tree_inputs ref_externs sample_tree)
     \<union> set (transition_inputs ref_externs [pay_bob] [to_alice] [] sample_bundle))"
proof -
  let ?a = "alice\<lparr>acc_balance := 107\<rparr>" and ?b = "account_new (hash_of [2])"
  have "apply_deposit alice to_alice = Ok ?a"
    by (simp add: apply_deposit_def checked_add_def alice_def to_alice_def)
  moreover have "apply_transaction ref_externs ?a ?b pay_bob
      = Ok (Success (alice\<lparr>acc_balance := 96, acc_nonce := 1\<rparr>)
          \<lparr>acc_id = hash_of [2], acc_balance = 10, acc_nonce = 0\<rparr>)"
    by (simp add: apply_transaction_def checked_add_def account_new_def ref_externs_def
        alice_def pay_bob_def)
  moreover have "tx_to pay_bob = hash_of [2]" by (simp add: pay_bob_def)
  ultimately have "set (tree_inputs ref_externs sample_tree)
      \<union> set (transition_inputs ref_externs [pay_bob] [to_alice] [] sample_bundle)
      \<subseteq> set sample_strings"
    by (simp add: transition_inputs_def deposit_step_inputs_def tx_step_inputs_def
        sample_bundle_def sample_tree_def sample_strings_def proof_inputs_def proof_of_def Let_def)
  with sample_strings_collision_free show ?thesis by (rule collision_free_subset)
qed

section \<open>Properties\<close>

text \<open>
C1. What a proven block means: if \<open>execute_transition\<close> accepts a block against the root of a
  ledger tree, and no two different byte strings hashed by the tree and by the run collide,
  then the post-state root is the root of a tree that the block's deposits, forced
  transactions and transactions, in this order, lead to; and the two returned hashes are those
  of the block's deposits and forced transactions.
\<close>
theorem execute_transition_sound:
  assumes "execute_with E (root_of E t) txs deposits forced_txs B = Ok (r, dh, fh)"
    and "collision_free E (set (tree_inputs E t) \<union> set (transition_inputs E txs deposits forced_txs B))"
  shows "(\<exists>t'. ledger_run E t deposits forced_txs txs t' \<and> r = root_of E t')
    \<and> dh = hash_deposits E deposits \<and> fh = hash_forced_txs E forced_txs"
  using execute_transition_ledger_run [OF assms] assms(1)
  by (auto simp: execute_transition_def Let_def)

theorem execute_transition_sound_witness:
  "\<exists>t'. ledger_run ref_externs sample_tree [to_alice] [] [pay_bob] t'
     \<and> root_of ref_externs sample_paid = root_of ref_externs t'"
  using execute_transition_sound [OF sample_execution sample_collision_free] by blast

text \<open>
C2. A proven block creates no value: the balances under the post-state root add up to at most
  the balances under the pre-state root plus the block's deposits, whatever proofs the
  sequencer supplied.
\<close>
theorem execute_transition_no_inflation:
  assumes "execute_with E (root_of E t) txs deposits forced_txs B = Ok (r, dh, fh)"
    and "collision_free E (set (tree_inputs E t) \<union> set (transition_inputs E txs deposits forced_txs B))"
  shows "\<exists>t'. r = root_of E t' \<and>
    total_supply t' \<le> total_supply t + sum_list (map (\<lambda>d. unat (dep_amount d)) deposits)"
  using execute_transition_ledger_run [OF assms] ledger_run_supply by blast

theorem execute_transition_no_inflation_witness:
  "\<exists>t'. root_of ref_externs sample_paid = root_of ref_externs t' \<and> total_supply t' \<le> 112"
  using execute_transition_no_inflation [OF sample_execution sample_collision_free]
  by (simp add: sample_tree_def alice_def bob_def to_alice_def)

text \<open>
C6. The converse, with no assumption on the digest: for every ledger run from a tree there are
  proofs with which \<open>execute_transition\<close> accepts the block and returns the root of the run's
  last tree.
\<close>
theorem execute_transition_complete:
  assumes "ledger_run E t deposits forced_txs txs t'"
  shows "\<exists>B. execute_with E (root_of E t) txs deposits forced_txs B
    = Ok (root_of E t', hash_deposits E deposits, hash_forced_txs E forced_txs)"
  by (rule execute_transition_accepts) (rule assms)

theorem execute_transition_complete_witness:
  "\<exists>B. execute_with ref_externs (root_of ref_externs sample_tree) [] [to_alice] [] B
    = Ok (root_of ref_externs (Br (Tip (alice\<lparr>acc_balance := 107\<rparr>)) (Tip bob)),
        hash_deposits ref_externs [to_alice], hash_forced_txs ref_externs [])"
proof -
  have "ledger_deposit sample_tree to_alice (set_leaf sample_tree [True] (alice\<lparr>acc_balance := 107\<rparr>))"
    by (rule ledger_deposit.credit [where a = alice])
      (simp_all add: sample_tree_def apply_deposit_def checked_add_def alice_def to_alice_def)
  then have "ledger_run ref_externs sample_tree [to_alice] [] []
      (Br (Tip (alice\<lparr>acc_balance := 107\<rparr>)) (Tip bob))"
    by (simp add: ledger_run_def chain_Cons_iff sample_tree_def)
  then show ?thesis by (rule execute_transition_complete)
qed

text \<open>
C23. In a transfer the recipient's leaf is overwritten, not credited: whoever stands at the
  recipient's position, with whatever balance and nonce, is replaced by a fresh account that
  holds the amount, and the old balance is destroyed along with the fee. The sender's leaf need
  not be the account named in the transaction.
\<close>
theorem execute_transition_overwrites_recipient:
  assumes "leaf_at t p = Some a" and "leaf_at t q = Some b" and "p \<noteq> q"
    and "apply_transaction E a (account_new (tx_to tx)) tx = Ok (Success a' b')"
  defines "t' \<equiv> set_leaf (set_leaf t p a') q
    \<lparr>acc_id = tx_to tx, acc_balance = tx_amount tx, acc_nonce = 0\<rparr>"
  shows "execute_transition E (root_of E t) [tx] [] [] [] [] []
      [proof_of E t p a] [proof_of E (set_leaf t p a') q b]
    = Ok (root_of E t', hash_deposits E [], hash_forced_txs E [])
    \<and> total_supply t' + unat (tx_fee tx) + unat (acc_balance b) = total_supply t"
proof -
  have b': "b' = \<lparr>acc_id = tx_to tx, acc_balance = tx_amount tx, acc_nonce = 0\<rparr>"
    using assms(4) by (simp add: apply_transaction_Success_iff word_unat_eq_iff)
  have q: "leaf_at (set_leaf t p a') q = Some b"
    using leaf_at_set_leaf [OF assms(1)] assms(2,3) by simp
  note acc = proof_of_verifies [OF assms(1)] proof_of_verifies [OF q]
  have "execute_transition E (root_of E t) [tx] [] [] [] [] []
      [proof_of E t p a] [proof_of E (set_leaf t p a') q b]
    = Ok (root_of E t', hash_deposits E [], hash_forced_txs E [])"
    using acc assms(4) b' by (simp add: execute_transition_def t'_def Let_def)
  moreover have "total_supply t' + unat (tx_fee tx) + unat (acc_balance b) = total_supply t"
    using total_supply_set_leaf [OF assms(1), of a'] total_supply_set_leaf [OF q, of b'] assms(4)
    by (auto simp: t'_def b' apply_transaction_Success_iff)
  ultimately show ?thesis by blast
qed

theorem execute_transition_overwrites_recipient_witness:
  "execute_transition ref_externs (root_of ref_externs sample_tree) [pay_bob] [] [] [] [] []
      [proof_of ref_externs sample_tree [True] alice]
      [proof_of ref_externs (Br (Tip (alice\<lparr>acc_balance := 89, acc_nonce := 1\<rparr>)) (Tip bob)) [False] bob]
    = Ok (root_of ref_externs (Br (Tip (alice\<lparr>acc_balance := 89, acc_nonce := 1\<rparr>))
            (Tip \<lparr>acc_id = hash_of [2], acc_balance = 10, acc_nonce = 0\<rparr>)),
          hash_deposits ref_externs [], hash_forced_txs ref_externs [])
   \<and> (99 :: nat) + 1 + 5 = total_supply sample_tree"
proof -
  let ?a = "alice\<lparr>acc_balance := 89, acc_nonce := 1\<rparr>"
  let ?b = "\<lparr>acc_id = hash_of [2], acc_balance = 10, acc_nonce = 0\<rparr>"
  have "leaf_at sample_tree [True] = Some alice" and "leaf_at sample_tree [False] = Some bob"
    by (simp_all add: sample_tree_def)
  moreover have "apply_transaction ref_externs alice (account_new (tx_to pay_bob)) pay_bob
      = Ok (Success ?a ?b)"
    by (simp add: apply_transaction_def checked_add_def account_new_def pay_bob_def alice_def
        ref_externs_def)
  ultimately show ?thesis
    using execute_transition_overwrites_recipient
      [of sample_tree "[True]" alice "[False]" bob ref_externs pay_bob ?a ?b]
    by (simp add: sample_tree_def pay_bob_def alice_def bob_def)
qed

text \<open>
C24. A deposit is credited to whatever leaf its proof opens: the run is accepted for every leaf
  of the tree, also one whose identity is not the deposit's recipient.
\<close>
theorem execute_transition_deposit_any_leaf:
  assumes "leaf_at t p = Some a" and "apply_deposit a d = Ok a'"
  shows "execute_transition E (root_of E t) [] [d] [] [proof_of E t p a] [] [] [] []
    = Ok (root_of E (set_leaf t p a'), hash_deposits E [d], hash_forced_txs E [])"
  using proof_of_verifies [OF assms(1)] assms(2) by (simp add: execute_transition_def)

theorem execute_transition_deposit_any_leaf_witness:
  "dep_to to_alice \<noteq> acc_id bob \<and>
   execute_transition ref_externs (root_of ref_externs sample_tree) [] [to_alice] []
     [proof_of ref_externs sample_tree [False] bob] [] [] [] []
   = Ok (root_of ref_externs (Br (Tip alice) (Tip (bob\<lparr>acc_balance := 12\<rparr>))),
       hash_deposits ref_externs [to_alice], hash_forced_txs ref_externs [])"
proof -
  have "leaf_at sample_tree [False] = Some bob"
    and "apply_deposit bob to_alice = Ok (bob\<lparr>acc_balance := 12\<rparr>)"
    by (simp_all add: sample_tree_def apply_deposit_def checked_add_def bob_def to_alice_def)
  from execute_transition_deposit_any_leaf [OF this, of ref_externs] show ?thesis
    by (simp add: sample_tree_def to_alice_def bob_def evals)
qed

text \<open>
  The first proof a run verifies: that of the first deposit; without deposits, that of the
  first forced transaction that is not skipped for its zero sender; without these, that of the
  first transaction.
\<close>

definition first_verified ::
  "transaction list \<Rightarrow> deposit list \<Rightarrow> forced_tx list \<Rightarrow> proof_bundle \<Rightarrow> merkle_proof option" where
  "first_verified txs deposits forced_txs B =
     (let skipped = takeWhile (\<lambda>f. ftx_from f = hash_default) forced_txs in
      if deposits \<noteq> [] then Some (proofs_deposits B ! 0)
      else if length skipped < length forced_txs then Some (proofs_forced_from B ! length skipped)
      else if txs \<noteq> [] then Some (proofs_txs_from B ! 0)
      else None)"

lemma forced_loop_skips:
  "\<forall>f \<in> set fs. ftx_from f = hash_default \<Longrightarrow>
   forced_loop E ps qs i (fs @ gs) r = forced_loop E ps qs (i + length fs) gs r"
  by (induction fs arbitrary: i) simp_all

lemma forced_loop_first:
  assumes "forced_loop E ps qs 0 fs r = Ok r'"
  shows "let skipped = takeWhile (\<lambda>f. ftx_from f = hash_default) fs in
    if length skipped < length fs then verify E (ps ! length skipped) r else r' = r"
proof -
  let ?xs = "takeWhile (\<lambda>f. ftx_from f = hash_default) fs" and ?ys = "dropWhile (\<lambda>f. ftx_from f = hash_default) fs"
  have "\<forall>f \<in> set ?xs. ftx_from f = hash_default" by (auto dest: set_takeWhileD)
  from forced_loop_skips [OF this, of E ps qs 0 ?ys r] assms
  have rest: "forced_loop E ps qs (length ?xs) ?ys r = Ok r'" by simp
  have len: "length ?xs + length ?ys = length fs"
    by (metis length_append takeWhile_dropWhile_id)
  show ?thesis
  proof (cases ?ys)
    case Nil
    with rest have "r' = r" by simp
    moreover have "\<not> length ?xs < length fs" using len unfolding Nil list.size by linarith
    ultimately show ?thesis unfolding Let_def by (simp only: if_False)
  next
    case (Cons f gs)
    then have "ftx_from f \<noteq> hash_default"
      using hd_dropWhile [of "\<lambda>f. ftx_from f = hash_default" fs] by simp
    then have "verify E (ps ! length ?xs) r"
      using rest unfolding Cons by (auto simp: bind_res_Ok_iff split: if_splits)
    moreover have "length ?xs < length fs" using len unfolding Cons list.size by linarith
    ultimately show ?thesis unfolding Let_def by (simp only: if_True)
  qed
qed

lemma empty_root_verified:
  assumes "execute_with E r txs deposits forced_txs B = Ok (r', dh, fh)"
  shows "case first_verified txs deposits forced_txs B of None \<Rightarrow> r' = r | Some p \<Rightarrow> verify E p r"
proof (cases deposits)
  case (Cons d ds)
  with assms show ?thesis
    by (auto simp: first_verified_def Let_def execute_transition_def bind_res_Ok_iff split: if_splits)
next
  case Nil
  with assms obtain r1 where "forced_loop E (proofs_forced_from B) (proofs_forced_to B) 0 forced_txs r = Ok r1"
    and x: "tx_loop E (proofs_txs_from B) (proofs_txs_to B) 0 txs r1 = Ok r'"
    by (auto simp: execute_transition_def Let_def)
  from forced_loop_first [OF this(1)] x Nil show ?thesis
    by (cases txs) (auto simp: first_verified_def Let_def bind_res_Ok_iff split: if_splits)
qed

lemma nothing_verified_accepted:
  assumes "first_verified txs deposits forced_txs B = None"
  shows "execute_with E r txs deposits forced_txs B = Ok (r, hash_deposits E deposits, hash_forced_txs E forced_txs)"
proof -
  from assms have "deposits = []" "txs = []"
    and "length (takeWhile (\<lambda>f. ftx_from f = hash_default) forced_txs) = length forced_txs"
    using length_takeWhile_le [of "\<lambda>f. ftx_from f = hash_default" forced_txs]
    by (auto simp: first_verified_def Let_def split: if_splits)
  moreover from this(3) have "\<forall>f \<in> set forced_txs. ftx_from f = hash_default"
    by (metis takeWhile_eq_take take_all_iff order_refl set_takeWhileD)
  ultimately show ?thesis
    using forced_loop_skips [of forced_txs E "proofs_forced_from B" "proofs_forced_to B" 0 "[]" r]
    by (simp add: execute_transition_def)
qed

text \<open>
C25. Nothing moves the empty state: against the all-zero root, the root of a fresh database, a
  block is accepted in two cases only. Either it verifies no proof at all, because it has
  neither deposits nor transactions and every forced transaction has the zero sender and is
  skipped: such a block is always accepted and leaves the root zero. Or the last string hashed
  for the first proof it verifies, whether of a deposit, a forced transaction or a
  transaction, is a preimage of the all-zero digest.
\<close>
theorem execute_transition_from_empty_root:
  "(case first_verified txs deposits forced_txs B of
      None \<Rightarrow> execute_with E hash_default txs deposits forced_txs B
        = Ok (hash_default, hash_deposits E deposits, hash_forced_txs E forced_txs)
    | Some p \<Rightarrow> (\<exists>res. execute_with E hash_default txs deposits forced_txs B = Ok res)
        \<longrightarrow> sha3_256 E (last (proof_inputs E p (mp_account p))) = hash_default)"
proof (cases "first_verified txs deposits forced_txs B")
  case None
  then show ?thesis by (simp add: nothing_verified_accepted)
next
  case (Some p)
  have "verify E p hash_default" if "execute_with E hash_default txs deposits forced_txs B = Ok res" for res
    using empty_root_verified [of E hash_default txs deposits forced_txs B "fst res" "fst (snd res)" "snd (snd res)"]
      that Some by simp
  then show ?thesis
    using Some by (auto simp: verify_def climb_last_input proof_inputs_def)
qed

text \<open>A forced transaction with a sender, behind one that is skipped, in a world with one digest.\<close>

theorem execute_transition_from_empty_root_witness:
  "let E = ref_externs\<lparr>sha3_256 := \<lambda>_. hash_default\<rparr>; p = \<lparr>mp_account = alice, mp_siblings = []\<rparr>
   in sha3_256 E (last (proof_inputs E p (mp_account p))) = hash_default"
proof -
  let ?E = "ref_externs\<lparr>sha3_256 := \<lambda>_. hash_default\<rparr>"
  let ?p = "\<lparr>mp_account = alice, mp_siblings = []\<rparr>"
  let ?f = "\<lparr>ftx_from = hash_of [1], ftx_to = hash_of [2], ftx_nonce = 0, ftx_fee = 0, ftx_amount = 1,
    ftx_timestamp = 0, ftx_l2_calldata = []\<rparr>"
  let ?B = "\<lparr>proofs_deposits = [], proofs_forced_from = [?p, ?p], proofs_forced_to = [?p, ?p],
    proofs_txs_from = [], proofs_txs_to = []\<rparr>"
  have ne: "hash_of [1] \<noteq> hash_default" by (simp add: evals)
  have "\<exists>res. execute_with ?E hash_default [] [] [?f\<lparr>ftx_from := hash_default\<rparr>, ?f] ?B = Ok res"
    using ne by (simp add: execute_transition_def verify_def compute_new_root_def account_hash_def
        apply_forced_tx_def checked_add_def alice_def account_new_def ref_externs_def)
  moreover have "first_verified [] [] [?f\<lparr>ftx_from := hash_default\<rparr>, ?f] ?B = Some ?p"
    using ne by (simp add: first_verified_def)
  ultimately show ?thesis
    using execute_transition_from_empty_root [where txs = "[]" and deposits = "[]"
        and forced_txs = "[?f\<lparr>ftx_from := hash_default\<rparr>, ?f]" and B = ?B and E = ?E]
    by (simp add: Let_def)
qed

text \<open>
  In a build without overflow checks, such as the zkVM guest, \<open>execute_transition\<close> never
  panics on proof vectors as long as the lists they belong to, whatever they contain: it
  returns a result or an error.
\<close>

lemma execute_transition_no_panic:
  assumes "\<not> overflow_checks E"
    and "length deposits \<le> length (proofs_deposits B)"
    and "length forced_txs \<le> length (proofs_forced_from B)"
    and "length forced_txs \<le> length (proofs_forced_to B)"
    and "length txs \<le> length (proofs_txs_from B)" and "length txs \<le> length (proofs_txs_to B)"
  shows "execute_with E r txs deposits forced_txs B \<noteq> Panic msg"
  using assms
  by (auto simp: execute_transition_def Let_def bind_res_Panic_iff deposit_loop_no_panic
      tx_loop_no_panic forced_loop_no_panic)

end
