(* ===== verification/Guest.thy ===== *)
theory Guest
  imports Stf_Transition
begin

text \<open>
  \<^verbatim>\<open>crates/program/src/main.rs\<close>: the program that runs inside the zkVM. It reads nine
  values, runs \<open>execute_transition\<close>, and commits the ABI encoding of the public values; an
  error of the transition makes it panic, so that no proof exists.
\<close>

section \<open>The code\<close>

text \<open>What \<open>sp1_zkvm::io::read\<close> yields, in the order the host wrote it.\<close>

record guest_input =
  gi_pre_state_root :: hash
  gi_transactions :: "transaction list"
  gi_deposits :: "deposit list"
  gi_forced_transactions :: "forced_tx list"
  gi_proofs :: proof_bundle

text \<open>The outcome is the committed byte string; \<open>unit\<close> errors never occur.\<close>

definition guest_main :: "externs \<Rightarrow> guest_input \<Rightarrow> (bytes, unit) result" where
  "guest_main E inp =
     (let deposits_len = of_nat (length (gi_deposits inp)) :: u32;
          forced_txs_len = of_nat (length (gi_forced_transactions inp)) :: u32;
          prfs = gi_proofs inp
      in case execute_transition E (gi_pre_state_root inp) (gi_transactions inp) (gi_deposits inp)
            (gi_forced_transactions inp) (proofs_deposits prfs) (proofs_forced_from prfs)
            (proofs_forced_to prfs) (proofs_txs_from prfs) (proofs_txs_to prfs) of
          Ok (post_state_root, deposits_hash, forced_txs_hash) \<Rightarrow>
            let public_values =
              \<lparr>preStateRoot = gi_pre_state_root inp,
               postStateRoot = post_state_root,
               depositsCommitment = build_commitment deposits_hash deposits_len,
               forcedTxsCommitment = build_commitment forced_txs_hash forced_txs_len\<rparr>
            in Ok (abi_encode_public_values E public_values)
        | Err e \<Rightarrow> Panic ''main post_state_root err''
        | Panic msg \<Rightarrow> Panic msg)"

section \<open>What is committed\<close>

definition public_values_of :: "externs \<Rightarrow> guest_input \<Rightarrow> hash \<Rightarrow> public_values" where
  "public_values_of E inp r =
     \<lparr>preStateRoot = gi_pre_state_root inp, postStateRoot = r,
      depositsCommitment =
        build_commitment (hash_deposits E (gi_deposits inp)) (of_nat (length (gi_deposits inp))),
      forcedTxsCommitment =
        build_commitment (hash_forced_txs E (gi_forced_transactions inp))
          (of_nat (length (gi_forced_transactions inp)))\<rparr>"

lemma execute_transition_hashes:
  "execute_with E r txs ds fs B = Ok (r', dh, fh) \<Longrightarrow>
   dh = hash_deposits E ds \<and> fh = hash_forced_txs E fs"
  by (auto simp: execute_transition_def Let_def)

lemma guest_main_Ok_iff:
  "guest_main E inp = Ok out \<longleftrightarrow>
     (\<exists>r dh fh. execute_with E (gi_pre_state_root inp) (gi_transactions inp) (gi_deposits inp)
         (gi_forced_transactions inp) (gi_proofs inp) = Ok (r, dh, fh)
       \<and> out = abi_encode_public_values E (public_values_of E inp r))"
  by (auto simp: guest_main_def public_values_of_def Let_def
      dest: execute_transition_hashes split: result.splits)

section \<open>Properties\<close>

text \<open>
C5. The values a proof commits to are true: whenever the guest commits bytes, decoding them
  gives back the pre-state root it was given and a post-state root that the block's operations
  lead to from the ledger under the pre-state root (no two strings hashed on the way
  colliding); and the commitments carry the first 28 bytes of the hashes of exactly the
  deposits and forced transactions the guest read, with their counts modulo \<open>2^32\<close>.
\<close>
theorem guest_commits_ledger_run:
  assumes "alloy E" and "guest_main E inp = Ok out"
    and "gi_pre_state_root inp = root_of E t"
    and "collision_free E (set (tree_inputs E t) \<union> set (transition_inputs E (gi_transactions inp)
      (gi_deposits inp) (gi_forced_transactions inp) (gi_proofs inp)))"
  shows "\<exists>t'. abi_decode_public_values E out = Some (public_values_of E inp (root_of E t'))
    \<and> ledger_run E t (gi_deposits inp) (gi_forced_transactions inp) (gi_transactions inp) t'"
proof -
  from assms(2) obtain r dh fh where
    run: "execute_with E (root_of E t) (gi_transactions inp) (gi_deposits inp)
        (gi_forced_transactions inp) (gi_proofs inp) = Ok (r, dh, fh)"
    and out: "out = abi_encode_public_values E (public_values_of E inp r)"
    by (auto simp: guest_main_Ok_iff assms(3))
  from execute_transition_ledger_run [OF run assms(4)] out show ?thesis
    using alloy.abi_encode_public_values [OF assms(1)] alloy.abi_decode_public_values [OF assms(1)]
    by auto
qed

definition sample_input :: guest_input where
  "sample_input = \<lparr>gi_pre_state_root = root_of ref_externs sample_tree,
     gi_transactions = [pay_bob], gi_deposits = [to_alice], gi_forced_transactions = [],
     gi_proofs = sample_bundle\<rparr>"

theorem guest_commits_ledger_run_witness:
  "\<exists>t'. abi_decode_public_values ref_externs
       (abi_encode_public_values ref_externs (public_values_of ref_externs sample_input
         (root_of ref_externs sample_paid)))
     = Some (public_values_of ref_externs sample_input (root_of ref_externs t'))
   \<and> ledger_run ref_externs sample_tree [to_alice] [] [pay_bob] t'"
proof -
  have "guest_main ref_externs sample_input
      = Ok (abi_encode_public_values ref_externs
          (public_values_of ref_externs sample_input (root_of ref_externs sample_paid)))"
    using sample_execution by (simp add: guest_main_Ok_iff sample_input_def)
  from guest_commits_ledger_run [OF ref.alloy_axioms this] sample_collision_free
  show ?thesis by (simp add: sample_input_def)
qed

text \<open>
  A transition that fails leaves nothing to prove: the guest commits bytes exactly when
  \<open>execute_transition\<close> returns a result, and panics on every error and every panic of it.
\<close>

lemma guest_main_aborts:
  "((\<exists>out. guest_main E inp = Ok out) \<longleftrightarrow>
     (\<exists>res. execute_with E (gi_pre_state_root inp) (gi_transactions inp) (gi_deposits inp)
        (gi_forced_transactions inp) (gi_proofs inp) = Ok res))
   \<and> ((\<exists>msg. guest_main E inp = Panic msg) \<longleftrightarrow> (\<nexists>out. guest_main E inp = Ok out))"
  by (auto simp: guest_main_def Let_def split: result.splits)

end
