(* ===== verification/Core_Tree.thy ===== *)
theory Core_Tree
  imports Guest
begin

text \<open>
  \<^verbatim>\<open>crates/core/src/error.rs\<close>, \<^verbatim>\<open>types.rs\<close>, \<^verbatim>\<open>utils.rs\<close> and the reading half
  of \<^verbatim>\<open>lib.rs\<close> (\<open>get_proof\<close>, \<open>get_account\<close>, \<open>build_stf_proof\<close>). The sparse
  Merkle tree is the \<open>monotree\<close> crate over RocksDB: its methods are the record \<open>tree_ops\<close>,
  over an unknown state \<open>'t\<close>.
\<close>

section \<open>Data\<close>

text \<open>
  Errors of the database are kept as the message they are rendered to; the debug rendering of
  the rollup's own errors and hashes is written out, as the derived \<open>Debug\<close> prints them.
\<close>

fun digits :: "nat \<Rightarrow> string" where
  "digits n = (if n < 10 then [char_of (48 + n)] else digits (n div 10) @ [char_of (48 + n mod 10)])"

declare digits.simps [simp del]

fun separated :: "string list \<Rightarrow> string" where
  "separated [] = []"
| "separated [x] = x"
| "separated (x # y # xs) = x @ '', '' @ separated (y # xs)"

definition debug_hash :: "hash \<Rightarrow> string" where
  "debug_hash h = ''['' @ separated (map (\<lambda>b. digits (unat b)) (hash_bytes h)) @ '']''"

text \<open>\<open>InvalidTransaction\<close> carries a message of printable characters without quotes.\<close>

fun debug_stf_error :: "stf_error \<Rightarrow> string" where
  "debug_stf_error InsufficientBalance = ''InsufficientBalance''"
| "debug_stf_error BalanceOverflow = ''BalanceOverflow''"
| "debug_stf_error MerkleProofVerificationFailed = ''MerkleProofVerificationFailed''"
| "debug_stf_error (InvalidNonce e g) =
     ''InvalidNonce { expected: '' @ digits (unat e) @ '', got: '' @ digits (unat g) @ '' }''"
| "debug_stf_error (InvalidTransaction msg) = ''InvalidTransaction('' @ [CHR 34] @ msg @ [CHR 34] @ '')''"

datatype core_error =
    DatabaseError string
  | AccountNotFound hash
  | AccountDataCorrupted hash
  | ProofNotFound hash
  | CoreStfError string

text \<open>The \<open>Display\<close> of an error, from its \<open>#[error]\<close> attribute.\<close>

fun core_error_message :: "core_error \<Rightarrow> string" where
  "core_error_message (DatabaseError s) = ''database error: '' @ s"
| "core_error_message (AccountNotFound h) = ''account not found: '' @ debug_hash h"
| "core_error_message (AccountDataCorrupted h) = ''account data corrupted: '' @ debug_hash h"
| "core_error_message (ProofNotFound h) = ''proof not found for key: '' @ debug_hash h"
| "core_error_message (CoreStfError s) = ''stf error: '' @ s"

record pending_block =
  block_number :: u64
  pb_txs :: "transaction list"
  pb_deposits :: "deposit list"
  pb_forced_txs :: "forced_tx list"
  pre_state_root :: hash
  post_state_root :: hash

definition address_to_hash :: "externs \<Rightarrow> address \<Rightarrow> hash" where
  "address_to_hash E addr = hash_of (replicate 12 0 @ address_as_slice E addr)"

section \<open>The tree\<close>

record 't tree_ops =
  mt_get :: "hash option \<Rightarrow> hash \<Rightarrow> ('t, hash option, string) action"
  mt_inserts :: "hash option \<Rightarrow> hash list \<Rightarrow> hash list \<Rightarrow> ('t, hash option, string) action"
  mt_get_merkle_proof ::
    "hash option \<Rightarrow> hash \<Rightarrow> ('t, (bool \<times> bytes) list option, string) action"
  mt_get_headroot :: "('t, hash option, string) action"
  mt_set_headroot :: "hash option \<Rightarrow> 't \<Rightarrow> 't"

definition get_proof ::
  "'t tree_ops \<Rightarrow> hash \<Rightarrow> hash \<Rightarrow> ('t, (bool \<times> bytes) list, core_error) action" where
  "get_proof T root key =
     (if root = hash_default then lift_m (Err (ProofNotFound key))
      else bind_m
        (map_err_m (\<lambda>e. DatabaseError (''get_proof get_merkle_proof err: '' @ e))
          (mt_get_merkle_proof T (Some root) key))
        (\<lambda>res. lift_m (ok_or (ProofNotFound key) res)))"

definition get_account ::
  "'t tree_ops \<Rightarrow> externs \<Rightarrow> hash option \<Rightarrow> hash \<Rightarrow> ('t, account, core_error) action" where
  "get_account T E root key =
     (if root = Some hash_default then lift_m (Err (AccountNotFound key))
      else bind_m
        (map_err_m (\<lambda>e. DatabaseError (''get_account get_leaf err: '' @ e)) (mt_get T root key))
        (\<lambda>res. bind_m (lift_m (ok_or (AccountNotFound key) res))
        (\<lambda>leaf. lift_m (ok_or (AccountDataCorrupted key) (bincode_account E (hash_bytes leaf))))))"

text \<open>\<open>bytes.try_into().expect("monotree sibling must be 32 bytes")\<close> over the proof.\<close>

fun convert_siblings :: "(bool \<times> bytes) list \<Rightarrow> ((bool \<times> hash) list, 'e) result" where
  "convert_siblings [] = Ok []"
| "convert_siblings ((is_right, bs) # rest) =
     (case try_into_hash bs of
        None \<Rightarrow> Panic ''monotree sibling must be 32 bytes''
      | Some h \<Rightarrow> bind_res (convert_siblings rest) (\<lambda>hs. Ok ((is_right, h) # hs)))"

definition build_stf_proof ::
  "'t tree_ops \<Rightarrow> externs \<Rightarrow> hash \<Rightarrow> hash \<Rightarrow> ('t, merkle_proof, core_error) action" where
  "build_stf_proof T E root key =
     bind_m
       (match_m (get_account T E (Some root) key) return_m
         (\<lambda>e. case e of AccountNotFound _ \<Rightarrow> return_m (account_new key) | _ \<Rightarrow> lift_m (Err e)))
       (\<lambda>acc. bind_m
         (match_m (get_proof T root key)
           (\<lambda>prf. lift_m (convert_siblings prf))
           (\<lambda>e. case e of ProofNotFound _ \<Rightarrow> return_m [] | _ \<Rightarrow> lift_m (Err e)))
         (\<lambda>siblings. return_m \<lparr>mp_account = acc, mp_siblings = siblings\<rparr>))"

section \<open>Reading\<close>

text \<open>
  What the rollup relies on when it reads: a read changes no later read. The tree is
  persistent, so this holds for every pair of roots.
\<close>

locale stable_reads =
  fixes T :: "'t tree_ops"
  assumes get_get: "fst (mt_get T r k (snd (mt_get T r' k' t))) = fst (mt_get T r k t)"

definition account_at ::
  "'t tree_ops \<Rightarrow> externs \<Rightarrow> hash option \<Rightarrow> 't \<Rightarrow> hash \<Rightarrow> (account, core_error) result" where
  "account_at T E root t key = fst (get_account T E root key t)"

lemma account_at_eq:
  "account_at T E root t key =
     (if root = Some hash_default then Err (AccountNotFound key)
      else bind_res (map_err (\<lambda>e. DatabaseError (''get_account get_leaf err: '' @ e))
        (fst (mt_get T root key t)))
        (\<lambda>res. bind_res (ok_or (AccountNotFound key) res)
        (\<lambda>leaf. ok_or (AccountDataCorrupted key) (bincode_account E (hash_bytes leaf)))))"
  by (cases "fst (mt_get T root key t)")
    (auto simp: account_at_def get_account_def bind_m_split ok_or_def split: option.splits)

lemma get_account_state:
  "snd (get_account T E root key t) = (if root = Some hash_default then t else snd (mt_get T root key t))"
  by (cases "fst (mt_get T root key t)")
    (auto simp: get_account_def bind_m_split ok_or_def split: option.splits)

lemma get_account_run:
  "get_account T E root key t = (account_at T E root t key, snd (get_account T E root key t))"
  by (simp add: account_at_def)

context stable_reads
begin

lemma account_at_stable:
  "account_at T E root (snd (get_account T E' root' key' t)) key = account_at T E root t key"
  by (simp add: account_at_eq get_account_state get_get)

end

lemma account_at_NotFound:
  "account_at T E root t key = Err (AccountNotFound k) \<Longrightarrow> k = key"
  by (auto simp: account_at_eq bind_res_def map_err_def ok_or_def
      split: if_splits result.splits option.splits)

lemma convert_siblings_Ok_iff:
  "convert_siblings raw = Ok hs \<longleftrightarrow> raw = map (\<lambda>(r, h). (r, hash_bytes h)) hs"
proof (induction raw arbitrary: hs)
  case (Cons x raw)
  obtain r bs where x: "x = (r, bs)" by (cases x)
  show ?case
  proof (cases "try_into_hash bs")
    case None
    then have "length bs \<noteq> 32" by (simp add: try_into_hash_None_iff)
    with None x show ?thesis by (cases hs) auto
  next
    case (Some h)
    then have "bs = hash_bytes h" by (auto simp: try_into_hash_def split: if_splits)
    with Some x Cons.IH show ?thesis by (cases hs) (auto simp: bind_res_Ok_iff)
  qed
qed auto

section \<open>The leaf format\<close>

text \<open>
  \<open>commit_block\<close> stores 32-byte account hashes, and \<open>get_account\<close> decodes the stored leaf as
  a 48-byte account.
\<close>

context bincode_fixint
begin

lemma account_at_not_Ok: "account_at T E root t key \<noteq> Ok a"
  by (auto simp: account_at_eq bind_res_Ok_iff bincode_account_short)

lemma account_at_leaf:
  assumes "root \<noteq> Some hash_default" and "fst (mt_get T root key t) = Ok (Some leaf)"
  shows "account_at T E root t key = Err (AccountDataCorrupted key)"
  using assms by (simp add: account_at_eq bincode_account_short)

end

section \<open>A reference tree\<close>

text \<open>
  A concrete store with the behaviour documented for the tree: every root ever returned keeps
  its key-to-leaf map. A tree of one leaf has this leaf as its root and an empty proof.
\<close>

record ref_store =
  rs_versions :: "(hash \<times> (hash \<times> hash) list) list"
  rs_head :: "hash option"

definition ref_empty :: ref_store where
  "ref_empty = \<lparr>rs_versions = [], rs_head = None\<rparr>"

definition ref_version :: "ref_store \<Rightarrow> hash option \<Rightarrow> (hash \<times> hash) list" where
  "ref_version s root = (case root of None \<Rightarrow> []
     | Some r \<Rightarrow> (case map_of (rs_versions s) r of None \<Rightarrow> [] | Some kvs \<Rightarrow> kvs))"

definition ref_root :: "(hash \<times> hash) list \<Rightarrow> hash" where
  "ref_root kvs = (case kvs of [(k, leaf)] \<Rightarrow> leaf
     | _ \<Rightarrow> fold_digest 3 (concat (map (\<lambda>(k, l). hash_bytes k @ hash_bytes l) kvs)))"

definition ref_tree :: "ref_store tree_ops" where
  "ref_tree =
     \<lparr>mt_get = (\<lambda>root k s. (Ok (map_of (ref_version s root) k), s)),
      mt_inserts = (\<lambda>root ks ls s.
        let kvs = fold (\<lambda>(k, l). AList.update k l) (zip ks ls) (ref_version s root); r = ref_root kvs
        in (Ok (Some r), s\<lparr>rs_versions := (r, kvs) # rs_versions s\<rparr>)),
      mt_get_merkle_proof = (\<lambda>root k s.
        (Ok (if map fst (ref_version s root) = [k] then Some [] else None), s)),
      mt_get_headroot = (\<lambda>s. (Ok (rs_head s), s)),
      mt_set_headroot = (\<lambda>r s. s\<lparr>rs_head := r\<rparr>)\<rparr>"

lemmas ref_tree_evals [evals] = ref_tree_def ref_empty_def ref_version_def ref_root_def

interpretation ref: stable_reads ref_tree
  by unfold_locales (simp add: ref_tree_def)

section \<open>Properties\<close>

text \<open>
  No account is ever read back: for every tree state, root and key, \<open>get_account\<close> does not
  return an account, because the 32-byte leaf that the tree stores is shorter than the 48
  bytes \<open>bincode\<close> needs for an \<open>Account\<close>; where the tree has a leaf the result is
  \<open>AccountDataCorrupted\<close>.
\<close>

lemma get_account_never_succeeds:
  assumes "bincode_fixint E"
  shows "(\<forall>a t'. get_account T E root key t \<noteq> (Ok a, t'))
    \<and> (root \<noteq> Some hash_default \<and> fst (mt_get T root key t) = Ok (Some leaf)
        \<longrightarrow> fst (get_account T E root key t) = Err (AccountDataCorrupted key))"
  using bincode_fixint.account_at_not_Ok [OF assms, of T root t key]
    bincode_fixint.account_at_leaf [OF assms, of root T key t leaf]
  by (metis account_at_def fst_conv)

text \<open>
  \<open>build_stf_proof\<close> returns an account and a sibling list only from the tree or for a new
  account: on success the account is what \<open>get_account\<close> returned or the fresh account of the
  key, and every sibling was 32 bytes long; a sibling of another length is a panic.
\<close>

lemma build_stf_proof_result:
  assumes "build_stf_proof T E root key t = (Ok p, t')"
  shows "(account_at T E (Some root) t key = Ok (mp_account p)
      \<or> account_at T E (Some root) t key = Err (AccountNotFound key) \<and> mp_account p = account_new key)
    \<and> (mp_siblings p = [] \<or> (\<exists>raw. fst (get_proof T root key (snd (get_account T E (Some root) key t))) = Ok raw
        \<and> raw = map (\<lambda>(r, h). (r, hash_bytes h)) (mp_siblings p)))"
  using assms
  by (auto simp: build_stf_proof_def bind_m_split match_m_split account_at_def convert_siblings_Ok_iff
      dest: account_at_NotFound [unfolded account_at_def]
      split: result.splits core_error.splits)

end
