(* ===== verification/Seq_Error.thy ===== *)
theory Seq_Error
  imports Core_Tree
begin

text \<open>
  The error type of \<^verbatim>\<open>crates/sequencer/src/main.rs\<close>: \<open>SequencerError\<close>, its conversions
  from the errors of the two crates below, its messages and its HTTP responses.
\<close>

section \<open>The code\<close>

datatype sequencer_error =
    SeqStf stf_error
  | MempoolEmpty
  | SeqAccountNotFound hash
  | SeqInsufficientBalance hash
  | SeqInvalidNonce hash u64 u64
  | L1SubmitFailed
  | StateLockPoisoned
  | SeqAccountDataCorrupted hash
  | SeqDatabaseError string

definition sequencer_error_of_stf :: "stf_error \<Rightarrow> sequencer_error" where
  "sequencer_error_of_stf err = SeqStf err"

fun sequencer_error_of_core :: "core_error \<Rightarrow> sequencer_error" where
  "sequencer_error_of_core (DatabaseError s) = SeqDatabaseError s"
| "sequencer_error_of_core (AccountNotFound h) = SeqAccountNotFound h"
| "sequencer_error_of_core (AccountDataCorrupted h) = SeqAccountDataCorrupted h"
| "sequencer_error_of_core (ProofNotFound h) = SeqDatabaseError (''proof not found for '' @ debug_hash h)"
| "sequencer_error_of_core (CoreStfError s) = SeqStf (InvalidTransaction s)"

fun error_message :: "sequencer_error \<Rightarrow> string" where
  "error_message (SeqStf e) = ''stf error: '' @ debug_stf_error e"
| "error_message MempoolEmpty = ''mempool empty err''"
| "error_message (SeqAccountNotFound h) = ''account not found: '' @ debug_hash h"
| "error_message (SeqInsufficientBalance h) = ''insufficient balance for account: '' @ debug_hash h"
| "error_message (SeqInvalidNonce h e g) = ''invalid nonce for account '' @ debug_hash h
     @ '': expected '' @ digits (unat e) @ '', got '' @ digits (unat g)"
| "error_message L1SubmitFailed = ''l1 submit transaction err''"
| "error_message StateLockPoisoned = ''state lock is poisoned''"
| "error_message (SeqAccountDataCorrupted h) = ''account data corrupted for key: '' @ debug_hash h"
| "error_message (SeqDatabaseError s) = ''database internal error: '' @ s"

text \<open>The status code and the value of the JSON body's field \<open>error\<close>.\<close>

definition into_response :: "sequencer_error \<Rightarrow> nat \<times> string" where
  "into_response err =
     (case err of
        MempoolEmpty \<Rightarrow> (400, error_message err)
      | SeqAccountNotFound _ \<Rightarrow> (404, error_message err)
      | SeqInsufficientBalance _ \<Rightarrow> (400, error_message err)
      | SeqInvalidNonce _ _ _ \<Rightarrow> (400, error_message err)
      | _ \<Rightarrow> (500, error_message err))"

section \<open>Which errors are the client's\<close>

lemma into_response_status: "fst (into_response e) \<in> {400, 404, 500}"
  by (cases e) (simp_all add: into_response_def)

text \<open>An error of the executor or of the proof generation is the server's, unless an account is missing.\<close>

lemma core_error_status:
  "fst (into_response (sequencer_error_of_core e)) = (case e of AccountNotFound _ \<Rightarrow> 404 | _ \<Rightarrow> 500)"
  by (cases e) (simp_all add: into_response_def)

end
