(* ===== verification/Core_Executor.thy ===== *)
theory Core_Executor
  imports Seq_Error
begin

text \<open>
  \<^verbatim>\<open>crates/core/src/executor.rs\<close>: the \<open>BlockExecutor\<close> that applies a block
  optimistically over a cache of accounts, with \<open>apply_optimistic_batch\<close> of
  \<^verbatim>\<open>crates/sequencer/src/main.rs\<close>, its only client. The executor is shown to refine a
  ledger, a map from identities to accounts.
\<close>

section \<open>The code\<close>

text \<open>
  The \<open>HashMap\<close> is an association list with distinct keys; the order in which it is iterated
  is unspecified and is an argument of \<open>commit_block\<close>.
\<close>

record 't executor =
  ex_tree :: 't
  ex_root :: "hash option"
  ex_cache :: "(hash \<times> account) list"

definition executor_new :: "'t \<Rightarrow> hash option \<Rightarrow> 't executor" where
  "executor_new tree root = \<lparr>ex_tree = tree, ex_root = root, ex_cache = []\<rparr>"

definition cache_insert :: "hash \<Rightarrow> account \<Rightarrow> 't executor \<Rightarrow> 't executor" where
  "cache_insert k a ex = ex\<lparr>ex_cache := AList.update k a (ex_cache ex)\<rparr>"

definition on_tree :: "('t, 'a, 'e) action \<Rightarrow> ('t executor, 'a, 'e) action" where
  "on_tree m ex = (case m (ex_tree ex) of (r, t) \<Rightarrow> (r, ex\<lparr>ex_tree := t\<rparr>))"

definition modify_m :: "('s \<Rightarrow> 's) \<Rightarrow> ('s, unit, 'e) action" where
  "modify_m f s = (Ok (), f s)"

definition get_account_helper ::
  "'t tree_ops \<Rightarrow> externs \<Rightarrow> hash \<Rightarrow> ('t executor, account, core_error) action" where
  "get_account_helper T E address ex =
     (case map_of (ex_cache ex) address of
        Some acc \<Rightarrow> (Ok acc, ex)
      | None \<Rightarrow> bind_m (on_tree (get_account T E (ex_root ex) address))
          (\<lambda>acc. bind_m (modify_m (cache_insert address acc)) (\<lambda>_. return_m acc)) ex)"

definition executor_apply_deposit ::
  "'t tree_ops \<Rightarrow> externs \<Rightarrow> deposit \<Rightarrow> ('t executor, unit, core_error) action" where
  "executor_apply_deposit T E dep =
     bind_m
       (match_m (get_account_helper T E (dep_to dep)) return_m
         (\<lambda>e. case e of AccountNotFound _ \<Rightarrow> return_m (account_new (dep_to dep)) | _ \<Rightarrow> lift_m (Err e)))
       (\<lambda>to_account. case apply_deposit to_account dep of
          Ok updated_account \<Rightarrow> modify_m (cache_insert (dep_to dep) updated_account)
        | Err BalanceOverflow \<Rightarrow> return_m ()
        | Err _ \<Rightarrow> lift_m (Panic ''apply_deposit can only return balance overflow'')
        | Panic msg \<Rightarrow> lift_m (Panic msg))"

definition update_cache_success ::
  "hash \<Rightarrow> account \<Rightarrow> hash \<Rightarrow> account \<Rightarrow> 't executor \<Rightarrow> 't executor" where
  "update_cache_success from_key from_account to_key to_account ex =
     (if from_key = to_key then cache_insert from_key to_account ex
      else cache_insert to_key to_account (cache_insert from_key from_account ex))"

text \<open>Every error of the state transition function is printed and skipped.\<close>

definition handle_stf_error :: "stf_error \<Rightarrow> hash \<Rightarrow> ('t executor, unit, core_error) action" where
  "handle_stf_error err src =
     (case err of
        InvalidNonce _ _ \<Rightarrow> return_m ()
      | BalanceOverflow \<Rightarrow> return_m ()
      | InsufficientBalance \<Rightarrow> return_m ()
      | MerkleProofVerificationFailed \<Rightarrow> return_m ()
      | InvalidTransaction _ \<Rightarrow> return_m ())"

definition executor_apply_forced_tx ::
  "'t tree_ops \<Rightarrow> externs \<Rightarrow> forced_tx \<Rightarrow> ('t executor, unit, core_error) action" where
  "executor_apply_forced_tx T E tx =
     (if ftx_from tx = hash_default then return_m ()
      else match_m (get_account_helper T E (ftx_from tx))
        (\<lambda>from_account. bind_m
          (match_m (get_account_helper T E (ftx_to tx)) return_m
            (\<lambda>_. return_m (account_new (ftx_to tx))))
          (\<lambda>to_account. case apply_forced_tx E from_account to_account tx of
             Ok (Success updated_from updated_to) \<Rightarrow>
               modify_m (update_cache_success (ftx_from tx) updated_from (ftx_to tx) updated_to)
           | Ok (Failure updated_from) \<Rightarrow> modify_m (cache_insert (ftx_from tx) updated_from)
           | Err e \<Rightarrow> handle_stf_error e (ftx_from tx)
           | Panic msg \<Rightarrow> lift_m (Panic msg)))
        (\<lambda>e. case e of AccountNotFound _ \<Rightarrow> return_m () | _ \<Rightarrow> lift_m (Err e)))"

definition executor_apply_transaction ::
  "'t tree_ops \<Rightarrow> externs \<Rightarrow> transaction \<Rightarrow> ('t executor, unit, core_error) action" where
  "executor_apply_transaction T E tx =
     match_m (get_account_helper T E (tx_from tx))
       (\<lambda>from_account. bind_m
         (match_m (get_account_helper T E (tx_to tx)) return_m
           (\<lambda>_. return_m (account_new (tx_to tx))))
         (\<lambda>to_account. case apply_transaction E from_account to_account tx of
            Ok (Success updated_from updated_to) \<Rightarrow>
              modify_m (update_cache_success (tx_from tx) updated_from (tx_to tx) updated_to)
          | Ok (Failure updated_from) \<Rightarrow> modify_m (cache_insert (tx_from tx) updated_from)
          | Err e \<Rightarrow> handle_stf_error e (tx_from tx)
          | Panic msg \<Rightarrow> lift_m (Panic msg)))
       (\<lambda>e. case e of AccountNotFound _ \<Rightarrow> return_m () | _ \<Rightarrow> lift_m (Err e))"

text \<open>\<open>commit_block\<close> consumes the executor and leaves the tree behind.\<close>

definition commit_block ::
  "'t tree_ops \<Rightarrow> externs \<Rightarrow> ((hash \<times> account) list \<Rightarrow> (hash \<times> account) list) \<Rightarrow> 't executor
     \<Rightarrow> (hash, core_error) result \<times> 't" where
  "commit_block T E iteration ex =
     (if ex_cache ex = []
      then (Ok (case ex_root ex of Some r \<Rightarrow> r | None \<Rightarrow> hash_default), ex_tree ex)
      else
        let entries = iteration (ex_cache ex);
            keys = map fst entries;
            leaves = map (\<lambda>(address, acc). account_hash E acc) entries
        in bind_m
             (map_err_m (\<lambda>e. DatabaseError (''commit_block inserts err: '' @ e))
               (mt_inserts T (ex_root ex) keys leaves))
             (\<lambda>res. lift_m (ok_or (DatabaseError ''commit_block inserts returned none err'') res))
             (ex_tree ex))"

definition apply_block ::
  "'t tree_ops \<Rightarrow> externs \<Rightarrow> transaction list \<Rightarrow> deposit list \<Rightarrow> forced_tx list
     \<Rightarrow> ('t executor, unit, core_error) action" where
  "apply_block T E txs deposits forced_txs =
     bind_m (for_each (executor_apply_deposit T E) deposits) (\<lambda>_.
     bind_m (for_each (executor_apply_forced_tx T E) forced_txs) (\<lambda>_.
     for_each (executor_apply_transaction T E) txs))"

definition apply_optimistic_batch ::
  "'t tree_ops \<Rightarrow> externs \<Rightarrow> ((hash \<times> account) list \<Rightarrow> (hash \<times> account) list) \<Rightarrow> hash option
     \<Rightarrow> transaction list \<Rightarrow> deposit list \<Rightarrow> forced_tx list \<Rightarrow> ('t, hash, sequencer_error) action" where
  "apply_optimistic_batch T E iteration root txs deposits forced_txs tree =
     (if txs = [] \<and> deposits = [] \<and> forced_txs = []
      then (Ok (case root of Some r \<Rightarrow> r | None \<Rightarrow> hash_default), tree)
      else case apply_block T E txs deposits forced_txs (executor_new tree root) of
        (Ok _, ex) \<Rightarrow>
          (case commit_block T E iteration ex of (r, tree') \<Rightarrow> (map_err sequencer_error_of_core r, tree'))
      | (Err e, ex) \<Rightarrow> (Err (sequencer_error_of_core e), ex_tree ex)
      | (Panic msg, ex) \<Rightarrow> (Panic msg, ex_tree ex))"

lemma executor_apply_forced_tx_as_transaction:
  "executor_apply_forced_tx T E f =
     (if ftx_from f = hash_default then return_m () else executor_apply_transaction T E (tx_of_forced f))"
  by (simp only: executor_apply_forced_tx_def executor_apply_transaction_def
      apply_forced_tx_as_transaction tx_of_forced_simps)

section \<open>The ledger\<close>

text \<open>
  The specification: identities mapped to accounts, and what a block's operations do to the
  map. A recipient without an account is created, a sender without one is skipped, and so is
  every operation that the state transition function rejects.
\<close>

type_synonym ledger = "hash \<Rightarrow> account option"

definition account_or_new :: "ledger \<Rightarrow> hash \<Rightarrow> account" where
  "account_or_new L k = (case L k of Some a \<Rightarrow> a | None \<Rightarrow> account_new k)"

definition spec_deposit :: "ledger \<Rightarrow> deposit \<Rightarrow> ledger" where
  "spec_deposit L d = (case apply_deposit (account_or_new L (dep_to d)) d of
     Ok a \<Rightarrow> L(dep_to d \<mapsto> a) | _ \<Rightarrow> L)"

definition spec_tx :: "externs \<Rightarrow> ledger \<Rightarrow> transaction \<Rightarrow> ledger" where
  "spec_tx E L tx = (case L (tx_from tx) of None \<Rightarrow> L
     | Some a \<Rightarrow> (case apply_transaction E a (account_or_new L (tx_to tx)) tx of
         Ok (Success a' b') \<Rightarrow>
           if tx_from tx = tx_to tx then L(tx_from tx \<mapsto> b') else L(tx_from tx \<mapsto> a', tx_to tx \<mapsto> b')
       | Ok (Failure a') \<Rightarrow> L(tx_from tx \<mapsto> a')
       | _ \<Rightarrow> L))"

definition spec_forced :: "externs \<Rightarrow> ledger \<Rightarrow> forced_tx \<Rightarrow> ledger" where
  "spec_forced E L f = (if ftx_from f = hash_default then L else spec_tx E L (tx_of_forced f))"

definition spec_block ::
  "externs \<Rightarrow> transaction list \<Rightarrow> deposit list \<Rightarrow> forced_tx list \<Rightarrow> ledger \<Rightarrow> ledger" where
  "spec_block E txs deposits forced_txs L =
     foldl (spec_tx E) (foldl (spec_forced E) (foldl spec_deposit L deposits) forced_txs) txs"

text \<open>What an executor reads for a key, and the ledger it stands for.\<close>

definition lookup :: "'t tree_ops \<Rightarrow> externs \<Rightarrow> 't executor \<Rightarrow> hash \<Rightarrow> (account, core_error) result" where
  "lookup T E ex k = (case map_of (ex_cache ex) k of
     Some a \<Rightarrow> Ok a | None \<Rightarrow> account_at T E (ex_root ex) (ex_tree ex) k)"

definition ledger_of :: "'t tree_ops \<Rightarrow> externs \<Rightarrow> 't executor \<Rightarrow> ledger" where
  "ledger_of T E ex k = (case lookup T E ex k of Ok a \<Rightarrow> Some a | _ \<Rightarrow> None)"

text \<open>Every read of these keys finds an account or finds none: no database error, no bad leaf.\<close>

definition readable :: "'t tree_ops \<Rightarrow> externs \<Rightarrow> 't executor \<Rightarrow> hash set \<Rightarrow> bool" where
  "readable T E ex K \<longleftrightarrow> (\<forall>k \<in> K. (\<exists>a. lookup T E ex k = Ok a)
     \<or> lookup T E ex k = Err (AccountNotFound k))"

text \<open>
  Two executors over the same stored tree: same root, same answers of the tree, and cache keys
  that stay distinct.
\<close>

definition over_same_tree :: "'t tree_ops \<Rightarrow> externs \<Rightarrow> 't executor \<Rightarrow> 't executor \<Rightarrow> bool" where
  "over_same_tree T E ex ex' \<longleftrightarrow> ex_root ex' = ex_root ex
     \<and> (\<forall>r k. fst (mt_get T r k (ex_tree ex')) = fst (mt_get T r k (ex_tree ex)))
     \<and> (distinct (map fst (ex_cache ex)) \<longrightarrow> distinct (map fst (ex_cache ex')))"

lemma over_same_tree_refl [simp]: "over_same_tree T E ex ex"
  by (simp add: over_same_tree_def)

lemma over_same_tree_trans:
  "over_same_tree T E ex ex' \<Longrightarrow> over_same_tree T E ex' ex'' \<Longrightarrow> over_same_tree T E ex ex''"
  by (simp add: over_same_tree_def)

lemma over_same_tree_insert: "over_same_tree T E ex (cache_insert k a ex)"
  by (simp add: over_same_tree_def cache_insert_def distinct_update)

lemma lookup_insert: "lookup T E (cache_insert k a ex) = (lookup T E ex)(k := Ok a)"
  by (auto simp: lookup_def cache_insert_def update_conv fun_eq_iff split: option.split)

lemma ledger_of_insert: "ledger_of T E (cache_insert k a ex) = (ledger_of T E ex)(k \<mapsto> a)"
  by (auto simp: ledger_of_def lookup_insert fun_eq_iff)

lemma readable_insert: "readable T E ex K \<Longrightarrow> readable T E (cache_insert k a ex) K"
  by (auto simp: readable_def lookup_insert)

lemma readable_account_or_new:
  assumes "readable T E ex {k}"
  obtains (found) a where "lookup T E ex k = Ok a" "ledger_of T E ex k = Some a"
      "account_or_new (ledger_of T E ex) k = a"
  | (fresh) "lookup T E ex k = Err (AccountNotFound k)" "ledger_of T E ex k = None"
      "account_or_new (ledger_of T E ex) k = account_new k"
  using assms by (auto simp: readable_def ledger_of_def account_or_new_def)

context stable_reads
begin

lemma on_tree_get_account:
  "on_tree (get_account T E (ex_root ex) k) ex
     = (account_at T E (ex_root ex) (ex_tree ex) k,
        ex\<lparr>ex_tree := snd (get_account T E (ex_root ex) k (ex_tree ex))\<rparr>)"
  by (simp add: on_tree_def account_at_def split: prod.split)

text \<open>A read answers \<open>lookup\<close> and changes no answer, whether it is cached or not.\<close>

lemma get_account_helper_run:
  obtains ex' where "get_account_helper T E k ex = (lookup T E ex k, ex')"
    and "lookup T E ex' = lookup T E ex" and "over_same_tree T E ex ex'"
proof (cases "map_of (ex_cache ex) k")
  case (Some a)
  then show thesis
    using that [of ex] by (simp add: get_account_helper_def lookup_def)
next
  case None
  let ?t = "snd (get_account T E (ex_root ex) k (ex_tree ex))"
  let ?ex = "ex\<lparr>ex_tree := ?t\<rparr>"
  have same: "over_same_tree T E ex ?ex"
    by (simp add: over_same_tree_def get_account_state get_get)
  have look: "lookup T E ?ex = lookup T E ex"
    by (simp add: lookup_def account_at_stable fun_eq_iff split: option.split)
  show thesis
  proof (cases "account_at T E (ex_root ex) (ex_tree ex) k")
    case (Ok a)
    have "get_account_helper T E k ex = (lookup T E ex k, cache_insert k a ?ex)"
      using None Ok by (simp add: get_account_helper_def bind_m_split on_tree_get_account
          modify_m_def lookup_def)
    moreover have "lookup T E (cache_insert k a ?ex) = lookup T E ex"
      using None Ok by (simp add: lookup_insert look) (simp add: lookup_def fun_eq_iff)
    moreover have "over_same_tree T E ex (cache_insert k a ?ex)"
      using same over_same_tree_insert by (rule over_same_tree_trans)
    ultimately show thesis by (rule that)
  next
    case (Err e)
    with None same look show thesis
      using that [of ?ex] by (simp add: get_account_helper_def bind_m_split on_tree_get_account lookup_def)
  next
    case (Panic m)
    with None same look show thesis
      using that [of ?ex] by (simp add: get_account_helper_def bind_m_split on_tree_get_account lookup_def)
  qed
qed

text \<open>
  \<open>refines\<close>: from a state that can read the keys \<open>K\<close>, the call returns \<open>Ok\<close>, and does to the
  ledger what \<open>f\<close> does; the keys stay readable and the tree beneath stays the same.
\<close>

definition refines ::
  "externs \<Rightarrow> hash set \<Rightarrow> ('t executor, unit, core_error) action \<Rightarrow> (ledger \<Rightarrow> ledger) \<Rightarrow> bool" where
  "refines E K m f \<longleftrightarrow> (\<forall>ex. readable T E ex K \<longrightarrow>
     (\<exists>ex'. m ex = (Ok (), ex') \<and> ledger_of T E ex' = f (ledger_of T E ex)
       \<and> readable T E ex' K \<and> over_same_tree T E ex ex'))"

lemma refinesI:
  assumes "\<And>ex. readable T E ex K \<Longrightarrow> \<exists>ex'. m ex = (Ok (), ex')
      \<and> ledger_of T E ex' = f (ledger_of T E ex) \<and> readable T E ex' K \<and> over_same_tree T E ex ex'"
  shows "refines E K m f"
  using assms by (simp add: refines_def)

lemma refines_return: "refines E K (return_m ()) (\<lambda>L. L)"
  by (rule refinesI) simp

lemma refines_bind:
  assumes "refines E K m f" and "refines E K n g"
  shows "refines E K (bind_m m (\<lambda>_. n)) (\<lambda>L. g (f L))"
proof (rule refinesI)
  fix ex assume "readable T E ex K"
  with assms(1) obtain ex1 where 1: "m ex = (Ok (), ex1)" "ledger_of T E ex1 = f (ledger_of T E ex)"
    "readable T E ex1 K" "over_same_tree T E ex ex1" by (auto simp: refines_def)
  with assms(2) obtain ex2 where 2: "n ex1 = (Ok (), ex2)"
    "ledger_of T E ex2 = g (ledger_of T E ex1)" "readable T E ex2 K" "over_same_tree T E ex1 ex2"
    by (auto simp: refines_def)
  from 1 2 show "\<exists>ex'. bind_m m (\<lambda>_. n) ex = (Ok (), ex')
      \<and> ledger_of T E ex' = g (f (ledger_of T E ex)) \<and> readable T E ex' K \<and> over_same_tree T E ex ex'"
    by (auto simp: bind_m_run intro: over_same_tree_trans)
qed

lemma refines_for_each:
  assumes "\<And>x. x \<in> set xs \<Longrightarrow> refines E K (body x) (\<lambda>L. f L x)"
  shows "refines E K (for_each body xs) (\<lambda>L. foldl f L xs)"
  using assms
proof (induction xs)
  case Nil
  show ?case using refines_return by (simp only: for_each.simps foldl_Nil)
next
  case (Cons x xs)
  from refines_bind [OF Cons.prems [of x] Cons.IH] Cons.prems show ?case by simp
qed

text \<open>Operations that, once the accounts are read, only insert into the cache.\<close>

lemma same_lookup:
  assumes "lookup T E ex' = lookup T E ex"
  shows "ledger_of T E ex' = ledger_of T E ex" and "readable T E ex' K = readable T E ex K"
  using assms by (simp_all add: ledger_of_def readable_def fun_eq_iff)

lemma executor_apply_deposit_refines:
  assumes "dep_to d \<in> K"
  shows "refines E K (executor_apply_deposit T E d) (\<lambda>L. spec_deposit L d)"
proof (rule refinesI)
  fix ex assume rd: "readable T E ex K"
  obtain ex1 where h: "get_account_helper T E (dep_to d) ex = (lookup T E ex (dep_to d), ex1)"
    and look: "lookup T E ex1 = lookup T E ex" and same: "over_same_tree T E ex ex1"
    by (rule get_account_helper_run)
  let ?L = "ledger_of T E ex" and ?a = "account_or_new (ledger_of T E ex) (dep_to d)"
  have "readable T E ex {dep_to d}" using rd assms by (simp add: readable_def)
  then have run: "executor_apply_deposit T E d ex =
      (case apply_deposit ?a d of Ok a \<Rightarrow> (Ok (), cache_insert (dep_to d) a ex1) | _ \<Rightarrow> (Ok (), ex1))"
    by (cases rule: readable_account_or_new; cases ?a d rule: apply_deposit_cases)
      (simp_all add: executor_apply_deposit_def bind_m_split match_m_split h modify_m_def)
  note same_lookup [OF look]
  then show "\<exists>ex'. executor_apply_deposit T E d ex = (Ok (), ex')
      \<and> ledger_of T E ex' = spec_deposit ?L d \<and> readable T E ex' K \<and> over_same_tree T E ex ex'"
    using rd same over_same_tree_trans [OF same over_same_tree_insert]
    by (cases ?a d rule: apply_deposit_cases)
      (simp_all add: run spec_deposit_def ledger_of_insert readable_insert)
qed

lemma executor_apply_transaction_refines:
  assumes "tx_from tx \<in> K" and "tx_to tx \<in> K" and "\<not> overflow_checks E"
  shows "refines E K (executor_apply_transaction T E tx) (\<lambda>L. spec_tx E L tx)"
proof (rule refinesI)
  fix ex assume rd: "readable T E ex K"
  let ?L = "ledger_of T E ex" and ?b = "account_or_new (ledger_of T E ex) (tx_to tx)"
  obtain ex1 where h1: "get_account_helper T E (tx_from tx) ex = (lookup T E ex (tx_from tx), ex1)"
    and look1: "lookup T E ex1 = lookup T E ex" and same1: "over_same_tree T E ex ex1"
    by (rule get_account_helper_run)
  obtain ex2 where h2: "get_account_helper T E (tx_to tx) ex1 = (lookup T E ex (tx_to tx), ex2)"
    and look2: "lookup T E ex2 = lookup T E ex" and same2: "over_same_tree T E ex ex2"
    using get_account_helper_run [of E "tx_to tx" ex1] look1 same1 over_same_tree_trans by metis
  note ins = over_same_tree_trans [OF same2 over_same_tree_insert]
    over_same_tree_trans [OF over_same_tree_trans [OF same2 over_same_tree_insert] over_same_tree_insert]
  have "readable T E ex {tx_from tx}" and rdto: "readable T E ex {tx_to tx}"
    using rd assms by (simp_all add: readable_def)
  then show "\<exists>ex'. executor_apply_transaction T E tx ex = (Ok (), ex')
      \<and> ledger_of T E ex' = spec_tx E ?L tx \<and> readable T E ex' K \<and> over_same_tree T E ex ex'"
  proof (cases rule: readable_account_or_new)
    case fresh
    then show ?thesis
      using rd same1 same_lookup [OF look1]
      by (simp add: executor_apply_transaction_def match_m_split h1 spec_tx_def)
  next
    case (found a)
    from rdto have run: "executor_apply_transaction T E tx ex =
        (case apply_transaction E a ?b tx of
           Ok (Success a' b') \<Rightarrow> (Ok (), update_cache_success (tx_from tx) a' (tx_to tx) b' ex2)
         | Ok (Failure a') \<Rightarrow> (Ok (), cache_insert (tx_from tx) a' ex2)
         | Err e \<Rightarrow> (Ok (), ex2)
         | Panic msg \<Rightarrow> (Panic msg, ex2))"
      by (cases rule: readable_account_or_new)
        (auto simp: executor_apply_transaction_def match_m_split bind_m_split h1 h2 found modify_m_def
          handle_stf_error_def split: result.split transaction_result.split stf_error.split)
    show ?thesis
      using rd same2 ins same_lookup [OF look2] apply_transaction_no_panic [OF assms(3), of a ?b tx] found(2)
      by (auto simp: run spec_tx_def update_cache_success_def ledger_of_insert readable_insert
          split: result.split transaction_result.split)
  qed
qed

lemma executor_apply_forced_tx_refines:
  assumes "ftx_from f \<in> K" and "ftx_to f \<in> K" and "\<not> overflow_checks E"
  shows "refines E K (executor_apply_forced_tx T E f) (\<lambda>L. spec_forced E L f)"
  using executor_apply_transaction_refines [of "tx_of_forced f" K E] assms refines_return
  by (simp add: executor_apply_forced_tx_as_transaction spec_forced_def)

lemma apply_block_refines:
  assumes "dep_to ` set deposits \<subseteq> K"
    and "ftx_from ` set forced_txs \<subseteq> K" and "ftx_to ` set forced_txs \<subseteq> K"
    and "tx_from ` set txs \<subseteq> K" and "tx_to ` set txs \<subseteq> K" and "\<not> overflow_checks E"
  shows "refines E K (apply_block T E txs deposits forced_txs) (spec_block E txs deposits forced_txs)"
  unfolding apply_block_def spec_block_def [abs_def]
  by (intro refines_bind refines_for_each executor_apply_deposit_refines
      executor_apply_forced_tx_refines executor_apply_transaction_refines)
    (use assms in auto)

end

section \<open>Committing a block\<close>

text \<open>
  What the rollup relies on when it commits: under the root that a batch insert returns, the
  inserted keys have the inserted leaves and all others what they had under the old root.
\<close>

locale tree_store = stable_reads T for T :: "'t tree_ops" +
  assumes inserts_get:
    "mt_inserts T r ks ls t = (Ok (Some r'), t') \<Longrightarrow> distinct ks \<Longrightarrow> length ls = length ks \<Longrightarrow>
     fst (mt_get T (Some r') k t') =
       (case map_of (zip ks ls) k of Some l \<Rightarrow> Ok (Some l) | None \<Rightarrow> fst (mt_get T r k t))"

lemma map_of_rev_distinct: "distinct (map fst xs) \<Longrightarrow> map_of (rev xs) = map_of xs"
  by (rule map_of_eqI) (auto simp: rev_map [symmetric] map_of_eq_Some_iff dest: map_of_SomeD)

lemma map_of_zip_leaves:
  assumes "distinct (map fst cache)" and "mset entries = mset cache"
  shows "map_of (zip (map fst entries) (map (\<lambda>(k, a). h a) entries)) k = map_option h (map_of cache k)"
proof -
  have d: "distinct (map fst entries)"
    using assms by (metis mset_eq_imp_distinct_iff mset_map)
  have "set entries = set cache"
    using assms(2) by (rule mset_eq_setD)
  then have "map_of entries k = map_of cache k"
    using assms(1) d by (metis map_of_eq_Some_iff option.exhaust)
  moreover have "zip (map fst entries) (map (\<lambda>(k, a). h a) entries) = map (\<lambda>(k, a). (k, h a)) entries"
    by (induction entries) auto
  ultimately show ?thesis by (simp add: map_of_map)
qed

context tree_store
begin

lemma commit_block_leaf:
  assumes "commit_block T E iteration ex = (Ok r', t')"
    and "distinct (map fst (ex_cache ex))" and "mset (iteration (ex_cache ex)) = mset (ex_cache ex)"
    and "map_of (ex_cache ex) k = Some a"
  shows "fst (mt_get T (Some r') k t') = Ok (Some (account_hash E a))"
proof -
  let ?es = "iteration (ex_cache ex)"
  from assms(1,4) have "mt_inserts T (ex_root ex) (map fst ?es) (map (\<lambda>(k, a). account_hash E a) ?es)
      (ex_tree ex) = (Ok (Some r'), t')"
    by (auto simp: commit_block_def Let_def bind_m_split ok_or_def prod_eq_iff
        split: if_splits result.splits option.splits)
  moreover have "distinct (map fst ?es)"
    using assms(2,3) by (metis mset_eq_imp_distinct_iff mset_map)
  moreover have "map_of (zip (map fst ?es) (map (\<lambda>(k, a). account_hash E a) ?es)) k
      = Some (account_hash E a)"
    using map_of_zip_leaves [OF assms(2,3), of "account_hash E" k] assms(4) by simp
  ultimately show ?thesis by (subst inserts_get) (assumption | simp)+
qed

lemma batch_commits_ledger:
  assumes "apply_optimistic_batch T E iteration root txs deposits forced_txs t = (Ok r', t')"
    and "\<not> overflow_checks E" and "\<And>xs. mset (iteration xs) = mset xs"
    and "readable T E (executor_new t root) K"
    and "dep_to ` set deposits \<subseteq> K"
    and "ftx_from ` set forced_txs \<subseteq> K" and "ftx_to ` set forced_txs \<subseteq> K"
    and "tx_from ` set txs \<subseteq> K" and "tx_to ` set txs \<subseteq> K"
    and "spec_block E txs deposits forced_txs (ledger_of T E (executor_new t root)) k = Some a"
    and "ledger_of T E (executor_new t root) k \<noteq> Some a"
  shows "fst (mt_get T (Some r') k t') = Ok (Some (account_hash E a))"
proof -
  let ?ex = "executor_new t root"
  have "txs \<noteq> [] \<or> deposits \<noteq> [] \<or> forced_txs \<noteq> []"
    using assms(10,11) by (auto simp: spec_block_def)
  moreover from apply_block_refines [OF assms(5-9,2)] assms(4) obtain ex'
    where run: "apply_block T E txs deposits forced_txs ?ex = (Ok (), ex')"
      and L: "ledger_of T E ex' = spec_block E txs deposits forced_txs (ledger_of T E ?ex)"
      and same: "over_same_tree T E ?ex ex'"
    by (auto simp: refines_def)
  ultimately have commit: "commit_block T E iteration ex' = (Ok r', t')"
    using assms(1) by (auto simp: apply_optimistic_batch_def split: prod.splits)
  have d: "distinct (map fst (ex_cache ex'))"
    using same by (simp add: over_same_tree_def executor_new_def)
  have "map_of (ex_cache ex') k = Some a"
  proof (cases "map_of (ex_cache ex') k")
    case None
    have "account_at T E (ex_root ex') (ex_tree ex') k = account_at T E (ex_root ?ex) (ex_tree ?ex) k"
      using same by (simp add: over_same_tree_def account_at_eq)
    with None have "ledger_of T E ex' k = ledger_of T E ?ex k"
      by (simp add: ledger_of_def lookup_def executor_new_def)
    with L assms(10,11) show ?thesis by simp
  next
    case (Some c)
    then have "ledger_of T E ex' k = Some c" by (simp add: ledger_of_def lookup_def)
    with L assms(10) Some show ?thesis by simp
  qed
  with commit d assms(3) show ?thesis by (rule commit_block_leaf)
qed

end

interpretation ref: tree_store ref_tree
proof unfold_locales
  fix r ks ls t r' t' and k :: hash
  assume ins: "mt_inserts ref_tree r ks ls t = (Ok (Some r'), t')" and "distinct ks" "length ls = length ks"
  have upd: "map_of (fold (\<lambda>(k, l). AList.update k l) kvs base) k
      = (case map_of (rev kvs) k of Some l \<Rightarrow> Some l | None \<Rightarrow> map_of base k)" for kvs base
    by (induction kvs arbitrary: base) (auto simp: update_conv map_add_def split: option.split)
  have "map_of (rev (zip ks ls)) = map_of (zip ks ls)"
    using \<open>distinct ks\<close> \<open>length ls = length ks\<close> by (simp add: map_of_rev_distinct)
  with ins show "fst (mt_get ref_tree (Some r') k t') =
      (case map_of (zip ks ls) k of Some l \<Rightarrow> Ok (Some l) | None \<Rightarrow> fst (mt_get ref_tree r k t))"
    by (auto simp: ref_tree_def ref_version_def Let_def upd split: option.split)
qed

section \<open>Value on the ledger\<close>

definition worth :: "account option \<Rightarrow> nat" where
  "worth v = (case v of Some a \<Rightarrow> unat (acc_balance a) | None \<Rightarrow> 0)"

definition ledger_total :: "hash set \<Rightarrow> ledger \<Rightarrow> nat" where
  "ledger_total K L = (\<Sum>k\<in>K. worth (L k))"

lemma worth_simps [simp]: "worth None = 0" "worth (Some a) = unat (acc_balance a)"
  by (simp_all add: worth_def)

lemma worth_account_or_new [simp]: "unat (acc_balance (account_or_new L k)) = worth (L k)"
  by (simp add: account_or_new_def account_new_def split: option.split)

lemma ledger_total_upd:
  assumes "finite K" and "k \<in> K"
  shows "ledger_total K (L(k \<mapsto> a)) + worth (L k) = ledger_total K L + unat (acc_balance a)"
proof -
  have "(\<Sum>j\<in>K - {k}. worth ((L(k \<mapsto> a)) j)) = (\<Sum>j\<in>K - {k}. worth (L j))"
    by (rule sum.cong) auto
  then show ?thesis
    using assms by (simp add: ledger_total_def sum.remove [of K k])
qed

lemma spec_deposit_total:
  assumes "finite K" and "dep_to d \<in> K"
  shows "ledger_total K (spec_deposit L d) \<le> ledger_total K L + unat (dep_amount d)"
proof (cases "account_or_new L (dep_to d)" d rule: apply_deposit_cases)
  case (credited a)
  then have "unat (acc_balance a) = worth (L (dep_to d)) + unat (dep_amount d)"
    by (auto simp: apply_deposit_Ok_iff)
  with credited ledger_total_upd [OF assms, of L a] show ?thesis
    by (simp add: spec_deposit_def)
qed (simp add: spec_deposit_def)

lemma spec_tx_total:
  assumes "finite K" and "tx_from tx \<in> K" and "tx_to tx \<in> K" and "tx_from tx \<noteq> tx_to tx"
  shows "ledger_total K (spec_tx E L tx) \<le> ledger_total K L"
proof (cases "L (tx_from tx)")
  case (Some a)
  let ?b = "account_or_new L (tx_to tx)" and ?L = "\<lambda>a'. L(tx_from tx \<mapsto> a')"
  have from_eq: "ledger_total K (?L a') + unat (acc_balance a) = ledger_total K L + unat (acc_balance a')" for a'
    using ledger_total_upd [OF assms(1,2), of L a'] Some by simp
  have to_eq: "ledger_total K ((?L a')(tx_to tx \<mapsto> b')) + worth (L (tx_to tx))
      = ledger_total K (?L a') + unat (acc_balance b')" for a' b'
    using ledger_total_upd [OF assms(1,3), of "?L a'" b'] assms(4) by simp
  show ?thesis
  proof (cases "apply_transaction E a ?b tx")
    case (Ok res)
    show ?thesis
    proof (cases res)
      case (Success a' b')
      with Ok have "unat (acc_balance a') + unat (acc_balance b') \<le> unat (acc_balance a) + worth (L (tx_to tx))"
        by (auto simp: apply_transaction_Success_iff)
      then show ?thesis
        using from_eq [of a'] to_eq [of a' b'] Some Ok Success assms(4) by (simp add: spec_tx_def)
    next
      case (Failure a')
      with Ok have "unat (acc_balance a') \<le> unat (acc_balance a)"
        by (auto simp: apply_transaction_Failure_iff)
      then show ?thesis
        using from_eq [of a'] Some Ok Failure by (simp add: spec_tx_def)
    qed
  qed (simp_all add: spec_tx_def Some)
qed (simp add: spec_tx_def)

lemma foldl_total:
  assumes "\<And>L x. x \<in> set xs \<Longrightarrow> ledger_total K (f L x) \<le> ledger_total K L + v x"
  shows "ledger_total K (foldl f L xs) \<le> ledger_total K L + sum_list (map v xs)"
  using assms
proof (induction xs arbitrary: L)
  case (Cons x xs)
  from Cons.IH [of "f L x"] Cons.prems have
    "ledger_total K (foldl f (f L x) xs) \<le> ledger_total K (f L x) + sum_list (map v xs)" by simp
  with Cons.prems [of x L] show ?case by simp
qed simp

lemma spec_block_total:
  assumes "finite K" and "dep_to ` set deposits \<subseteq> K"
    and "ftx_from ` set forced_txs \<subseteq> K" and "ftx_to ` set forced_txs \<subseteq> K"
    and "tx_from ` set txs \<subseteq> K" and "tx_to ` set txs \<subseteq> K"
    and "\<forall>tx \<in> set txs. tx_from tx \<noteq> tx_to tx" and "\<forall>f \<in> set forced_txs. ftx_from f \<noteq> ftx_to f"
  shows "ledger_total K (spec_block E txs deposits forced_txs L)
    \<le> ledger_total K L + sum_list (map (\<lambda>d. unat (dep_amount d)) deposits)"
proof -
  have d: "ledger_total K (foldl spec_deposit L deposits)
      \<le> ledger_total K L + sum_list (map (\<lambda>d. unat (dep_amount d)) deposits)"
    using assms(1,2) by (intro foldl_total spec_deposit_total) auto
  have f: "ledger_total K (foldl (spec_forced E) M forced_txs) \<le> ledger_total K M" for M
    using foldl_total [of forced_txs K "spec_forced E" "\<lambda>_. 0" M] assms spec_tx_total [of K "tx_of_forced _" E]
    by (simp add: spec_forced_def image_subset_iff)
  have t: "ledger_total K (foldl (spec_tx E) M txs) \<le> ledger_total K M" for M
    using foldl_total [of txs K "spec_tx E" "\<lambda>_. 0" M] assms spec_tx_total [of K _ E]
    by (simp add: image_subset_iff)
  show ?thesis
    unfolding spec_block_def using d f t by (meson order_trans)
qed

section \<open>Properties\<close>

text \<open>The keys a block touches.\<close>

definition block_keys :: "transaction list \<Rightarrow> deposit list \<Rightarrow> forced_tx list \<Rightarrow> hash set" where
  "block_keys txs deposits forced_txs = dep_to ` set deposits
     \<union> ftx_from ` set forced_txs \<union> ftx_to ` set forced_txs \<union> tx_from ` set txs \<union> tx_to ` set txs"

lemma block_keys_subset:
  "dep_to ` set deposits \<subseteq> block_keys txs deposits forced_txs"
  "ftx_from ` set forced_txs \<subseteq> block_keys txs deposits forced_txs"
  "ftx_to ` set forced_txs \<subseteq> block_keys txs deposits forced_txs"
  "tx_from ` set txs \<subseteq> block_keys txs deposits forced_txs"
  "tx_to ` set txs \<subseteq> block_keys txs deposits forced_txs"
  by (auto simp: block_keys_def)

lemma block_keys_finite [simp]: "finite (block_keys txs deposits forced_txs)"
  by (simp add: block_keys_def)

text \<open>
C4. The optimistic executor implements the ledger: when every key of the block can be read, the
  batch is applied without an error and turns the ledger into the one the specification
  gives; and when the batch returns a root, the tree has under it, for every account the
  block changed, the hash of that account, whatever the iteration order of the cache.
\<close>
theorem optimistic_batch_refines_ledger:
  assumes "tree_store T" and "\<not> overflow_checks E" and "\<forall>xs. mset (iteration xs) = mset xs"
    and "readable T E (executor_new t root) (block_keys txs deposits forced_txs)"
  shows "(\<exists>ex'. apply_block T E txs deposits forced_txs (executor_new t root) = (Ok (), ex')
        \<and> ledger_of T E ex' = spec_block E txs deposits forced_txs (ledger_of T E (executor_new t root)))
    \<and> (\<forall>r' t' k a. apply_optimistic_batch T E iteration root txs deposits forced_txs t = (Ok r', t')
        \<and> spec_block E txs deposits forced_txs (ledger_of T E (executor_new t root)) k = Some a
        \<and> ledger_of T E (executor_new t root) k \<noteq> Some a
        \<longrightarrow> fst (mt_get T (Some r') k t') = Ok (Some (account_hash E a)))"
proof -
  let ?K = "block_keys txs deposits forced_txs"
  have sr: "stable_reads T" using assms(1) by (simp add: tree_store_def)
  have perm: "\<And>xs. mset (iteration xs) = mset xs" using assms(3) by blast
  note keys = block_keys_subset [where deposits = deposits and txs = txs and forced_txs = forced_txs]
  have "stable_reads.refines T E ?K
      (apply_block T E txs deposits forced_txs) (spec_block E txs deposits forced_txs)"
    by (rule stable_reads.apply_block_refines [OF sr keys assms(2)])
  moreover note tree_store.batch_commits_ledger [OF assms(1) _ assms(2) perm assms(4) keys]
  ultimately show ?thesis
    using assms(4) unfolding stable_reads.refines_def [OF sr] by blast
qed

theorem optimistic_batch_refines_ledger_witness:
  "(\<exists>ex'. apply_block ref_tree ref_externs [] [to_alice] [] (executor_new ref_empty None) = (Ok (), ex')
     \<and> ledger_of ref_tree ref_externs ex' (hash_of [1]) = Some (account_new (hash_of [1]) \<lparr>acc_balance := 7\<rparr>))"
proof -
  have "readable ref_tree ref_externs (executor_new ref_empty None) (block_keys [] [to_alice] [])"
    by (auto simp: readable_def lookup_def executor_new_def account_at_eq evals)
  moreover have "\<not> overflow_checks ref_externs" by (simp add: ref_externs_def)
  ultimately obtain ex' where
    "apply_block ref_tree ref_externs [] [to_alice] [] (executor_new ref_empty None) = (Ok (), ex')"
    "ledger_of ref_tree ref_externs ex'
       = spec_block ref_externs [] [to_alice] [] (ledger_of ref_tree ref_externs (executor_new ref_empty None))"
    using optimistic_batch_refines_ledger [OF ref.tree_store_axioms, of ref_externs "\<lambda>xs. xs"]
    by metis
  moreover have "ledger_of ref_tree ref_externs (executor_new ref_empty None) (hash_of [1]) = None"
    by (simp add: ledger_of_def lookup_def executor_new_def account_at_eq evals)
  ultimately show ?thesis
    by (auto simp: spec_block_def spec_deposit_def account_or_new_def to_alice_def apply_deposit_def
        checked_add_def)
qed

text \<open>
C26. The optimistic executor creates no value: for a block without self-transfers whose keys can
  be read, the balances of the block's keys after it add up to at most the balances before
  plus the deposited amounts.
\<close>
theorem optimistic_batch_no_inflation:
  assumes "stable_reads T" and "\<not> overflow_checks E"
    and "readable T E (executor_new t root) (block_keys txs deposits forced_txs)"
    and "\<forall>tx \<in> set txs. tx_from tx \<noteq> tx_to tx" and "\<forall>f \<in> set forced_txs. ftx_from f \<noteq> ftx_to f"
  shows "\<exists>ex'. apply_block T E txs deposits forced_txs (executor_new t root) = (Ok (), ex')
    \<and> ledger_total (block_keys txs deposits forced_txs) (ledger_of T E ex')
      \<le> ledger_total (block_keys txs deposits forced_txs) (ledger_of T E (executor_new t root))
        + sum_list (map (\<lambda>d. unat (dep_amount d)) deposits)"
proof -
  note keys = block_keys_subset [where deposits = deposits and txs = txs and forced_txs = forced_txs]
  from stable_reads.apply_block_refines [OF assms(1) keys assms(2)] assms(3)
  obtain ex' where "apply_block T E txs deposits forced_txs (executor_new t root) = (Ok (), ex')"
    "ledger_of T E ex' = spec_block E txs deposits forced_txs (ledger_of T E (executor_new t root))"
    unfolding stable_reads.refines_def [OF assms(1)] by blast
  with spec_block_total [OF block_keys_finite keys assms(4,5)] show ?thesis by auto
qed

theorem optimistic_batch_no_inflation_witness:
  "\<exists>ex'. apply_block ref_tree ref_externs [pay_bob] [to_alice] [] (executor_new ref_empty None) = (Ok (), ex')
    \<and> ledger_total {hash_of [1], hash_of [2]} (ledger_of ref_tree ref_externs ex') \<le> 7"
proof -
  have keys: "block_keys [pay_bob] [to_alice] [] = {hash_of [1], hash_of [2]}"
    by (auto simp: block_keys_def sample_evals)
  have none: "lookup ref_tree ref_externs (executor_new ref_empty None) k = Err (AccountNotFound k)" for k
    by (simp add: lookup_def executor_new_def account_at_eq evals)
  have "\<exists>ex'. apply_block ref_tree ref_externs [pay_bob] [to_alice] [] (executor_new ref_empty None) = (Ok (), ex')
    \<and> ledger_total {hash_of [1], hash_of [2]} (ledger_of ref_tree ref_externs ex')
      \<le> ledger_total {hash_of [1], hash_of [2]} (ledger_of ref_tree ref_externs (executor_new ref_empty None))
        + sum_list (map (\<lambda>d. unat (dep_amount d)) [to_alice])"
    unfolding keys [symmetric]
    by (rule optimistic_batch_no_inflation [OF ref.stable_reads_axioms])
      (simp_all add: readable_def none, simp_all add: evals)
  then show ?thesis
    by (simp add: ledger_total_def ledger_of_def none to_alice_def)
qed

text \<open>
C28. A transfer from an account to itself is minted by the optimistic executor: the cached
  account ends with its balance increased by the amount, no fee taken and its nonce
  unchanged, so that the same transaction can be applied again.
\<close>
theorem executor_self_transfer_mints:
  assumes "stable_reads T" and "\<not> overflow_checks E" and "lookup T E ex k = Ok a"
    and "tx_from tx = k" and "tx_to tx = k" and "acc_nonce a = tx_nonce tx"
    and "unat (tx_amount tx) + unat (tx_fee tx) \<le> unat (acc_balance a)"
    and "unat (acc_balance a) + unat (tx_amount tx) < 2 ^ 64"
  shows "\<exists>ex'. executor_apply_transaction T E tx ex = (Ok (), ex')
    \<and> ledger_of T E ex' k = Some (a\<lparr>acc_balance := acc_balance a + tx_amount tx\<rparr>)"
proof -
  let ?d = "tx_amount tx + tx_fee tx"
  let ?a = "a\<lparr>acc_nonce := acc_nonce a + 1, acc_balance := acc_balance a - ?d\<rparr>"
  let ?b = "a\<lparr>acc_balance := acc_balance a + tx_amount tx\<rparr>"
  have d: "unat ?d = unat (tx_amount tx) + unat (tx_fee tx)"
    using assms(7) unat_u64_less [of "acc_balance a"] by (simp add: unat_word_ariths)
  then have "unat (acc_balance a - ?d) = unat (acc_balance a) - unat ?d"
    using assms(7) by (simp add: unat_sub_le word_le_nat_alt)
  then have "apply_transaction E a a tx = Ok (Success ?a ?b)"
    unfolding apply_transaction_Success_iff using assms(2,6-8) d
    by (simp add: nonce_ok_def unat_word_ariths)
  moreover have L: "ledger_of T E ex k = Some a"
    using assms(3) by (simp add: ledger_of_def)
  ultimately have "spec_tx E (ledger_of T E ex) tx k = Some ?b"
    using assms(4,5) by (simp add: spec_tx_def account_or_new_def)
  moreover have "readable T E ex {k}"
    using assms(3) by (simp add: readable_def)
  ultimately show ?thesis
    using stable_reads.executor_apply_transaction_refines [OF assms(1), of tx "{k}" E] assms(2,4,5)
    by (fastforce simp: stable_reads.refines_def [OF assms(1)])
qed

theorem executor_self_transfer_mints_witness:
  "\<exists>ex'. executor_apply_transaction ref_tree ref_externs (pay_bob\<lparr>tx_to := hash_of [1]\<rparr>)
      (cache_insert (hash_of [1]) alice (executor_new ref_empty None)) = (Ok (), ex')
    \<and> ledger_of ref_tree ref_externs ex' (hash_of [1]) = Some (alice\<lparr>acc_balance := 110\<rparr>)"
  using executor_self_transfer_mints [OF ref.stable_reads_axioms, of ref_externs
      "cache_insert (hash_of [1]) alice (executor_new ref_empty None)" "hash_of [1]" alice
      "pay_bob\<lparr>tx_to := hash_of [1]\<rparr>"]
  by (simp add: lookup_insert ref_externs_def pay_bob_def alice_def)

text \<open>
C29. The optimistic executor cannot touch an account twice across blocks: once a block with a
  deposit to a new account has been committed under a root other than the zero one, every
  later block on that root whose first deposit goes to the same account fails with
  \<open>AccountDataCorrupted\<close>.
\<close>
theorem second_deposit_fails:
  assumes "tree_store T" and "bincode_fixint E" and "\<not> overflow_checks E"
    and "\<forall>xs. mset (iteration xs) = mset xs"
    and "account_at T E root t (dep_to d) = Err (AccountNotFound (dep_to d))"
    and "apply_optimistic_batch T E iteration root [] [d] [] t = (Ok r', t')"
    and "r' \<noteq> hash_default" and "dep_to d' = dep_to d"
  shows "fst (apply_optimistic_batch T E iteration (Some r') txs (d' # ds) forced_txs t')
    = Err (SeqAccountDataCorrupted (dep_to d))"
proof -
  let ?k = "dep_to d" and ?ex = "executor_new t root"
  have fresh: "lookup T E ?ex ?k = Err (AccountNotFound ?k)"
    using assms(5) by (simp add: lookup_def executor_new_def)
  then have L: "ledger_of T E ?ex ?k = None" by (simp add: ledger_of_def)
  have rd: "readable T E ?ex {?k}" using fresh by (simp add: readable_def)
  obtain a where "apply_deposit (account_new ?k) d = Ok a"
    by (cases "account_new ?k" d rule: apply_deposit_cases)
      (use unat_u64_less [of "dep_amount d"] in auto)
  then have "spec_block E [] [d] [] (ledger_of T E ?ex) ?k = Some a"
    by (simp add: spec_block_def spec_deposit_def account_or_new_def L)
  with tree_store.batch_commits_ledger [OF assms(1,6,3) _ rd] assms(4) L
  have "fst (mt_get T (Some r') ?k t') = Ok (Some (account_hash E a))" by simp
  then have "account_at T E (Some r') t' ?k = Err (AccountDataCorrupted ?k)"
    using bincode_fixint.account_at_leaf [OF assms(2), of "Some r'" T ?k t'] assms(7) by simp
  then have "fst (get_account_helper T E ?k (executor_new t' (Some r'))) = Err (AccountDataCorrupted ?k)"
    using stable_reads.get_account_helper_run [of T E ?k "executor_new t' (Some r')"] assms(1)
    by (metis executor_new_def executor.simps(1-3) fst_conv lookup_def map_of.simps(1) option.simps(4)
        tree_store_def)
  then have "fst (executor_apply_deposit T E d' (executor_new t' (Some r'))) = Err (AccountDataCorrupted ?k)"
    using assms(8) by (simp add: executor_apply_deposit_def bind_m_split match_m_split)
  then show ?thesis
    by (simp add: apply_optimistic_batch_def apply_block_def bind_m_split split: prod.split)
qed

theorem second_deposit_fails_witness:
  "\<exists>r' t'. apply_optimistic_batch ref_tree ref_externs (\<lambda>xs. xs) None [] [to_alice] [] ref_empty = (Ok r', t')
    \<and> fst (apply_optimistic_batch ref_tree ref_externs (\<lambda>xs. xs) (Some r') [] [to_alice] [] t')
      = Err (SeqAccountDataCorrupted (hash_of [1]))"
proof -
  let ?a = "account_new (hash_of [1])\<lparr>acc_balance := 7\<rparr>" and ?k = "hash_of [1]"
  let ?h = "account_hash ref_externs ?a"
  let ?t = "\<lparr>rs_versions = [(?h, [(?k, ?h)])], rs_head = None\<rparr>"
  have at: "account_at ref_tree ref_externs None ref_empty ?k = Err (AccountNotFound ?k)"
    by (simp add: account_at_eq ref_tree_def ref_version_def)
  have run: "apply_optimistic_batch ref_tree ref_externs (\<lambda>xs. xs) None [] [to_alice] [] ref_empty = (Ok ?h, ?t)"
    by (simp add: apply_optimistic_batch_def apply_block_def bind_m_split executor_apply_deposit_def
        match_m_split get_account_helper_def on_tree_def get_account_def executor_new_def to_alice_def
        modify_m_def cache_insert_def commit_block_def apply_deposit_def checked_add_def account_new_def
        ref_tree_def ref_empty_def ref_version_def ref_root_def Let_def)
  have nz: "?h \<noteq> hash_default"
    by (simp add: evals account_new_def)
  have "fst (apply_optimistic_batch ref_tree ref_externs (\<lambda>xs. xs) (Some ?h) [] [to_alice] [] ?t)
      = Err (SeqAccountDataCorrupted (dep_to to_alice))"
    by (rule second_deposit_fails [OF ref.tree_store_axioms ref.bincode_fixint_axioms _ _ _ run nz])
      (simp add: ref_externs_def, simp, simp add: to_alice_def at, simp)
  with run show ?thesis by (simp add: to_alice_def)
qed

end
