(* ===== verification/Core_Proofs.thy ===== *)
theory Core_Proofs
  imports Core_Executor
begin

text \<open>
  \<open>generate_proofs_for_block\<close> of \<^verbatim>\<open>crates/core/src/lib.rs\<close>, which replays a pending
  block on the host and collects the Merkle proofs the guest reads, and how its replay relates
  to the guest's run of \<open>execute_transition\<close> on the collected proofs.
\<close>

section \<open>The code\<close>

definition dummy_proof :: "hash \<Rightarrow> merkle_proof" where
  "dummy_proof key = \<lparr>mp_account = account_new key, mp_siblings = []\<rparr>"

definition generate_deposit_step ::
  "'t tree_ops \<Rightarrow> externs \<Rightarrow> deposit \<Rightarrow> hash \<Rightarrow> ('t, merkle_proof \<times> hash, core_error) action" where
  "generate_deposit_step T E dep current_root =
     bind_m (build_stf_proof T E current_root (dep_to dep)) (\<lambda>prf.
       case apply_deposit (mp_account prf) dep of
         Ok updated_account \<Rightarrow>
           return_m (prf, compute_new_root E prf (account_hash E updated_account))
       | Err BalanceOverflow \<Rightarrow> return_m (prf, current_root)
       | Err _ \<Rightarrow> lift_m (Panic ''internal error: entered unreachable code'')
       | Panic msg \<Rightarrow> lift_m (Panic msg))"

fun generate_deposits ::
  "'t tree_ops \<Rightarrow> externs \<Rightarrow> deposit list \<Rightarrow> hash
     \<Rightarrow> ('t, merkle_proof list \<times> hash, core_error) action" where
  "generate_deposits T E [] current_root = return_m ([], current_root)"
| "generate_deposits T E (dep # deps) current_root =
     bind_m (generate_deposit_step T E dep current_root) (\<lambda>(prf, current_root).
     bind_m (generate_deposits T E deps current_root) (\<lambda>(prfs, current_root).
     return_m (prf # prfs, current_root)))"

definition generate_forced_step ::
  "'t tree_ops \<Rightarrow> externs \<Rightarrow> forced_tx \<Rightarrow> hash
     \<Rightarrow> ('t, merkle_proof \<times> merkle_proof \<times> hash, core_error) action" where
  "generate_forced_step T E tx current_root =
     (if ftx_from tx = hash_default
      then return_m (dummy_proof (ftx_from tx), dummy_proof (ftx_to tx), current_root)
      else
        bind_m (build_stf_proof T E current_root (ftx_from tx)) (\<lambda>proof_from.
        bind_m (build_stf_proof T E current_root (ftx_to tx)) (\<lambda>proof_to.
        bind_m (lift_m (map_err (\<lambda>e. CoreStfError (debug_stf_error e))
            (apply_forced_tx E (mp_account proof_from) (mp_account proof_to) tx)))
          (\<lambda>outcome. case outcome of
             Success updated_from updated_to \<Rightarrow>
               let current_root = compute_new_root E proof_from (account_hash E updated_from) in
               bind_m (build_stf_proof T E current_root (ftx_to tx)) (\<lambda>proof_to_after_from.
               return_m (proof_from, proof_to_after_from,
                 compute_new_root E proof_to_after_from (account_hash E updated_to)))
           | Failure updated_from \<Rightarrow>
               return_m (proof_from, proof_to,
                 compute_new_root E proof_from (account_hash E updated_from))))))"

definition generate_tx_step ::
  "'t tree_ops \<Rightarrow> externs \<Rightarrow> transaction \<Rightarrow> hash
     \<Rightarrow> ('t, merkle_proof \<times> merkle_proof \<times> hash, core_error) action" where
  "generate_tx_step T E tx current_root =
     match_m (get_account T E (Some current_root) (tx_from tx))
       (\<lambda>_.
        bind_m (build_stf_proof T E current_root (tx_from tx)) (\<lambda>proof_from.
        bind_m (build_stf_proof T E current_root (tx_to tx)) (\<lambda>proof_to.
        bind_m (lift_m (map_err (\<lambda>e. CoreStfError (debug_stf_error e))
            (apply_transaction E (mp_account proof_from) (mp_account proof_to) tx)))
          (\<lambda>outcome. case outcome of
             Success updated_from updated_to \<Rightarrow>
               let current_root = compute_new_root E proof_from (account_hash E updated_from) in
               bind_m (build_stf_proof T E current_root (tx_to tx)) (\<lambda>proof_to_after_from.
               return_m (proof_from, proof_to_after_from,
                 compute_new_root E proof_to_after_from (account_hash E updated_to)))
           | Failure updated_from \<Rightarrow>
               return_m (proof_from, proof_to,
                 compute_new_root E proof_from (account_hash E updated_from))))))
       (\<lambda>_. return_m (dummy_proof (tx_from tx), dummy_proof (tx_to tx), current_root))"

text \<open>The two transaction loops push one proof per transaction onto each of their two vectors.\<close>

fun generate_loop ::
  "('x \<Rightarrow> hash \<Rightarrow> ('t, merkle_proof \<times> merkle_proof \<times> hash, core_error) action) \<Rightarrow> 'x list \<Rightarrow> hash
     \<Rightarrow> ('t, merkle_proof list \<times> merkle_proof list \<times> hash, core_error) action" where
  "generate_loop step [] current_root = return_m ([], [], current_root)"
| "generate_loop step (tx # txs) current_root =
     bind_m (step tx current_root) (\<lambda>(p, q, current_root).
     bind_m (generate_loop step txs current_root) (\<lambda>(ps, qs, current_root).
     return_m (p # ps, q # qs, current_root)))"

definition generate_proofs_for_block ::
  "'t tree_ops \<Rightarrow> externs \<Rightarrow> pending_block \<Rightarrow> ('t, proof_bundle, core_error) action" where
  "generate_proofs_for_block T E block =
     bind_m (generate_deposits T E (pb_deposits block) (pre_state_root block)) (\<lambda>(ds, current_root).
     bind_m (generate_loop (generate_forced_step T E) (pb_forced_txs block) current_root)
       (\<lambda>(fps, fqs, current_root).
     bind_m (generate_loop (generate_tx_step T E) (pb_txs block) current_root)
       (\<lambda>(xps, xqs, current_root).
     if current_root \<noteq> post_state_root block
     then lift_m (Panic ''fatal: root mismatch after proof generation simulation'')
     else return_m \<lparr>proofs_deposits = ds, proofs_forced_from = fps, proofs_forced_to = fqs,
       proofs_txs_from = xps, proofs_txs_to = xqs\<rparr>)))"

text \<open>The guest's input for a block: what the host writes to its standard input.\<close>

definition block_input :: "pending_block \<Rightarrow> proof_bundle \<Rightarrow> guest_input" where
  "block_input block B = \<lparr>gi_pre_state_root = pre_state_root block, gi_transactions = pb_txs block,
     gi_deposits = pb_deposits block, gi_forced_transactions = pb_forced_txs block, gi_proofs = B\<rparr>"

section \<open>The shape of a bundle\<close>

lemma generate_deposits_length:
  "generate_deposits T E ds r s = (Ok (ps, r'), s') \<Longrightarrow> length ps = length ds"
  by (induction ds arbitrary: ps r r' s s') (force elim!: bind_m_OkE)+

lemma generate_loop_length:
  "generate_loop step xs r s = (Ok (ps, qs, r'), s') \<Longrightarrow> length ps = length xs \<and> length qs = length xs"
  by (induction xs arbitrary: ps qs r r' s s') (force elim!: bind_m_OkE)+

text \<open>A successful call, taken apart into its three loops.\<close>

lemma generate_proofs_OkE:
  assumes "generate_proofs_for_block T E block s = (Ok B, s')"
  obtains r1 r2 s1 s2 where
    "generate_deposits T E (pb_deposits block) (pre_state_root block) s = (Ok (proofs_deposits B, r1), s1)"
    "generate_loop (generate_forced_step T E) (pb_forced_txs block) r1 s1
       = (Ok (proofs_forced_from B, proofs_forced_to B, r2), s2)"
    "generate_loop (generate_tx_step T E) (pb_txs block) r2 s2
       = (Ok (proofs_txs_from B, proofs_txs_to B, post_state_root block), s')"
  using assms unfolding generate_proofs_for_block_def
  by (elim bind_m_OkE) (auto elim!: bind_m_OkE split: if_splits)

lemma generated_lengths:
  assumes "generate_proofs_for_block T E block s = (Ok B, s')"
  shows "length (proofs_deposits B) = length (pb_deposits block)
    \<and> length (proofs_forced_from B) = length (pb_forced_txs block)
    \<and> length (proofs_forced_to B) = length (pb_forced_txs block)
    \<and> length (proofs_txs_from B) = length (pb_txs block)
    \<and> length (proofs_txs_to B) = length (pb_txs block)"
  using assms by (elim generate_proofs_OkE) (simp add: generate_deposits_length generate_loop_length)

section \<open>Host and guest\<close>

lemma build_stf_proof_account:
  assumes "build_stf_proof T E r k s = (Ok p, s')"
  shows "mp_account p = account_new k \<or> account_at T E (Some r) s k = Ok (mp_account p)"
  using assms
  by (auto simp: build_stf_proof_def bind_m_split match_m_split account_at_def
      split: result.splits core_error.splits)

text \<open>
  The guest takes every recipient to be fresh, the host takes what \<open>get_account\<close> returns.
  The two agree where the host's read, at the root and in the tree state of that moment, finds
  no account or a fresh one.
\<close>

definition finds_new :: "'t tree_ops \<Rightarrow> externs \<Rightarrow> hash \<Rightarrow> hash \<Rightarrow> 't \<Rightarrow> bool" where
  "finds_new T E k r s \<longleftrightarrow> (case account_at T E (Some r) s k of Ok a \<Rightarrow> a = account_new k | _ \<Rightarrow> True)"

lemma build_stf_proof_fresh:
  "finds_new T E k r s \<Longrightarrow> build_stf_proof T E r k s = (Ok p, s') \<Longrightarrow> mp_account p = account_new k"
  using build_stf_proof_account [of T E r k s p s'] by (auto simp: finds_new_def)

lemma bincode_finds_new: "bincode_fixint E \<Longrightarrow> finds_new T E k r s"
  by (simp add: finds_new_def bincode_fixint.account_at_not_Ok split: result.splits)

text \<open>
  Of a transfer the recipient is read after the sender. A forced transaction has to find its
  recipient new unless it is skipped; a transaction has to find its sender's account, since the
  host gives it dummies otherwise, and then its recipient new.
\<close>

definition recipient_new :: "'t tree_ops \<Rightarrow> externs \<Rightarrow> transaction \<Rightarrow> hash \<Rightarrow> 't \<Rightarrow> bool" where
  "recipient_new T E tx r s \<longleftrightarrow>
     finds_new T E (tx_to tx) r (snd (build_stf_proof T E r (tx_from tx) s))"

definition forced_new :: "'t tree_ops \<Rightarrow> externs \<Rightarrow> forced_tx \<Rightarrow> hash \<Rightarrow> 't \<Rightarrow> bool" where
  "forced_new T E f r s \<longleftrightarrow> ftx_from f = hash_default \<or> recipient_new T E (tx_of_forced f) r s"

definition tx_found :: "'t tree_ops \<Rightarrow> externs \<Rightarrow> transaction \<Rightarrow> hash \<Rightarrow> 't \<Rightarrow> bool" where
  "tx_found T E tx r s \<longleftrightarrow> (case get_account T E (Some r) (tx_from tx) s of
     (Ok _, s') \<Rightarrow> recipient_new T E tx r s' | _ \<Rightarrow> False)"

text \<open>A condition on each operation of a loop, at the root and state the loop has reached.\<close>

fun along ::
  "('x \<Rightarrow> hash \<Rightarrow> 't \<Rightarrow> bool)
     \<Rightarrow> ('x \<Rightarrow> hash \<Rightarrow> ('t, merkle_proof \<times> merkle_proof \<times> hash, core_error) action) \<Rightarrow> 'x list \<Rightarrow> hash
     \<Rightarrow> 't \<Rightarrow> bool" where
  "along Q step [] r s \<longleftrightarrow> True"
| "along Q step (x # xs) r s \<longleftrightarrow> Q x r s \<and>
     (case step x r s of (Ok (_, _, r'), s') \<Rightarrow> along Q step xs r' s' | _ \<Rightarrow> True)"

lemma along_always: "(\<And>x r s. Q x r s) \<Longrightarrow> along Q step xs r s"
  by (induction xs arbitrary: r s) (auto split: result.splits)

text \<open>The conditions along the host's replay of a block.\<close>

definition replay_forced_new :: "'t tree_ops \<Rightarrow> externs \<Rightarrow> pending_block \<Rightarrow> 't \<Rightarrow> bool" where
  "replay_forced_new T E block s \<longleftrightarrow>
     (case generate_deposits T E (pb_deposits block) (pre_state_root block) s of
        (Ok (_, r1), s1) \<Rightarrow> along (forced_new T E) (generate_forced_step T E) (pb_forced_txs block) r1 s1
      | _ \<Rightarrow> True)"

definition replay_txs_found :: "'t tree_ops \<Rightarrow> externs \<Rightarrow> pending_block \<Rightarrow> 't \<Rightarrow> bool" where
  "replay_txs_found T E block s \<longleftrightarrow>
     (case generate_deposits T E (pb_deposits block) (pre_state_root block) s of
        (Ok (_, r1), s1) \<Rightarrow>
          (case generate_loop (generate_forced_step T E) (pb_forced_txs block) r1 s1 of
             (Ok (_, _, r2), s2) \<Rightarrow> along (tx_found T E) (generate_tx_step T E) (pb_txs block) r2 s2
           | _ \<Rightarrow> True)
      | _ \<Rightarrow> True)"

lemma bincode_replay_forced_new: "bincode_fixint E \<Longrightarrow> replay_forced_new T E block s"
  by (auto simp: replay_forced_new_def forced_new_def recipient_new_def bincode_finds_new
      intro!: along_always split: prod.splits result.splits)

lemma generate_deposits_agree:
  "generate_deposits T E ds r s = (Ok (ps, r'), s') \<Longrightarrow> deposit_loop E ps 0 ds r = Ok z \<Longrightarrow> z = r'"
proof (induction ds arbitrary: ps r r' s s')
  case (Cons d ds)
  from Cons.prems(1) obtain p r1 s1 ps' where step: "generate_deposit_step T E d r s = (Ok (p, r1), s1)"
    and rest: "generate_deposits T E ds r1 s1 = (Ok (ps', r'), s')" and ps: "ps = p # ps'"
    by (auto elim!: bind_m_OkE)
  from Cons.prems(2) ps obtain a where a: "apply_deposit (mp_account p) d = Ok a"
    and loop: "deposit_loop E ps' 0 ds (compute_new_root E p (account_hash E a)) = Ok z"
    by (auto split: if_splits)
  from step a have "r1 = compute_new_root E p (account_hash E a)"
    by (cases d rule: apply_deposit_cases [of "mp_account p"])
      (auto simp: generate_deposit_step_def elim!: bind_m_OkE split: result.splits stf_error.splits)
  with Cons.IH [OF rest] loop show ?case by simp
qed simp

lemma generate_loop_agree:
  assumes "\<And>x p q r r1 s s1 xs ps qs z. Q x r s \<Longrightarrow> step x r s = (Ok (p, q, r1), s1) \<Longrightarrow>
      loop (p # ps) (q # qs) 0 (x # xs) r = Ok z \<Longrightarrow> loop ps qs 0 xs r1 = Ok z"
    and "\<And>r z. loop [] [] 0 [] r = Ok z \<Longrightarrow> z = r"
  shows "generate_loop step xs r s = (Ok (ps, qs, r'), s') \<Longrightarrow> along Q step xs r s \<Longrightarrow>
    loop ps qs (0 :: nat) xs r = Ok z \<Longrightarrow> z = r'"
proof (induction xs arbitrary: ps qs r r' s s')
  case (Cons x xs)
  from Cons.prems(1) obtain p q r1 s1 ps' qs' where step: "step x r s = (Ok (p, q, r1), s1)"
    and rest: "generate_loop step xs r1 s1 = (Ok (ps', qs', r'), s')" and "ps = p # ps'" "qs = q # qs'"
    by (auto elim!: bind_m_OkE)
  moreover from Cons.prems(2) step have "Q x r s" "along Q step xs r1 s1" by simp_all
  ultimately show ?case using Cons.prems(3) assms(1) [OF _ step] Cons.IH [OF rest] by simp
qed (use assms(2) in auto)

text \<open>The part the two steps share: both accounts read, the transfer applied, the root moved on.\<close>

definition transfer_step ::
  "'t tree_ops \<Rightarrow> externs \<Rightarrow> transaction \<Rightarrow> hash
     \<Rightarrow> ('t, merkle_proof \<times> merkle_proof \<times> hash, core_error) action" where
  "transfer_step T E tx current_root =
     bind_m (build_stf_proof T E current_root (tx_from tx)) (\<lambda>proof_from.
     bind_m (build_stf_proof T E current_root (tx_to tx)) (\<lambda>proof_to.
     bind_m (lift_m (map_err (\<lambda>e. CoreStfError (debug_stf_error e))
         (apply_transaction E (mp_account proof_from) (mp_account proof_to) tx)))
       (\<lambda>outcome. case outcome of
          Success updated_from updated_to \<Rightarrow>
            let current_root = compute_new_root E proof_from (account_hash E updated_from) in
            bind_m (build_stf_proof T E current_root (tx_to tx)) (\<lambda>proof_to_after_from.
            return_m (proof_from, proof_to_after_from,
              compute_new_root E proof_to_after_from (account_hash E updated_to)))
        | Failure updated_from \<Rightarrow>
            return_m (proof_from, proof_to,
              compute_new_root E proof_from (account_hash E updated_from)))))"

lemma generate_steps_as_transfer:
  "generate_forced_step T E f r = (if ftx_from f = hash_default
     then return_m (dummy_proof (ftx_from f), dummy_proof (ftx_to f), r)
     else transfer_step T E (tx_of_forced f) r)"
  "generate_tx_step T E tx r = match_m (get_account T E (Some r) (tx_from tx))
     (\<lambda>_. transfer_step T E tx r) (\<lambda>_. return_m (dummy_proof (tx_from tx), dummy_proof (tx_to tx), r))"
  by (simp_all only: generate_forced_step_def generate_tx_step_def transfer_step_def
      apply_forced_tx_as_transaction tx_of_forced_simps)

lemma transfer_step_agree:
  assumes "transfer_step T E tx r s = (Ok (p, q, r'), s')" and "recipient_new T E tx r s"
    and "tx_loop E (p # ps) (q # qs) 0 (tx # txs) r = Ok z"
  shows "tx_loop E ps qs 0 txs r' = Ok z"
proof -
  from assms(1) obtain pf s1 pt s2 res where
    pf: "build_stf_proof T E r (tx_from tx) s = (Ok pf, s1)" and
    pt: "build_stf_proof T E r (tx_to tx) s1 = (Ok pt, s2)" and
    res: "apply_transaction E (mp_account pf) (mp_account pt) tx = Ok res" and
    rest: "(case res of
             Success updated_from updated_to \<Rightarrow>
               let r1 = compute_new_root E pf (account_hash E updated_from) in
               bind_m (build_stf_proof T E r1 (tx_to tx)) (\<lambda>proof_to_after_from.
               return_m (pf, proof_to_after_from,
                 compute_new_root E proof_to_after_from (account_hash E updated_to)))
           | Failure updated_from \<Rightarrow>
               return_m (pf, pt, compute_new_root E pf (account_hash E updated_from))) s2 = (Ok (p, q, r'), s')"
    unfolding transfer_step_def
    by (elim bind_m_OkE) (auto simp: map_err_def split: result.splits)
  have res': "apply_transaction E (mp_account pf) (account_new (tx_to tx)) tx = Ok res"
    using res assms(2) build_stf_proof_fresh [OF _ pt] by (simp add: recipient_new_def pf)
  show ?thesis
  proof (cases res)
    case (Success a b)
    with rest have "p = pf" "r' = compute_new_root E q (account_hash E b)"
      by (auto simp: Let_def elim!: bind_m_OkE)
    with Success res' assms(3) show ?thesis by (auto simp: Let_def split: if_splits)
  next
    case (Failure a)
    with rest res' assms(3) show ?thesis by (auto split: if_splits)
  qed
qed

lemma generate_forced_step_agree:
  assumes "generate_forced_step T E f r s = (Ok (p, q, r'), s')" and "forced_new T E f r s"
    and "forced_loop E (p # ps) (q # qs) 0 (f # fs) r = Ok z"
  shows "forced_loop E ps qs 0 fs r' = Ok z"
proof (cases "ftx_from f = hash_default")
  case True
  with assms show ?thesis by (simp add: generate_forced_step_def)
next
  case False
  from forced_loop_step_as_tx [OF False assms(3)] obtain r1
    where one: "tx_loop E (p # ps) (q # qs) 0 [tx_of_forced f] r = Ok r1"
      and rest: "forced_loop E ps qs 0 fs r1 = Ok z" by auto
  from assms(1) False have "transfer_step T E (tx_of_forced f) r s = (Ok (p, q, r'), s')"
    by (simp add: generate_steps_as_transfer)
  from transfer_step_agree [OF this _ one] assms(2) False have "r' = r1" by (simp add: forced_new_def)
  with rest show ?thesis by simp
qed

lemma generate_tx_step_agree:
  assumes "generate_tx_step T E tx r s = (Ok (p, q, r'), s')" and "tx_found T E tx r s"
    and "tx_loop E (p # ps) (q # qs) 0 (tx # txs) r = Ok z"
  shows "tx_loop E ps qs 0 txs r' = Ok z"
proof -
  from assms(2) obtain a s1 where a: "get_account T E (Some r) (tx_from tx) s = (Ok a, s1)"
    and new: "recipient_new T E tx r s1"
    by (auto simp: tx_found_def split: prod.splits result.splits)
  from assms(1) a have "transfer_step T E tx r s1 = (Ok (p, q, r'), s')"
    by (simp add: generate_steps_as_transfer match_m_split)
  from transfer_step_agree [OF this new assms(3)] show ?thesis .
qed

lemma generated_prefix_agrees:
  assumes "generate_proofs_for_block T E block s = (Ok B, s')"
    and "execute_with E (pre_state_root block) (pb_txs block) (pb_deposits block)
      (pb_forced_txs block) B = Ok (r', dh, fh)"
    and "replay_forced_new T E block s"
  obtains r1 s1 r2 s2 where
    "generate_deposits T E (pb_deposits block) (pre_state_root block) s = (Ok (proofs_deposits B, r1), s1)"
    "generate_loop (generate_forced_step T E) (pb_forced_txs block) r1 s1
       = (Ok (proofs_forced_from B, proofs_forced_to B, r2), s2)"
    "generate_loop (generate_tx_step T E) (pb_txs block) r2 s2
       = (Ok (proofs_txs_from B, proofs_txs_to B, post_state_root block), s')"
    "tx_loop E (proofs_txs_from B) (proofs_txs_to B) 0 (pb_txs block) r2 = Ok r'"
proof -
  from assms(1) obtain r1 r2 s1 s2 where
    g1: "generate_deposits T E (pb_deposits block) (pre_state_root block) s = (Ok (proofs_deposits B, r1), s1)" and
    g2: "generate_loop (generate_forced_step T E) (pb_forced_txs block) r1 s1
       = (Ok (proofs_forced_from B, proofs_forced_to B, r2), s2)" and
    g3: "generate_loop (generate_tx_step T E) (pb_txs block) r2 s2
       = (Ok (proofs_txs_from B, proofs_txs_to B, post_state_root block), s')"
    by (rule generate_proofs_OkE)
  from assms(2) obtain z1 z2 where
    l1: "deposit_loop E (proofs_deposits B) 0 (pb_deposits block) (pre_state_root block) = Ok z1" and
    l2: "forced_loop E (proofs_forced_from B) (proofs_forced_to B) 0 (pb_forced_txs block) z1 = Ok z2" and
    l3: "tx_loop E (proofs_txs_from B) (proofs_txs_to B) 0 (pb_txs block) z2 = Ok r'"
    by (auto simp: execute_transition_def Let_def)
  have z1: "z1 = r1" by (rule generate_deposits_agree [OF g1 l1])
  have forced: "along (forced_new T E) (generate_forced_step T E) (pb_forced_txs block) r1 s1"
    using assms(3) g1 by (simp add: replay_forced_new_def)
  have "z2 = r2"
    by (rule generate_loop_agree [where loop = "forced_loop E", OF _ _ g2 forced l2 [unfolded z1]])
      (rule generate_forced_step_agree, simp_all)
  with g1 g2 g3 l3 show thesis by (intro that) simp_all
qed

lemma generated_bundle_agrees:
  assumes "generate_proofs_for_block T E block s = (Ok B, s')"
    and "execute_with E (pre_state_root block) (pb_txs block) (pb_deposits block)
      (pb_forced_txs block) B = Ok (r', dh, fh)"
    and "replay_forced_new T E block s" and "replay_txs_found T E block s"
  shows "r' = post_state_root block"
proof -
  from assms(1-3) obtain r1 s1 r2 s2 where
    g1: "generate_deposits T E (pb_deposits block) (pre_state_root block) s = (Ok (proofs_deposits B, r1), s1)" and
    g2: "generate_loop (generate_forced_step T E) (pb_forced_txs block) r1 s1
       = (Ok (proofs_forced_from B, proofs_forced_to B, r2), s2)" and
    g3: "generate_loop (generate_tx_step T E) (pb_txs block) r2 s2
       = (Ok (proofs_txs_from B, proofs_txs_to B, post_state_root block), s')" and
    l3: "tx_loop E (proofs_txs_from B) (proofs_txs_to B) 0 (pb_txs block) r2 = Ok r'"
    by (rule generated_prefix_agrees)
  have found: "along (tx_found T E) (generate_tx_step T E) (pb_txs block) r2 s2"
    using assms(4) g1 g2 by (simp add: replay_txs_found_def)
  show ?thesis
    by (rule generate_loop_agree [where loop = "tx_loop E", OF _ _ g3 found l3])
      (rule generate_tx_step_agree, simp_all)
qed

lemma generate_loop_dummies:
  assumes "bincode_fixint E"
  shows "generate_loop (generate_tx_step T E) txs r s = (Ok (ps, qs, r'), s') \<Longrightarrow>
    r' = r \<and> ps = map (\<lambda>tx. dummy_proof (tx_from tx)) txs"
proof (induction txs arbitrary: ps qs r s)
  case (Cons tx txs)
  from Cons.prems obtain p q r1 s1 ps' qs' where step: "generate_tx_step T E tx r s = (Ok (p, q, r1), s1)"
    and rest: "generate_loop (generate_tx_step T E) txs r1 s1 = (Ok (ps', qs', r'), s')" and "ps = p # ps'"
    by (auto elim!: bind_m_OkE)
  moreover from step have "p = dummy_proof (tx_from tx)" "r1 = r"
    using bincode_fixint.account_at_not_Ok [OF assms, of T "Some r" s "tx_from tx"]
    by (auto simp: generate_tx_step_def match_m_split account_at_def split: result.splits)
  ultimately show ?case using Cons.IH [OF rest] by simp
qed simp

section \<open>Properties\<close>

text \<open>
C27. The bundle fits the block: every proof vector has exactly one entry per operation it
  serves, so that in a release build the guest, given the bundle, indexes no vector out of
  bounds and ends without a panic of its own.
\<close>
theorem generated_bundle_fits:
  assumes "generate_proofs_for_block T E block s = (Ok B, s')" and "\<not> overflow_checks E"
  shows "length (proofs_deposits B) = length (pb_deposits block)
    \<and> length (proofs_forced_from B) = length (pb_forced_txs block)
    \<and> length (proofs_forced_to B) = length (pb_forced_txs block)
    \<and> length (proofs_txs_from B) = length (pb_txs block)
    \<and> length (proofs_txs_to B) = length (pb_txs block)
    \<and> execute_with E (pre_state_root block) (pb_txs block) (pb_deposits block)
        (pb_forced_txs block) B \<noteq> Panic msg"
  using generated_lengths [OF assms(1)] deposit_loop_no_panic
    forced_loop_no_panic [OF assms(2)] tx_loop_no_panic [OF assms(2)]
  by (auto simp: execute_transition_def Let_def bind_res_Panic_iff)

text \<open>A block of one deposit, and one of one transaction, on a root that is a fresh account's hash.\<close>

definition fresh_block :: pending_block where
  "fresh_block = \<lparr>block_number = 1, pb_txs = [], pb_deposits = [to_alice], pb_forced_txs = [],
     pre_state_root = account_hash ref_externs (account_new (hash_of [1])),
     post_state_root = account_hash ref_externs (account_new (hash_of [1])\<lparr>acc_balance := 7\<rparr>)\<rparr>"

definition fresh_bundle :: proof_bundle where
  "fresh_bundle = \<lparr>proofs_deposits = [dummy_proof (hash_of [1])], proofs_forced_from = [],
     proofs_forced_to = [], proofs_txs_from = [], proofs_txs_to = []\<rparr>"

definition poor_block :: pending_block where
  "poor_block = fresh_block\<lparr>pb_txs := [pay_bob], pb_deposits := [], post_state_root := pre_state_root fresh_block\<rparr>"

definition poor_bundle :: proof_bundle where
  "poor_bundle = fresh_bundle\<lparr>proofs_deposits := [], proofs_txs_from := [dummy_proof (hash_of [1])],
     proofs_txs_to := [dummy_proof (hash_of [2])]\<rparr>"

lemma fresh_block_generated:
  "generate_proofs_for_block ref_tree ref_externs fresh_block ref_empty = (Ok fresh_bundle, ref_empty)"
proof -
  have "account_hash ref_externs (account_new (hash_of [1])) \<noteq> hash_default"
    by (simp add: evals account_new_def)
  then have "build_stf_proof ref_tree ref_externs (account_hash ref_externs (account_new (hash_of [1])))
      (hash_of [1]) ref_empty = (Ok (dummy_proof (hash_of [1])), ref_empty)"
    by (simp add: build_stf_proof_def get_account_def get_proof_def bind_m_split match_m_split
        dummy_proof_def ref_tree_def ref_empty_def ref_version_def)
  then show ?thesis
    by (simp add: generate_proofs_for_block_def bind_m_split fresh_block_def generate_deposit_step_def
        to_alice_def dummy_proof_def apply_deposit_def checked_add_def compute_new_root_def fresh_bundle_def)
qed

lemma fresh_block_accepted:
  "execute_with ref_externs (pre_state_root fresh_block) [] [to_alice] [] fresh_bundle
     = Ok (post_state_root fresh_block, hash_deposits ref_externs [to_alice], hash_forced_txs ref_externs [])"
  by (simp add: execute_transition_def fresh_block_def fresh_bundle_def verify_def dummy_proof_def
      apply_deposit_def checked_add_def compute_new_root_def to_alice_def)

theorem generated_bundle_fits_witness:
  "length (proofs_deposits fresh_bundle) = 1
    \<and> (\<forall>msg. execute_with ref_externs (pre_state_root fresh_block) (pb_txs fresh_block)
        (pb_deposits fresh_block) (pb_forced_txs fresh_block) fresh_bundle \<noteq> Panic msg)"
proof -
  note fits = generated_bundle_fits [OF fresh_block_generated ref_release]
  have "length (pb_deposits fresh_block) = 1" by (simp add: fresh_block_def)
  with fits show ?thesis by metis
qed

text \<open>
C12. Host and guest agree on the new state root: when the host has generated the proofs of a
  block and the guest accepts them, the public values the guest commits name exactly the
  block's recorded post-state root, provided that at its moment of the replay every recipient of
  a transfer is new to the tree and every sender of a transaction has an account the host reads.
\<close>
theorem host_guest_same_root:
  assumes "alloy E" and "generate_proofs_for_block T E block s = (Ok B, s')"
    and "guest_main E (block_input block B) = Ok out"
    and "replay_forced_new T E block s" and "replay_txs_found T E block s"
  shows "abi_decode_public_values E out
    = Some (public_values_of E (block_input block B) (post_state_root block))"
proof -
  from assms(3) obtain r dh fh where
    run: "execute_with E (pre_state_root block) (pb_txs block) (pb_deposits block)
        (pb_forced_txs block) B = Ok (r, dh, fh)"
    and out: "out = abi_encode_public_values E (public_values_of E (block_input block B) r)"
    by (auto simp: guest_main_Ok_iff block_input_def)
  from generated_bundle_agrees [OF assms(2) run assms(4,5)] out show ?thesis
    using alloy.abi_encode_public_values [OF assms(1)] alloy.abi_decode_public_values [OF assms(1)] by simp
qed

text \<open>
  A block with one successful payment, on a tree of two leaves whose reader knows the sender's
  account, in a world whose \<open>bincode\<close> decodes the sender's leaf.
\<close>

definition paying_externs :: externs where
  "paying_externs = ref_externs\<lparr>bincode_account :=
     \<lambda>bs. if bs = hash_bytes (hash_of [7]) then Some alice else None\<rparr>"

definition paying_tree :: "unit tree_ops" where
  "paying_tree =
     \<lparr>mt_get = (\<lambda>root k s. (Ok (if k = hash_of [1] then Some (hash_of [7]) else None), s)),
      mt_inserts = (\<lambda>root ks ls s. (Ok root, s)),
      mt_get_merkle_proof = (\<lambda>root k s. (Ok (Some
        (if k = hash_of [1] then [(True, hash_bytes (account_hash ref_externs (account_new (hash_of [2]))))]
         else [(False, hash_bytes (account_hash ref_externs (alice\<lparr>acc_balance := 89, acc_nonce := 1\<rparr>)))])), s)),
      mt_get_headroot = (\<lambda>s. (Ok None, s)),
      mt_set_headroot = (\<lambda>r s. s)\<rparr>"

definition paying_block :: pending_block where
  "paying_block = \<lparr>block_number = 1, pb_txs = [pay_bob], pb_deposits = [], pb_forced_txs = [],
     pre_state_root = root_of ref_externs (Br (Tip alice) (Tip (account_new (hash_of [2])))),
     post_state_root = root_of ref_externs (Br (Tip (alice\<lparr>acc_balance := 89, acc_nonce := 1\<rparr>))
       (Tip ((account_new (hash_of [2]))\<lparr>acc_balance := 10\<rparr>)))\<rparr>"

definition paying_bundle :: proof_bundle where
  "paying_bundle = \<lparr>proofs_deposits = [], proofs_forced_from = [], proofs_forced_to = [],
     proofs_txs_from = [proof_of ref_externs (Br (Tip alice) (Tip (account_new (hash_of [2])))) [True] alice],
     proofs_txs_to = [proof_of ref_externs (Br (Tip (alice\<lparr>acc_balance := 89, acc_nonce := 1\<rparr>))
       (Tip (account_new (hash_of [2])))) [False] (account_new (hash_of [2]))]\<rparr>"

lemma paying_hash [simp]: "account_hash paying_externs a = account_hash ref_externs a"
  "hash_nodes paying_externs x y = hash_nodes ref_externs x y"
  by (simp_all add: account_hash_def hash_nodes_def paying_externs_def)

lemma paying_alloy: "alloy paying_externs"
  using ref.alloy_axioms by (simp add: alloy_def paying_externs_def)

lemma paying_not_default:
  "hash_nodes ref_externs (account_hash ref_externs alice) (account_hash ref_externs (account_new (hash_of [2])))
     \<noteq> hash_default"
  "hash_nodes ref_externs (account_hash ref_externs (alice\<lparr>acc_balance := 89, acc_nonce := 1\<rparr>))
     (account_hash ref_externs (account_new (hash_of [2]))) \<noteq> hash_default"
  by (simp_all add: evals account_new_def)

lemma paying_keys: "tx_from pay_bob = hash_of [1]" "tx_to pay_bob = hash_of [2]"
  by (simp_all add: pay_bob_def)

lemma paying_reads:
  assumes "r \<noteq> hash_default"
  shows "build_stf_proof paying_tree paying_externs r (hash_of [1]) s
      = (Ok (proof_of ref_externs (Br (Tip alice) (Tip (account_new (hash_of [2])))) [True] alice), s)"
    and "build_stf_proof paying_tree paying_externs r (hash_of [2]) s
      = (Ok (proof_of ref_externs (Br (Tip (alice\<lparr>acc_balance := 89, acc_nonce := 1\<rparr>))
          (Tip (account_new (hash_of [2])))) [False] (account_new (hash_of [2]))), s)"
    and "get_account paying_tree paying_externs (Some r) (hash_of [1]) s = (Ok alice, s)"
    and "get_account paying_tree paying_externs (Some r) (hash_of [2]) s = (Err (AccountNotFound (hash_of [2])), s)"
proof -
  have ne: "hash_of [1] \<noteq> hash_of [2]" by (simp add: evals)
  note unfold = build_stf_proof_def get_account_def get_proof_def bind_m_split match_m_split
    paying_tree_def proof_of_def ok_or_def try_into_hash_def
  show "build_stf_proof paying_tree paying_externs r (hash_of [1]) s
      = (Ok (proof_of ref_externs (Br (Tip alice) (Tip (account_new (hash_of [2])))) [True] alice), s)"
    using assms by (simp add: unfold paying_externs_def)
  show "build_stf_proof paying_tree paying_externs r (hash_of [2]) s
      = (Ok (proof_of ref_externs (Br (Tip (alice\<lparr>acc_balance := 89, acc_nonce := 1\<rparr>))
          (Tip (account_new (hash_of [2])))) [False] (account_new (hash_of [2]))), s)"
    using assms ne by (simp add: unfold)
  show "get_account paying_tree paying_externs (Some r) (hash_of [1]) s = (Ok alice, s)"
    using assms by (simp add: unfold paying_externs_def)
  show "get_account paying_tree paying_externs (Some r) (hash_of [2]) s = (Err (AccountNotFound (hash_of [2])), s)"
    using assms ne by (simp add: unfold)
qed

lemma paying_outcome:
  "apply_transaction paying_externs alice (account_new (hash_of [2])) pay_bob
     = Ok (Success (alice\<lparr>acc_balance := 89, acc_nonce := 1\<rparr>) ((account_new (hash_of [2]))\<lparr>acc_balance := 10\<rparr>))"
  by (simp add: apply_transaction_def checked_add_def account_new_def pay_bob_def alice_def
      paying_externs_def ref_externs_def)

lemma paying_block_generated:
  "generate_proofs_for_block paying_tree paying_externs paying_block () = (Ok paying_bundle, ())"
proof -
  have "generate_tx_step paying_tree paying_externs pay_bob (pre_state_root paying_block) ()
      = (Ok (hd (proofs_txs_from paying_bundle), hd (proofs_txs_to paying_bundle),
          post_state_root paying_block), ())"
    by (simp add: generate_tx_step_def bind_m_split match_m_split paying_block_def paying_bundle_def
        paying_keys paying_reads paying_not_default paying_outcome Let_def compute_new_root_def proof_of_def)
  then show ?thesis
    by (simp add: generate_proofs_for_block_def bind_m_split paying_block_def paying_bundle_def)
qed

lemma paying_block_accepted:
  "\<exists>out. guest_main paying_externs (block_input paying_block paying_bundle) = Ok out"
  by (simp add: guest_main_Ok_iff block_input_def execute_transition_def paying_block_def paying_bundle_def
      verify_def compute_new_root_def proof_of_def paying_keys paying_outcome Let_def)

lemma paying_replay:
  "replay_forced_new paying_tree paying_externs paying_block ()"
  "replay_txs_found paying_tree paying_externs paying_block ()"
  by (simp_all add: replay_forced_new_def replay_txs_found_def paying_block_def tx_found_def
      recipient_new_def finds_new_def account_at_def paying_keys paying_reads paying_not_default
      split: prod.splits result.splits)

theorem host_guest_same_root_witness:
  "\<exists>out. guest_main paying_externs (block_input paying_block paying_bundle) = Ok out
    \<and> abi_decode_public_values paying_externs out = Some (public_values_of paying_externs
        (block_input paying_block paying_bundle) (post_state_root paying_block))
    \<and> pb_txs paying_block = [pay_bob]"
proof -
  from paying_block_accepted obtain out where
    run: "guest_main paying_externs (block_input paying_block paying_bundle) = Ok out" by blast
  from host_guest_same_root [OF paying_alloy paying_block_generated run paying_replay] run show ?thesis
    by (simp add: paying_block_def)
qed

text \<open>
C30. A block with transactions is never provable in practice: because no account can be read
  back from the tree, the host replaces the sender's proof by a placeholder with no siblings,
  and the guest accepts the first of them only if the whole tree is the single fresh account
  of that sender, the host's post-state root then being this account's hash.
\<close>
theorem transactions_not_provable:
  assumes "bincode_fixint E" and "generate_proofs_for_block T E block s = (Ok B, s')"
    and "guest_main E (block_input block B) = Ok out" and "pb_txs block = tx # txs"
  shows "post_state_root block = account_hash E (account_new (tx_from tx))"
proof -
  from assms(3) obtain r dh fh where
    run: "execute_with E (pre_state_root block) (pb_txs block) (pb_deposits block)
        (pb_forced_txs block) B = Ok (r, dh, fh)"
    by (auto simp: guest_main_Ok_iff block_input_def)
  from assms(2) run bincode_replay_forced_new [OF assms(1)] obtain r1 s1 r2 s2 where
    "generate_deposits T E (pb_deposits block) (pre_state_root block) s = (Ok (proofs_deposits B, r1), s1)" and
    "generate_loop (generate_forced_step T E) (pb_forced_txs block) r1 s1
       = (Ok (proofs_forced_from B, proofs_forced_to B, r2), s2)" and
    g: "generate_loop (generate_tx_step T E) (pb_txs block) r2 s2
       = (Ok (proofs_txs_from B, proofs_txs_to B, post_state_root block), s')" and
    l: "tx_loop E (proofs_txs_from B) (proofs_txs_to B) 0 (pb_txs block) r2 = Ok r"
    by (rule generated_prefix_agrees)
  from generate_loop_dummies [OF assms(1) g] l assms(4) show ?thesis
    by (auto simp: verify_def dummy_proof_def split: if_splits)
qed

lemma poor_block_generated:
  "generate_proofs_for_block ref_tree ref_externs poor_block ref_empty = (Ok poor_bundle, ref_empty)"
proof -
  have "account_hash ref_externs (account_new (hash_of [1])) \<noteq> hash_default"
    by (simp add: evals account_new_def)
  then have "get_account ref_tree ref_externs (Some (account_hash ref_externs (account_new (hash_of [1]))))
      (hash_of [1]) ref_empty = (Err (AccountNotFound (hash_of [1])), ref_empty)"
    by (simp add: get_account_def bind_m_split ref_tree_def ref_empty_def ref_version_def)
  then show ?thesis
    by (simp add: generate_proofs_for_block_def bind_m_split poor_block_def fresh_block_def
        generate_tx_step_def match_m_split pay_bob_def poor_bundle_def fresh_bundle_def)
qed

lemma poor_block_accepted:
  "\<exists>out. guest_main ref_externs (block_input poor_block poor_bundle) = Ok out"
proof -
  have "execute_with ref_externs (pre_state_root fresh_block) [pay_bob] [] [] poor_bundle
      = Ok (account_hash ref_externs (account_new (hash_of [1])\<lparr>acc_nonce := 1\<rparr>),
          hash_deposits ref_externs [], hash_forced_txs ref_externs [])"
    by (simp add: execute_transition_def fresh_block_def poor_bundle_def fresh_bundle_def verify_def
        dummy_proof_def compute_new_root_def pay_bob_def apply_transaction_def checked_add_def
        saturating_sub_def account_new_def)
  then show ?thesis
    by (simp add: guest_main_Ok_iff block_input_def) (simp add: poor_block_def fresh_block_def)
qed

theorem transactions_not_provable_witness:
  "post_state_root poor_block = account_hash ref_externs (account_new (tx_from pay_bob))"
proof -
  from poor_block_accepted obtain out where
    run: "guest_main ref_externs (block_input poor_block poor_bundle) = Ok out" by blast
  show ?thesis
    by (rule transactions_not_provable [OF ref.bincode_fixint_axioms poor_block_generated run])
      (simp add: poor_block_def)
qed

text \<open>
C31. A deposit is provable only for an account that already exists and is empty: when the guest
  accepts the host's proofs for a block that starts with a deposit, the ledger under the
  pre-state root holds a fresh account (no balance, nonce zero) of the recipient, while the
  host's tree reported that the recipient has no leaf.
\<close>
theorem deposit_provable_only_if_fresh:
  assumes "bincode_fixint E" and "generate_proofs_for_block T E block s = (Ok B, s')"
    and "guest_main E (block_input block B) = Ok out" and "pb_deposits block = d # ds"
    and "pre_state_root block = root_of E mt"
    and "collision_free E (set (tree_inputs E mt) \<union> set (transition_inputs E (pb_txs block)
      (pb_deposits block) (pb_forced_txs block) B))"
  shows "(\<exists>p. leaf_at mt p = Some (account_new (dep_to d)))
    \<and> (pre_state_root block = hash_default
       \<or> fst (mt_get T (Some (pre_state_root block)) (dep_to d) s) = Ok None)"
proof -
  let ?r = "pre_state_root block" and ?k = "dep_to d"
  let ?Q = "set (tree_inputs E mt) \<union> set (transition_inputs E (pb_txs block)
      (pb_deposits block) (pb_forced_txs block) B)"
  from assms(2,4) obtain p ps r1 s1 where B: "proofs_deposits B = p # ps"
    and step: "generate_deposit_step T E d ?r s = (Ok (p, r1), s1)"
    by (elim generate_proofs_OkE) (auto elim!: bind_m_OkE dest: sym)
  from step obtain s2 where p: "build_stf_proof T E ?r ?k s = (Ok p, s2)"
    by (auto simp: generate_deposit_step_def elim!: bind_m_OkE split: result.splits stf_error.splits)
  have fresh: "mp_account p = account_new ?k"
    using bincode_finds_new [OF assms(1)] p by (rule build_stf_proof_fresh)
  have "verify E p (root_of E mt)"
    using assms(3-5) B by (auto simp: guest_main_Ok_iff block_input_def execute_transition_def Let_def
        split: if_splits)
  from verified_leaf(1) [OF this assms(6)] have "leaf_at mt (position p) = Some (account_new ?k)"
    using fresh B assms(4) by (auto simp: transition_inputs_def deposit_step_inputs_def)
  moreover have "?r = hash_default \<or> fst (mt_get T (Some ?r) ?k s) = Ok None"
  proof (rule ccontr)
    assume "\<not> ?thesis"
    moreover have "account_at T E (Some ?r) s ?k = Err (AccountNotFound ?k)"
      using p bincode_fixint.account_at_not_Ok [OF assms(1), of T "Some ?r" s ?k]
      by (auto simp: build_stf_proof_def bind_m_split match_m_split account_at_def
          dest: account_at_NotFound [unfolded account_at_def] split: result.splits core_error.splits)
    ultimately show False
      by (auto simp: account_at_eq bind_res_def map_err_def ok_or_def
          split: if_splits result.splits option.splits)
  qed
  ultimately show ?thesis by blast
qed

theorem deposit_provable_only_if_fresh_witness:
  "\<exists>p. leaf_at (Tip (account_new (hash_of [1]))) p = Some (account_new (dep_to to_alice))"
proof -
  let ?mt = "Tip (account_new (hash_of [1]))"
  from fresh_block_accepted obtain out where
    run: "guest_main ref_externs (block_input fresh_block fresh_bundle) = Ok out"
    by (simp add: guest_main_Ok_iff block_input_def) (simp add: fresh_block_def)
  have "collision_free ref_externs (set [account_data (account_new (hash_of [1])),
      account_data (account_new (hash_of [1])\<lparr>acc_balance := 7\<rparr>)])"
    by (rule collision_free_list) (simp add: evals account_new_def)
  then have "collision_free ref_externs (set (tree_inputs ref_externs ?mt)
      \<union> set (transition_inputs ref_externs (pb_txs fresh_block) (pb_deposits fresh_block)
          (pb_forced_txs fresh_block) fresh_bundle))"
    by (rule collision_free_subset)
      (auto simp: transition_inputs_def fresh_block_def fresh_bundle_def deposit_step_inputs_def
        proof_inputs_def dummy_proof_def to_alice_def apply_deposit_def checked_add_def)
  from deposit_provable_only_if_fresh [OF ref.bincode_fixint_axioms fresh_block_generated run _ _ this]
  show ?thesis by (simp add: fresh_block_def)
qed

end
