(* ===== verification/Bincode.thy ===== *)
theory Bincode
  imports Core_Tree
begin

text \<open>
  The documented format in which \<open>bincode\<close> serializes a \<open>PendingBlock\<close> (fixed-width
  little-endian integers, arrays as they are, vectors behind their length), as a concrete
  instance of the codec the queue store takes as a parameter.
\<close>

section \<open>The interface\<close>

record block_codec =
  ser_block :: "pending_block \<Rightarrow> (bytes, string) result"
  de_block :: "bytes \<Rightarrow> (pending_block, string) result"

locale lossless_codec =
  fixes K :: block_codec
  assumes de_ser: "ser_block K b = Ok v \<Longrightarrow> de_block K v = Ok b"

section \<open>Readers and writers\<close>

text \<open>A reader consumes a prefix of the input; \<open>reads g p\<close>: \<open>g\<close> reads back what \<open>p\<close> wrote.\<close>

type_synonym 'a reader = "bytes \<Rightarrow> ('a \<times> bytes) option"

definition reads :: "'a reader \<Rightarrow> ('a \<Rightarrow> bytes) \<Rightarrow> 'a \<Rightarrow> bool" where
  "reads g p x \<longleftrightarrow> (\<forall>rest. g (p x @ rest) = Some (x, rest))"

definition then_r :: "'a reader \<Rightarrow> ('a \<Rightarrow> 'b reader) \<Rightarrow> 'b reader" where
  "then_r g f bs = (case g bs of None \<Rightarrow> None | Some (x, rest) \<Rightarrow> f x rest)"

definition done_r :: "'a \<Rightarrow> 'a reader" where
  "done_r x bs = Some (x, bs)"

lemma then_r_reads: "reads g p x \<Longrightarrow> then_r g f (p x @ rest) = f x rest"
  by (simp add: reads_def then_r_def)

definition put_u64 :: "u64 \<Rightarrow> bytes" where
  "put_u64 w = rev (be_bytes 8 w)"

definition get_u64 :: "u64 reader" where
  "get_u64 bs = (if length bs < 8 then None else Some (from_le_bytes (take 8 bs), drop 8 bs))"

definition get_hash :: "hash reader" where
  "get_hash bs = (if length bs < 32 then None else Some (hash_of (take 32 bs), drop 32 bs))"

definition get_byte :: "u8 reader" where
  "get_byte bs = (case bs of [] \<Rightarrow> None | b # rest \<Rightarrow> Some (b, rest))"

fun get_items :: "'a reader \<Rightarrow> nat \<Rightarrow> 'a list reader" where
  "get_items g 0 = done_r []"
| "get_items g (Suc n) = then_r g (\<lambda>x. then_r (get_items g n) (\<lambda>xs. done_r (x # xs)))"

definition put_vec :: "('a \<Rightarrow> bytes) \<Rightarrow> 'a list \<Rightarrow> bytes" where
  "put_vec p xs = put_u64 (of_nat (length xs)) @ concat (map p xs)"

definition get_vec :: "'a reader \<Rightarrow> 'a list reader" where
  "get_vec g = then_r get_u64 (\<lambda>n. get_items g (unat n))"

lemma reads_u64: "reads get_u64 put_u64 w"
  by (simp add: reads_def get_u64_def put_u64_def from_le_bytes_def from_be_bytes_be_bytes)

lemma reads_hash: "reads get_hash hash_bytes h"
  by (simp add: reads_def get_hash_def)

lemma reads_byte: "reads get_byte (\<lambda>b. [b]) b"
  by (simp add: reads_def get_byte_def)

lemma get_items_concat:
  "(\<And>x. x \<in> set xs \<Longrightarrow> reads g p x) \<Longrightarrow>
   get_items g (length xs) (concat (map p xs) @ rest) = Some (xs, rest)"
  by (induction xs arbitrary: rest) (simp_all add: done_r_def then_r_reads, simp add: then_r_def done_r_def)

lemma reads_vec:
  assumes "\<And>x. x \<in> set xs \<Longrightarrow> reads g p x" and "length xs < 2 ^ 64"
  shows "reads (get_vec g) (put_vec p) xs"
proof -
  have "unat (of_nat (length xs) :: u64) = length xs"
    using assms(2) by (rule unat_of_nat_u64)
  then show ?thesis
    using assms(1)
    by (simp add: reads_def get_vec_def put_vec_def then_r_reads [OF reads_u64] get_items_concat)
qed

section \<open>The structs of a block\<close>

definition put_tx :: "transaction \<Rightarrow> bytes" where
  "put_tx t = hash_bytes (tx_from t) @ hash_bytes (tx_to t) @ put_u64 (tx_nonce t) @ put_u64 (tx_fee t)
     @ put_u64 (tx_amount t)"

definition get_tx :: "transaction reader" where
  "get_tx = then_r get_hash (\<lambda>f. then_r get_hash (\<lambda>t. then_r get_u64 (\<lambda>n. then_r get_u64 (\<lambda>fee.
     then_r get_u64 (\<lambda>a. done_r \<lparr>tx_from = f, tx_to = t, tx_nonce = n, tx_fee = fee, tx_amount = a\<rparr>)))))"

definition put_deposit :: "deposit \<Rightarrow> bytes" where
  "put_deposit d = hash_bytes (dep_to d) @ put_u64 (dep_amount d) @ put_u64 (dep_timestamp d)"

definition get_deposit :: "deposit reader" where
  "get_deposit = then_r get_hash (\<lambda>t. then_r get_u64 (\<lambda>a. then_r get_u64 (\<lambda>s.
     done_r \<lparr>dep_to = t, dep_amount = a, dep_timestamp = s\<rparr>)))"

definition put_forced :: "forced_tx \<Rightarrow> bytes" where
  "put_forced f = hash_bytes (ftx_from f) @ hash_bytes (ftx_to f) @ put_u64 (ftx_nonce f)
     @ put_u64 (ftx_fee f) @ put_u64 (ftx_amount f) @ put_u64 (ftx_timestamp f)
     @ put_vec (\<lambda>b. [b]) (ftx_l2_calldata f)"

definition get_forced :: "forced_tx reader" where
  "get_forced = then_r get_hash (\<lambda>f. then_r get_hash (\<lambda>t. then_r get_u64 (\<lambda>n. then_r get_u64 (\<lambda>fee.
     then_r get_u64 (\<lambda>a. then_r get_u64 (\<lambda>s. then_r (get_vec get_byte) (\<lambda>c.
     done_r \<lparr>ftx_from = f, ftx_to = t, ftx_nonce = n, ftx_fee = fee, ftx_amount = a,
       ftx_timestamp = s, ftx_l2_calldata = c\<rparr>)))))))"

definition put_block :: "pending_block \<Rightarrow> bytes" where
  "put_block b = put_u64 (block_number b) @ put_vec put_tx (pb_txs b) @ put_vec put_deposit (pb_deposits b)
     @ put_vec put_forced (pb_forced_txs b) @ hash_bytes (pre_state_root b) @ hash_bytes (post_state_root b)"

definition get_block :: "pending_block reader" where
  "get_block = then_r get_u64 (\<lambda>n. then_r (get_vec get_tx) (\<lambda>xs. then_r (get_vec get_deposit) (\<lambda>ds.
     then_r (get_vec get_forced) (\<lambda>fs. then_r get_hash (\<lambda>r. then_r get_hash (\<lambda>r'.
     done_r \<lparr>block_number = n, pb_txs = xs, pb_deposits = ds, pb_forced_txs = fs,
       pre_state_root = r, post_state_root = r'\<rparr>))))))"

lemmas reads_fields = then_r_reads [OF reads_u64] then_r_reads [OF reads_hash]

lemma reads_tx: "reads get_tx put_tx t"
  by (simp add: reads_def get_tx_def put_tx_def reads_fields done_r_def)

lemma reads_deposit: "reads get_deposit put_deposit d"
  by (simp add: reads_def get_deposit_def put_deposit_def reads_fields done_r_def)

lemma reads_forced:
  assumes "length (ftx_l2_calldata f) < 2 ^ 64"
  shows "reads get_forced put_forced f"
proof -
  have "reads (get_vec get_byte) (put_vec (\<lambda>b. [b])) (ftx_l2_calldata f)"
    using reads_byte assms by (rule reads_vec)
  then show ?thesis
    unfolding reads_def [of get_forced]
    by (simp add: get_forced_def put_forced_def reads_fields done_r_def then_r_reads)
qed

text \<open>A Rust vector has fewer than \<open>2^64\<close> elements.\<close>

definition fits :: "pending_block \<Rightarrow> bool" where
  "fits b \<longleftrightarrow> length (pb_txs b) < 2 ^ 64 \<and> length (pb_deposits b) < 2 ^ 64
     \<and> length (pb_forced_txs b) < 2 ^ 64 \<and> (\<forall>f \<in> set (pb_forced_txs b). length (ftx_l2_calldata f) < 2 ^ 64)"

lemma reads_block:
  assumes "fits b"
  shows "reads get_block put_block b"
proof -
  have "reads (get_vec get_tx) (put_vec put_tx) (pb_txs b)"
    "reads (get_vec get_deposit) (put_vec put_deposit) (pb_deposits b)"
    "reads (get_vec get_forced) (put_vec put_forced) (pb_forced_txs b)"
    using assms by (auto simp: fits_def intro!: reads_vec reads_tx reads_deposit reads_forced)
  then show ?thesis
    unfolding reads_def [of get_block]
    by (simp add: get_block_def put_block_def reads_fields done_r_def then_r_reads)
qed

definition ref_codec :: block_codec where
  "ref_codec = \<lparr>ser_block = (\<lambda>b. if fits b then Ok (put_block b) else Err ''SizeLimit''),
     de_block = (\<lambda>bs. case get_block bs of Some (b, _) \<Rightarrow> Ok b | None \<Rightarrow> Err ''UnexpectedEof'')\<rparr>"

interpretation ref: lossless_codec ref_codec
proof unfold_locales
  fix b v assume "ser_block ref_codec b = Ok v"
  then have "fits b" and v: "v = put_block b" by (auto simp: ref_codec_def split: if_splits)
  from reads_block [OF this(1)] have "get_block (put_block b @ []) = Some (b, [])"
    unfolding reads_def by blast
  then show "de_block ref_codec v = Ok b" by (simp add: ref_codec_def v)
qed

end
