(* ===== verification/Queue_Store.thy ===== *)
theory Queue_Store
  imports Bincode "HOL-Library.List_Lexorder"
begin

text \<open>
  \<^verbatim>\<open>crates/sequencer/src/persistence.rs\<close>: the \<open>BlockQueueStore\<close>, three column families
  of a RocksDB database that hold the pending blocks, the failed blocks and the block
  counter. RocksDB is a parameter, the record \<open>kv_ops\<close>; the store is shown to implement a
  queue ordered by block number.
\<close>

section \<open>The code\<close>

text \<open>
  The calls on the database: whether a column family exists, point writes and reads, the
  first entry of an iteration from the start, and an atomic batch of writes.
\<close>

record 'd kv_ops =
  kv_cf_handle :: "string \<Rightarrow> 'd \<Rightarrow> bool"
  kv_put :: "string \<Rightarrow> bytes \<Rightarrow> bytes \<Rightarrow> ('d, unit, string) action"
  kv_get :: "string \<Rightarrow> bytes \<Rightarrow> ('d, bytes option, string) action"
  kv_delete :: "string \<Rightarrow> bytes \<Rightarrow> ('d, unit, string) action"
  kv_first :: "string \<Rightarrow> ('d, (bytes \<times> bytes) option, string) action"
  kv_write :: "(string \<times> bytes \<times> bytes) list \<Rightarrow> ('d, unit, string) action"

abbreviation PENDING_CF_NAME :: string where "PENDING_CF_NAME \<equiv> ''pending_blocks''"
abbreviation FAILED_CF_NAME :: string where "FAILED_CF_NAME \<equiv> ''failed_blocks''"
abbreviation META_CF_NAME :: string where "META_CF_NAME \<equiv> ''meta''"

definition ascii :: "string \<Rightarrow> bytes" where
  "ascii s = map (\<lambda>c. of_nat (of_char c)) s"

definition cf_handle :: "'d kv_ops \<Rightarrow> string \<Rightarrow> string \<Rightarrow> ('d, unit, anyhow) action" where
  "cf_handle D cf msg d = (if kv_cf_handle D cf d then (Ok (), d) else (Err [msg], d))"

definition serialize :: "block_codec \<Rightarrow> pending_block \<Rightarrow> string \<Rightarrow> ('d, bytes, anyhow) action" where
  "serialize K block msg = lift_m (map_err (\<lambda>e. [msg, e]) (ser_block K block))"

definition push_pending :: "'d kv_ops \<Rightarrow> block_codec \<Rightarrow> pending_block \<Rightarrow> ('d, unit, anyhow) action" where
  "push_pending D K block =
     bind_m (cf_handle D PENDING_CF_NAME ''push_pending pending_cf err'') (\<lambda>_.
     let key = be_bytes 8 (block_number block) in
     bind_m (serialize K block ''push_pending serialize err'') (\<lambda>val.
     context_m ''push_pending put_cf err'' (anyhow_m (kv_put D PENDING_CF_NAME key val))))"

definition peek_pending :: "'d kv_ops \<Rightarrow> block_codec \<Rightarrow> ('d, pending_block option, anyhow) action" where
  "peek_pending D K =
     bind_m (cf_handle D PENDING_CF_NAME ''peek_pending pending_cf err'') (\<lambda>_.
     bind_m (map_err_m (\<lambda>e. [''peek_pending iterator err: '' @ e]) (kv_first D PENDING_CF_NAME)) (\<lambda>entry.
     case entry of
       Some (_, val) \<Rightarrow>
         bind_m (lift_m (map_err (\<lambda>e. [''failed to deserialize block'', e]) (de_block K val)))
           (\<lambda>block. return_m (Some block))
     | None \<Rightarrow> return_m None))"

definition remove_pending :: "'d kv_ops \<Rightarrow> u64 \<Rightarrow> ('d, unit, anyhow) action" where
  "remove_pending D n =
     bind_m (cf_handle D PENDING_CF_NAME ''remove_pending pending_cf err'') (\<lambda>_.
     let key = be_bytes 8 n in
     context_m ''remove_pending delete_cf err'' (anyhow_m (kv_delete D PENDING_CF_NAME key)))"

definition push_failed :: "'d kv_ops \<Rightarrow> block_codec \<Rightarrow> pending_block \<Rightarrow> ('d, unit, anyhow) action" where
  "push_failed D K block =
     bind_m (cf_handle D FAILED_CF_NAME ''push_failed failed_cf err'') (\<lambda>_.
     let key = be_bytes 8 (block_number block) in
     bind_m (serialize K block ''push_failed serialize err'') (\<lambda>val.
     context_m ''push_failed put_cf err'' (anyhow_m (kv_put D FAILED_CF_NAME key val))))"

definition get_block_counter :: "'d kv_ops \<Rightarrow> ('d, u64, anyhow) action" where
  "get_block_counter D =
     bind_m (cf_handle D META_CF_NAME ''get_block_counter meta_cf err'') (\<lambda>_.
     let key = ascii ''block_counter'' in
     bind_m (anyhow_m (kv_get D META_CF_NAME key)) (\<lambda>entry.
     case entry of
       Some val \<Rightarrow> return_m (from_be_bytes (if length val = 8 then val else replicate 8 0))
     | None \<Rightarrow> return_m 0))"

definition set_block_counter :: "'d kv_ops \<Rightarrow> u64 \<Rightarrow> ('d, unit, anyhow) action" where
  "set_block_counter D n =
     bind_m (cf_handle D META_CF_NAME ''set_block_counter meta_cf err'') (\<lambda>_.
     let key = ascii ''block_counter''; val = be_bytes 8 n in
     context_m ''set_block_counter put_cf err'' (anyhow_m (kv_put D META_CF_NAME key val)))"

definition commit_optimistic_block ::
  "'d kv_ops \<Rightarrow> block_codec \<Rightarrow> pending_block \<Rightarrow> u64 \<Rightarrow> ('d, unit, anyhow) action" where
  "commit_optimistic_block D K block next_block_number =
     bind_m (cf_handle D PENDING_CF_NAME ''commit_optimistic_block pending_cf err'') (\<lambda>_.
     bind_m (cf_handle D META_CF_NAME ''commit_optimistic_block meta_cf err'') (\<lambda>_.
     let block_key = be_bytes 8 (block_number block) in
     bind_m (serialize K block ''commit_optimistic_block serialize err'') (\<lambda>block_value.
     let counter_key = ascii ''block_counter''; counter_value = be_bytes 8 next_block_number;
         batch = [(PENDING_CF_NAME, block_key, block_value), (META_CF_NAME, counter_key, counter_value)] in
     context_m ''commit_optimistic_block write_batch err'' (anyhow_m (kv_write D batch)))))"

text \<open>
  \<open>open_db\<close>, over \<open>DB::open_cf_descriptors\<close>: the column families are created where they are
  missing.
\<close>

record db_options =
  create_if_missing :: bool
  create_missing_column_families :: bool

type_synonym 'd db_open = "db_options \<Rightarrow> string \<Rightarrow> string list \<Rightarrow> ('d, string) result"

definition open_db :: "'d db_open \<Rightarrow> string \<Rightarrow> ('d, anyhow) result" where
  "open_db open_cf_descriptors path =
     (let opts = \<lparr>create_if_missing = True, create_missing_column_families = True\<rparr>;
          cf_descriptors = [''default'', META_CF_NAME, PENDING_CF_NAME, FAILED_CF_NAME]
      in map_err (\<lambda>e. [''open_db open_cf_descriptors err'', e]) (open_cf_descriptors opts path cf_descriptors))"

section \<open>Keys are ordered like block numbers\<close>

lemma be_bytes_less_iff:
  fixes v w :: "'a::len word"
  shows "be_bytes n v < be_bytes n w \<longleftrightarrow> unat v mod 2 ^ (8 * n) < unat w mod 2 ^ (8 * n)"
proof (induction n)
  case (Suc n)
  let ?m = "2 ^ (8 * n) :: nat"
  have byte: "unat (ucast (drop_bit (8 * n) x) :: u8) = unat x div ?m mod 256" for x :: "'a word"
    unfolding unsigned_ucast_eq unat_drop_bit_eq by (simp add: drop_bit_eq_div take_bit_eq_mod)
  have split: "unat x mod 2 ^ (8 * Suc n) = (unat x div ?m mod 256) * ?m + unat x mod ?m" for x :: "'a word"
    using mod_mult2_eq [of "unat x" ?m 256] by (simp add: power_add mult.commute)
  have small: "unat x mod ?m < ?m" for x :: "'a word" by simp
  have lex: "p * ?m + a < q * ?m + b \<longleftrightarrow> p < q \<or> p = q \<and> a < b" if "a < ?m" "b < ?m" for p q a b :: nat
  proof (cases p q rule: linorder_cases)
    case less
    then have "Suc p * ?m \<le> q * ?m" by (simp only: mult_le_mono1 Suc_leI)
    with less that show ?thesis by simp
  next
    case greater
    then have "Suc q * ?m \<le> p * ?m" by (simp only: mult_le_mono1 Suc_leI)
    with greater that show ?thesis by simp
  qed simp
  show ?case
    unfolding be_bytes_Suc Cons_less_Cons Suc.IH split lex [OF small small]
    by (simp add: word_less_nat_alt word_unat_eq_iff byte)
qed simp

lemma be_bytes64_less_iff: "be_bytes 8 v < be_bytes 8 w \<longleftrightarrow> v < (w :: u64)"
  using unat_u64_less [of v] unat_u64_less [of w] be_bytes_less_iff [of 8 v w]
  by (simp add: word_less_nat_alt)

lemma be_bytes64_le_iff: "be_bytes 8 v \<le> be_bytes 8 w \<longleftrightarrow> v \<le> (w :: u64)"
  using be_bytes64_less_iff [of w v] by (simp add: not_less [symmetric])

section \<open>What the database promises\<close>

text \<open>
  \<open>view d cf\<close> is the content of a column family. A write that returns \<open>Ok\<close> is visible, a
  batch is visible as a whole, a call that fails and every read leave the content alone, and
  an iteration starts at the least key.
\<close>

type_synonym content = "string \<Rightarrow> bytes \<Rightarrow> bytes option"

definition put_in :: "string \<times> bytes \<times> bytes \<Rightarrow> content \<Rightarrow> content" where
  "put_in = (\<lambda>(cf, k, v) w. w(cf := (w cf)(k \<mapsto> v)))"

lemma put_in_simps [simp]: "put_in (cf, k, v) w cf' = (if cf' = cf then (w cf)(k \<mapsto> v) else w cf')"
  by (simp add: put_in_def)

locale kv_store =
  fixes D :: "'d kv_ops" and view :: "'d \<Rightarrow> content"
  assumes put_view: "view (snd (kv_put D cf k v d))
      = (if fst (kv_put D cf k v d) = Ok () then put_in (cf, k, v) (view d) else view d)"
    and get_value: "kv_get D cf k d = (Ok x, d') \<Longrightarrow> x = view d cf k"
    and get_view: "view (snd (kv_get D cf k d)) = view d"
    and delete_view: "view (snd (kv_delete D cf k d))
      = (if fst (kv_delete D cf k d) = Ok () then (view d)(cf := (view d cf)(k := None)) else view d)"
    and first_Some: "kv_first D cf d = (Ok (Some (k, v)), d') \<Longrightarrow>
      view d cf k = Some v \<and> (\<forall>k'. view d cf k' \<noteq> None \<longrightarrow> k \<le> k')"
    and first_None: "kv_first D cf d = (Ok None, d') \<Longrightarrow> view d cf k = None"
    and first_view: "view (snd (kv_first D cf d)) = view d"
    and write_view: "view (snd (kv_write D ops d))
      = (if fst (kv_write D ops d) = Ok () then fold put_in ops (view d) else view d)"

text \<open>The database together with the codec: what \<open>BlockQueueStore\<close> is built on.\<close>

locale block_store = kv_store D view + lossless_codec K
  for D :: "'d kv_ops" and view :: "'d \<Rightarrow> content" and K :: block_codec

text \<open>
  What opening promises: the families asked for exist, and no later call drops a family.
\<close>

definition families :: "'d kv_ops \<Rightarrow> 'd \<Rightarrow> bool" where
  "families D d \<longleftrightarrow> (\<forall>cf \<in> {META_CF_NAME, PENDING_CF_NAME, FAILED_CF_NAME}. kv_cf_handle D cf d)"

locale opened_store = kv_store D view for D :: "'d kv_ops" and view :: "'d \<Rightarrow> content" +
  fixes open_cf :: "'d db_open"
  assumes open_handle: "open_cf opts path cfs = Ok d \<Longrightarrow> create_missing_column_families opts \<Longrightarrow>
      cf \<in> set cfs \<Longrightarrow> kv_cf_handle D cf d"
    and handle_put: "kv_cf_handle D cf d \<Longrightarrow> kv_cf_handle D cf (snd (kv_put D cf' k v d))"
    and handle_get: "kv_cf_handle D cf d \<Longrightarrow> kv_cf_handle D cf (snd (kv_get D cf' k d))"
    and handle_delete: "kv_cf_handle D cf d \<Longrightarrow> kv_cf_handle D cf (snd (kv_delete D cf' k d))"
    and handle_first: "kv_cf_handle D cf d \<Longrightarrow> kv_cf_handle D cf (snd (kv_first D cf' d))"
    and handle_write: "kv_cf_handle D cf d \<Longrightarrow> kv_cf_handle D cf (snd (kv_write D ops d))"
begin

lemma open_db_families: "open_db open_cf path = Ok d \<Longrightarrow> families D d"
  unfolding families_def open_db_def Let_def map_err_Ok_iff
  using open_handle [of _ path _ d] by simp

lemma cf_handle_families:
  "families D d \<Longrightarrow> cf \<in> {META_CF_NAME, PENDING_CF_NAME, FAILED_CF_NAME} \<Longrightarrow> cf_handle D cf msg d = (Ok (), d)"
  by (auto simp: families_def cf_handle_def)

lemma get_block_counter_runs:
  "families D d \<Longrightarrow> fst (kv_get D META_CF_NAME (ascii ''block_counter'') d) = Ok x \<Longrightarrow>
   \<exists>n. fst (get_block_counter D d) = Ok n"
  by (cases x) (simp_all add: get_block_counter_def bind_m_split cf_handle_families anyhow_m_def Let_def)

lemma keeps_families:
  "keeps (families D) (push_pending D K b)" "keeps (families D) (peek_pending D K)"
  "keeps (families D) (remove_pending D n)" "keeps (families D) (push_failed D K b)"
  "keeps (families D) (get_block_counter D)" "keeps (families D) (set_block_counter D n)"
  "keeps (families D) (commit_optimistic_block D K b n)"
  unfolding push_pending_def peek_pending_def remove_pending_def push_failed_def get_block_counter_def
    set_block_counter_def commit_optimistic_block_def Let_def serialize_def context_m_def anyhow_m_def
  by (intro keeps_bind keeps_map_err keeps_lift;
      auto simp: keeps_def families_def cf_handle_def bind_m_split
        intro: handle_put handle_get handle_delete handle_first handle_write split: option.splits result.splits)+

end

section \<open>The queue it implements\<close>

text \<open>
  The abstract state: the pending and the failed blocks by number, and the counter. The store
  is well-formed when every entry decodes to a block filed under its own number.
\<close>

record queue_state =
  q_pending :: "u64 \<Rightarrow> pending_block option"
  q_failed :: "u64 \<Rightarrow> pending_block option"
  q_counter :: u64

definition blocks_in :: "block_codec \<Rightarrow> (bytes \<Rightarrow> bytes option) \<Rightarrow> u64 \<Rightarrow> pending_block option" where
  "blocks_in K c n = (case c (be_bytes 8 n) of None \<Rightarrow> None
     | Some v \<Rightarrow> (case de_block K v of Ok b \<Rightarrow> Some b | _ \<Rightarrow> None))"

definition counter_in :: "(bytes \<Rightarrow> bytes option) \<Rightarrow> u64" where
  "counter_in c = (case c (ascii ''block_counter'') of None \<Rightarrow> 0
     | Some v \<Rightarrow> from_be_bytes (if length v = 8 then v else replicate 8 0))"

definition queue_of :: "block_codec \<Rightarrow> content \<Rightarrow> queue_state" where
  "queue_of K w = \<lparr>q_pending = blocks_in K (w PENDING_CF_NAME), q_failed = blocks_in K (w FAILED_CF_NAME),
     q_counter = counter_in (w META_CF_NAME)\<rparr>"

definition filed :: "block_codec \<Rightarrow> (bytes \<Rightarrow> bytes option) \<Rightarrow> bool" where
  "filed K c \<longleftrightarrow> (\<forall>k v. c k = Some v \<longrightarrow> (\<exists>b. de_block K v = Ok b \<and> k = be_bytes 8 (block_number b)))"

definition store_ok :: "block_codec \<Rightarrow> content \<Rightarrow> bool" where
  "store_ok K w \<longleftrightarrow> filed K (w PENDING_CF_NAME) \<and> filed K (w FAILED_CF_NAME)"

lemma be_bytes64_eq_iff [simp]: "be_bytes 8 v = be_bytes 8 w \<longleftrightarrow> v = (w :: u64)"
  by (auto dest: be_bytes64_inj)

lemma blocks_in_upd:
  "de_block K v = Ok b \<Longrightarrow> blocks_in K (c(be_bytes 8 n \<mapsto> v)) = (blocks_in K c)(n \<mapsto> b)"
  by (auto simp: blocks_in_def fun_eq_iff)

lemma blocks_in_del: "blocks_in K (c(be_bytes 8 n := None)) = (blocks_in K c)(n := None)"
  by (auto simp: blocks_in_def fun_eq_iff)

lemma counter_in_upd: "counter_in (c(ascii ''block_counter'' \<mapsto> be_bytes 8 n)) = n"
  by (simp add: counter_in_def from_be_bytes_be_bytes)

lemma filed_upd:
  "filed K c \<Longrightarrow> de_block K v = Ok b \<Longrightarrow> filed K (c(be_bytes 8 (block_number b) \<mapsto> v))"
  by (auto simp: filed_def)

lemma filed_del: "filed K c \<Longrightarrow> filed K (c(k := None))"
  by (auto simp: filed_def)

lemma filed_pending_number:
  "filed K c \<Longrightarrow> blocks_in K c n = Some b \<Longrightarrow> block_number b = n"
  by (fastforce simp: filed_def blocks_in_def split: option.splits result.splits)

text \<open>What the operations do to the queue.\<close>

definition enqueue :: "pending_block \<Rightarrow> queue_state \<Rightarrow> queue_state" where
  "enqueue b q = q\<lparr>q_pending := (q_pending q)(block_number b \<mapsto> b)\<rparr>"

definition dequeue :: "u64 \<Rightarrow> queue_state \<Rightarrow> queue_state" where
  "dequeue n q = q\<lparr>q_pending := (q_pending q)(n := None)\<rparr>"

definition record_failure :: "pending_block \<Rightarrow> queue_state \<Rightarrow> queue_state" where
  "record_failure b q = q\<lparr>q_failed := (q_failed q)(block_number b \<mapsto> b)\<rparr>"

text \<open>\<open>front q b\<close>: \<open>b\<close> is the pending block with the least number.\<close>

definition front :: "queue_state \<Rightarrow> pending_block \<Rightarrow> bool" where
  "front q b \<longleftrightarrow> q_pending q (block_number b) = Some b
     \<and> (\<forall>n. q_pending q n \<noteq> None \<longrightarrow> block_number b \<le> n)"

lemmas store_simps = bind_m_split cf_handle_def serialize_def context_m_def anyhow_m_def Let_def

text \<open>
  A database in which no call fails from here: the families exist, and each call returns \<open>Ok\<close>.
\<close>

definition working :: "'d kv_ops \<Rightarrow> 'd \<Rightarrow> bool" where
  "working D d \<longleftrightarrow> families D d \<and> (\<forall>cf k v. fst (kv_put D cf k v d) = Ok ())
     \<and> (\<forall>cf k. fst (kv_delete D cf k d) = Ok ()) \<and> (\<forall>ops. fst (kv_write D ops d) = Ok ())
     \<and> (\<forall>cf k. \<exists>x. fst (kv_get D cf k d) = Ok x) \<and> (\<forall>cf. \<exists>x. fst (kv_first D cf d) = Ok x)"

lemma working_handle:
  "working D d \<Longrightarrow> cf \<in> {META_CF_NAME, PENDING_CF_NAME, FAILED_CF_NAME} \<Longrightarrow> kv_cf_handle D cf d"
  by (auto simp: working_def families_def)

lemma working_writes:
  assumes "working D d" and "ser_block K b = Ok v"
  shows "fst (push_pending D K b d) = Ok ()" and "fst (push_failed D K b d) = Ok ()"
    and "fst (remove_pending D n d) = Ok ()" and "fst (set_block_counter D n d) = Ok ()"
    and "fst (commit_optimistic_block D K b n d) = Ok ()"
  using working_handle [OF assms(1)] assms
  by (simp_all add: push_pending_def push_failed_def remove_pending_def set_block_counter_def
      commit_optimistic_block_def store_simps working_def)

context block_store
begin

abbreviation (input) queue_at :: "'d \<Rightarrow> queue_state" where
  "queue_at d \<equiv> queue_of K (view d)"

lemma push_pending_queue:
  assumes "push_pending D K b d = (r, d')"
  shows "queue_at d' = (if r = Ok () then enqueue b (queue_at d) else queue_at d)"
    and "store_ok K (view d) \<Longrightarrow> store_ok K (view d')"
proof -
  have "view d' = (if r = Ok () then (case ser_block K b of
      Ok v \<Rightarrow> put_in (PENDING_CF_NAME, be_bytes 8 (block_number b), v) (view d)) else view d)
    \<and> (r = Ok () \<longrightarrow> (\<exists>v. ser_block K b = Ok v))"
    using assms put_view
    by (cases "kv_cf_handle D PENDING_CF_NAME d"; cases "ser_block K b")
      (auto simp: push_pending_def store_simps)
  then show "queue_at d' = (if r = Ok () then enqueue b (queue_at d) else queue_at d)"
    and "store_ok K (view d) \<Longrightarrow> store_ok K (view d')"
    using de_ser
    by (auto simp: queue_of_def enqueue_def blocks_in_upd store_ok_def filed_upd)
qed

lemma push_failed_queue:
  assumes "push_failed D K b d = (r, d')"
  shows "queue_at d' = (if r = Ok () then record_failure b (queue_at d) else queue_at d)"
    and "store_ok K (view d) \<Longrightarrow> store_ok K (view d')"
proof -
  have "view d' = (if r = Ok () then (case ser_block K b of
      Ok v \<Rightarrow> put_in (FAILED_CF_NAME, be_bytes 8 (block_number b), v) (view d)) else view d)
    \<and> (r = Ok () \<longrightarrow> (\<exists>v. ser_block K b = Ok v))"
    using assms put_view
    by (cases "kv_cf_handle D FAILED_CF_NAME d"; cases "ser_block K b")
      (auto simp: push_failed_def store_simps)
  then show "queue_at d' = (if r = Ok () then record_failure b (queue_at d) else queue_at d)"
    and "store_ok K (view d) \<Longrightarrow> store_ok K (view d')"
    using de_ser
    by (auto simp: queue_of_def record_failure_def blocks_in_upd store_ok_def filed_upd)
qed

lemma remove_pending_queue:
  assumes "remove_pending D n d = (r, d')"
  shows "queue_at d' = (if r = Ok () then dequeue n (queue_at d) else queue_at d)"
    and "store_ok K (view d) \<Longrightarrow> store_ok K (view d')"
proof -
  have "view d' = (if r = Ok () then (view d)(PENDING_CF_NAME := (view d PENDING_CF_NAME)(be_bytes 8 n := None))
      else view d)"
    using assms delete_view
    by (cases "kv_cf_handle D PENDING_CF_NAME d") (auto simp: remove_pending_def store_simps)
  then show "queue_at d' = (if r = Ok () then dequeue n (queue_at d) else queue_at d)"
    and "store_ok K (view d) \<Longrightarrow> store_ok K (view d')"
    by (simp_all add: queue_of_def dequeue_def blocks_in_del store_ok_def filed_del)
qed

lemma set_block_counter_queue:
  assumes "set_block_counter D n d = (r, d')"
  shows "queue_at d' = (if r = Ok () then (queue_at d)\<lparr>q_counter := n\<rparr> else queue_at d)"
    and "store_ok K (view d) \<Longrightarrow> store_ok K (view d')"
proof -
  have "view d' = (if r = Ok () then put_in (META_CF_NAME, ascii ''block_counter'', be_bytes 8 n) (view d)
      else view d)"
    using assms put_view
    by (cases "kv_cf_handle D META_CF_NAME d") (auto simp: set_block_counter_def store_simps)
  then show "queue_at d' = (if r = Ok () then (queue_at d)\<lparr>q_counter := n\<rparr> else queue_at d)"
    and "store_ok K (view d) \<Longrightarrow> store_ok K (view d')"
    by (simp_all add: queue_of_def counter_in_upd store_ok_def)
qed

lemma commit_optimistic_block_queue:
  assumes "commit_optimistic_block D K b n d = (r, d')"
  shows "queue_at d' = (if r = Ok () then enqueue b ((queue_at d)\<lparr>q_counter := n\<rparr>) else queue_at d)"
    and "store_ok K (view d) \<Longrightarrow> store_ok K (view d')"
proof -
  have "view d' = (if r = Ok () then (case ser_block K b of
      Ok v \<Rightarrow> put_in (META_CF_NAME, ascii ''block_counter'', be_bytes 8 n)
        (put_in (PENDING_CF_NAME, be_bytes 8 (block_number b), v) (view d))) else view d)
    \<and> (r = Ok () \<longrightarrow> (\<exists>v. ser_block K b = Ok v))"
    using assms write_view
    by (cases "kv_cf_handle D PENDING_CF_NAME d"; cases "kv_cf_handle D META_CF_NAME d"; cases "ser_block K b")
      (auto simp: commit_optimistic_block_def store_simps)
  then show "queue_at d' = (if r = Ok () then enqueue b ((queue_at d)\<lparr>q_counter := n\<rparr>) else queue_at d)"
    and "store_ok K (view d) \<Longrightarrow> store_ok K (view d')"
    using de_ser
    by (auto simp: queue_of_def enqueue_def blocks_in_upd counter_in_upd store_ok_def filed_upd)
qed

lemma get_block_counter_queue:
  assumes "get_block_counter D d = (r, d')"
  shows "view d' = view d" and "r = Ok n \<Longrightarrow> n = q_counter (queue_at d)"
proof -
  show "view d' = view d"
    using assms get_view
    by (auto simp: get_block_counter_def store_simps split: if_splits result.splits option.splits)
  assume "r = Ok n"
  with assms obtain x where x: "fst (kv_get D META_CF_NAME (ascii ''block_counter'') d) = Ok x"
    and n: "n = (case x of None \<Rightarrow> 0 | Some v \<Rightarrow> from_be_bytes (if length v = 8 then v else replicate 8 0))"
    by (auto simp: get_block_counter_def store_simps split: if_splits result.splits option.splits)
  from x have "x = view d META_CF_NAME (ascii ''block_counter'')"
    by (intro get_value) (auto simp: prod_eq_iff)
  with n show "n = q_counter (queue_at d)"
    by (simp add: queue_of_def counter_in_def)
qed

lemma peek_pending_view: "peek_pending D K d = (r, d') \<Longrightarrow> view d' = view d"
  using first_view
  by (auto simp: peek_pending_def store_simps split: if_splits result.splits option.splits)

lemma peek_pending_queue:
  assumes "peek_pending D K d = (r, d')" and "store_ok K (view d)"
  shows "view d' = view d" and "r = Ok None \<Longrightarrow> q_pending (queue_at d) = Map.empty"
    and "r = Ok (Some b) \<Longrightarrow> front (queue_at d) b"
proof -
  show "view d' = view d" using assms(1) by (rule peek_pending_view)
  show "q_pending (queue_at d) = Map.empty" if "r = Ok None"
  proof -
    from assms(1) that obtain d1 where "kv_first D PENDING_CF_NAME d = (Ok None, d1)"
      by (cases "kv_first D PENDING_CF_NAME d")
        (auto simp: peek_pending_def store_simps split: if_splits result.splits option.splits)
    from first_None [OF this] show ?thesis
      by (simp add: queue_of_def blocks_in_def fun_eq_iff)
  qed
  show "front (queue_at d) b" if r: "r = Ok (Some b)"
  proof -
    from assms(1) r obtain k v d1 where f: "kv_first D PENDING_CF_NAME d = (Ok (Some (k, v)), d1)"
      and de: "de_block K v = Ok b"
      by (cases "kv_first D PENDING_CF_NAME d")
        (auto simp: peek_pending_def store_simps split: if_splits result.splits option.splits)
    from first_Some [OF f] have v: "view d PENDING_CF_NAME k = Some v"
      and least: "\<And>k'. view d PENDING_CF_NAME k' \<noteq> None \<Longrightarrow> k \<le> k'" by blast+
    from assms(2) v de have k: "k = be_bytes 8 (block_number b)"
      by (fastforce simp: store_ok_def filed_def)
    have "block_number b \<le> n" if "q_pending (queue_at d) n \<noteq> None" for n
      using that least [of "be_bytes 8 n"]
      by (auto simp: queue_of_def blocks_in_def k be_bytes64_le_iff split: option.splits)
    with v de k show ?thesis
      by (auto simp: front_def queue_of_def blocks_in_def)
  qed
qed

lemma working_reads:
  assumes "working D d"
  shows "\<exists>n. fst (get_block_counter D d) = Ok n"
    and "store_ok K (view d) \<Longrightarrow> \<exists>x. fst (peek_pending D K d) = Ok x"
proof -
  note handles = working_handle [OF assms]
  from assms obtain x where "fst (kv_get D META_CF_NAME (ascii ''block_counter'') d) = Ok x"
    unfolding working_def by blast
  then show "\<exists>n. fst (get_block_counter D d) = Ok n"
    using handles by (auto simp: get_block_counter_def store_simps split: option.splits)
  assume ok: "store_ok K (view d)"
  from assms obtain e d1 where e: "kv_first D PENDING_CF_NAME d = (Ok e, d1)"
    unfolding working_def by (metis prod.collapse)
  show "\<exists>x. fst (peek_pending D K d) = Ok x"
  proof (cases e)
    case (Some kv)
    with first_Some [of PENDING_CF_NAME d "fst kv" "snd kv" d1] e ok
    obtain b where "de_block K (snd kv) = Ok b"
      by (fastforce simp: store_ok_def filed_def)
    with Some e handles show ?thesis by (cases kv) (simp add: peek_pending_def store_simps)
  qed (use e handles in \<open>simp add: peek_pending_def store_simps\<close>)
qed

end

section \<open>A reference database\<close>

text \<open>Column families as association lists, all of them present.\<close>

type_synonym ref_db = "string \<Rightarrow> (bytes \<times> bytes) list"

definition ref_put :: "string \<times> bytes \<times> bytes \<Rightarrow> ref_db \<Rightarrow> ref_db" where
  "ref_put = (\<lambda>(cf, k, v) d. d(cf := AList.update k v (d cf)))"

definition ref_kv :: "ref_db kv_ops" where
  "ref_kv =
     \<lparr>kv_cf_handle = (\<lambda>cf d. True),
      kv_put = (\<lambda>cf k v d. (Ok (), ref_put (cf, k, v) d)),
      kv_get = (\<lambda>cf k d. (Ok (map_of (d cf) k), d)),
      kv_delete = (\<lambda>cf k d. (Ok (), d(cf := AList.delete k (d cf)))),
      kv_first = (\<lambda>cf d. (Ok (case d cf of [] \<Rightarrow> None
        | e # es \<Rightarrow> (let k = fst (arg_min_list fst (e # es)) in map_option (Pair k) (map_of (e # es) k))), d)),
      kv_write = (\<lambda>ops d. (Ok (), fold ref_put ops d))\<rparr>"

definition ref_view :: "ref_db \<Rightarrow> content" where
  "ref_view d cf = map_of (d cf)"

lemma ref_view_put: "ref_view (ref_put op d) = put_in op (ref_view d)"
  by (cases op) (auto simp: ref_view_def ref_put_def fun_eq_iff update_conv)

lemma ref_view_fold: "ref_view (fold ref_put ops d) = fold put_in ops (ref_view d)"
  by (induction ops arbitrary: d) (simp_all add: ref_view_put)

lemma arg_min_fst:
  fixes es :: "(bytes \<times> bytes) list"
  assumes "es \<noteq> []"
  shows "map_of es (fst (arg_min_list fst es)) \<noteq> None"
    and "map_of es k \<noteq> None \<Longrightarrow> fst (arg_min_list fst es) \<le> k"
proof -
  have "arg_min_list fst es \<in> set es" using assms by (rule arg_min_list_in)
  then show "map_of es (fst (arg_min_list fst es)) \<noteq> None"
    by (auto simp: map_of_eq_None_iff)
  assume "map_of es k \<noteq> None"
  then have "k \<in> fst ` set es" by (auto simp: map_of_eq_None_iff)
  then show "fst (arg_min_list fst es) \<le> k"
    using f_arg_min_list_f [OF assms, of fst] by simp
qed

interpretation ref: block_store ref_kv ref_view ref_codec
proof unfold_locales
  fix cf k v d d' show "ref_view d cf k = Some v \<and> (\<forall>k'. ref_view d cf k' \<noteq> None \<longrightarrow> k \<le> k')"
    if "kv_first ref_kv cf d = (Ok (Some (k, v)), d')"
    using that arg_min_fst [of "d cf"]
    by (cases "d cf") (auto simp: ref_kv_def ref_view_def Let_def)
next
  fix cf d d' k show "ref_view d cf k = None" if "kv_first ref_kv cf d = (Ok None, d')"
    using that arg_min_fst(1) [of "d cf"]
    by (cases "d cf") (auto simp: ref_kv_def ref_view_def Let_def)
qed (simp_all add: ref_kv_def ref_view_put ref_view_fold,
    simp_all add: ref_view_def fun_eq_iff delete_conv)

text \<open>A fresh database.\<close>

definition ref_open :: "ref_db db_open" where
  "ref_open opts path cfs = Ok (\<lambda>_. [])"

interpretation ref: opened_store ref_kv ref_view ref_open
  by unfold_locales (simp_all add: ref_kv_def)

section \<open>Properties\<close>

text \<open>
C14. The block queue store implements a queue of blocks by number: each writing operation that
  returns \<open>Ok\<close> does exactly its update of the pending blocks, the failed blocks and the
  counter, the two writes of \<open>commit_optimistic_block\<close> together; one that fails changes
  nothing of the three; every stored block stays filed under its own number. The two reads
  change nothing: \<open>get_block_counter\<close> returns the counter, and \<open>peek_pending\<close> the pending block
  with the least number, or none only if none is pending. On a working database a block that
  serializes makes no operation fail.
\<close>
theorem block_store_refines_queue:
  assumes "block_store D view K"
  shows "(push_pending D K b d = (r, d') \<longrightarrow>
        queue_of K (view d') = (if r = Ok () then enqueue b (queue_of K (view d)) else queue_of K (view d))
        \<and> (store_ok K (view d) \<longrightarrow> store_ok K (view d')))
    \<and> (push_failed D K b d = (r, d') \<longrightarrow>
        queue_of K (view d') = (if r = Ok () then record_failure b (queue_of K (view d)) else queue_of K (view d))
        \<and> (store_ok K (view d) \<longrightarrow> store_ok K (view d')))
    \<and> (remove_pending D n d = (r, d') \<longrightarrow>
        queue_of K (view d') = (if r = Ok () then dequeue n (queue_of K (view d)) else queue_of K (view d))
        \<and> (store_ok K (view d) \<longrightarrow> store_ok K (view d')))
    \<and> (set_block_counter D n d = (r, d') \<longrightarrow>
        queue_of K (view d') = (if r = Ok () then (queue_of K (view d))\<lparr>q_counter := n\<rparr> else queue_of K (view d))
        \<and> (store_ok K (view d) \<longrightarrow> store_ok K (view d')))
    \<and> (commit_optimistic_block D K b n d = (r, d') \<longrightarrow>
        queue_of K (view d') = (if r = Ok () then enqueue b ((queue_of K (view d))\<lparr>q_counter := n\<rparr>)
          else queue_of K (view d))
        \<and> (store_ok K (view d) \<longrightarrow> store_ok K (view d')))
    \<and> (get_block_counter D d = (c, d') \<longrightarrow> view d' = view d
        \<and> (\<forall>m. c = Ok m \<longrightarrow> m = q_counter (queue_of K (view d))))
    \<and> (peek_pending D K d = (f, d') \<longrightarrow> view d' = view d
        \<and> (store_ok K (view d) \<longrightarrow>
            (f = Ok None \<longrightarrow> (\<forall>m. q_pending (queue_of K (view d)) m = None))
            \<and> (\<forall>x. f = Ok (Some x) \<longrightarrow> front (queue_of K (view d)) x)))
    \<and> (working D d \<and> ser_block K b = Ok v \<longrightarrow>
        fst (push_pending D K b d) = Ok () \<and> fst (push_failed D K b d) = Ok ()
        \<and> fst (remove_pending D n d) = Ok () \<and> fst (set_block_counter D n d) = Ok ()
        \<and> fst (commit_optimistic_block D K b n d) = Ok ()
        \<and> (\<exists>m. fst (get_block_counter D d) = Ok m)
        \<and> (store_ok K (view d) \<longrightarrow> (\<exists>x. fst (peek_pending D K d) = Ok x)))"
  (is "?push \<and> ?fail \<and> ?remove \<and> ?set \<and> ?commit \<and> ?counter \<and> ?peek \<and> ?works")
proof -
  have ?push ?fail ?remove ?set ?commit
    using block_store.push_pending_queue [OF assms, of b d r d']
      block_store.push_failed_queue [OF assms, of b d r d']
      block_store.remove_pending_queue [OF assms, of n d r d']
      block_store.set_block_counter_queue [OF assms, of n d r d']
      block_store.commit_optimistic_block_queue [OF assms, of b n d r d'] by blast+
  moreover have ?counter ?peek
    using block_store.get_block_counter_queue [OF assms, of d c d']
      block_store.peek_pending_view [OF assms, of d f d'] block_store.peek_pending_queue [OF assms, of d f d']
    by fastforce+
  moreover have ?works
    using working_writes [of D d K b v] block_store.working_reads [OF assms, of d] by blast
  ultimately show ?thesis by blast
qed

definition sample_block :: pending_block where
  "sample_block = \<lparr>block_number = 4, pb_txs = [pay_bob], pb_deposits = [], pb_forced_txs = [],
     pre_state_root = hash_of [7], post_state_root = hash_of [8]\<rparr>"

lemma sample_block_fits [simp]: "fits sample_block"
  by (simp add: fits_def sample_block_def)

theorem block_store_refines_queue_witness:
  "\<exists>d'. commit_optimistic_block ref_kv ref_codec sample_block 5 (\<lambda>_. []) = (Ok (), d')
    \<and> queue_of ref_codec (ref_view d')
      = enqueue sample_block ((queue_of ref_codec (ref_view (\<lambda>_. [])))\<lparr>q_counter := 5\<rparr>)
    \<and> fst (get_block_counter ref_kv d') = Ok 5
    \<and> fst (peek_pending ref_kv ref_codec d') = Ok (Some sample_block)"
proof -
  obtain d' where run: "commit_optimistic_block ref_kv ref_codec sample_block 5 (\<lambda>_. []) = (Ok (), d')"
    by (simp add: commit_optimistic_block_def store_simps ref_kv_def ref_codec_def)
  note refines = block_store_refines_queue [OF ref.block_store_axioms]
  have empty: "store_ok ref_codec (ref_view (\<lambda>_. []))"
    and none: "q_pending (queue_of ref_codec (ref_view (\<lambda>_. []))) = (\<lambda>_. None)"
    by (auto simp: store_ok_def filed_def queue_of_def blocks_in_def ref_view_def)
  from refines [of _ "\<lambda>_. []" "Ok ()" d'] run
  have q: "queue_of ref_codec (ref_view d')
      = enqueue sample_block ((queue_of ref_codec (ref_view (\<lambda>_. [])))\<lparr>q_counter := 5\<rparr>)"
    and ok: "store_ok ref_codec (ref_view d')" using empty by simp_all
  have works: "working ref_kv d" for d
    by (auto simp: working_def families_def ref_kv_def)
  obtain v where v: "ser_block ref_codec sample_block = Ok v" by (simp add: ref_codec_def)
  have "working ref_kv d' \<and> ser_block ref_codec sample_block = Ok v" using works v ..
  with refines [where d = d' and b = sample_block and v = v,
      THEN conjunct2, THEN conjunct2, THEN conjunct2, THEN conjunct2, THEN conjunct2, THEN conjunct2, THEN conjunct2] ok
  obtain m x where m: "fst (get_block_counter ref_kv d') = Ok m"
    and x: "fst (peek_pending ref_kv ref_codec d') = Ok x" by blast
  let ?q = "queue_of ref_codec (ref_view d')"
  have pending: "q_pending ?q = [block_number sample_block \<mapsto> sample_block]" and count: "q_counter ?q = 5"
    by (simp_all add: q enqueue_def none)
  have "m = q_counter ?q"
    using refines [where d = d' and c = "Ok m" and d' = "snd (get_block_counter ref_kv d')",
        THEN conjunct2, THEN conjunct2, THEN conjunct2, THEN conjunct2, THEN conjunct2, THEN conjunct1] m
    by (simp add: prod_eq_iff)
  moreover have front: "(x = None \<longrightarrow> (\<forall>k. q_pending ?q k = None)) \<and> (\<forall>y. x = Some y \<longrightarrow> front ?q y)"
    using refines [where d = d' and f = "Ok x" and d' = "snd (peek_pending ref_kv ref_codec d')",
        THEN conjunct2, THEN conjunct2, THEN conjunct2, THEN conjunct2, THEN conjunct2, THEN conjunct2, THEN conjunct1] x ok
    by (simp add: prod_eq_iff)
  have "x = Some sample_block"
  proof (cases x)
    case None
    with front have "q_pending ?q (block_number sample_block) = None" by blast
    then show ?thesis by (simp only: pending map_upd_Some_unfold fun_upd_same option.distinct)
  next
    case (Some y)
    with front have "q_pending ?q (block_number y) = Some y" by (simp only: front_def option.inject simp_thms)
    with Some show ?thesis by (simp only: pending map_upd_Some_unfold) auto
  qed
  ultimately have "fst (get_block_counter ref_kv d') = Ok 5"
    and "fst (peek_pending ref_kv ref_codec d') = Ok (Some sample_block)"
    using m x count by (simp_all only:)
  with run q show ?thesis by (intro exI conjI)
qed

end
