(* ===== verification/Bridge.thy ===== *)
theory Bridge
  imports Guest
begin

text \<open>
  \<^verbatim>\<open>contracts/src/RollupBridge.sol\<close>: the L1 contract that queues deposits and forced
  transactions, accepts a new state root with a proof, and pays withdrawals. The SP1 verifier,
  OpenZeppelin's \<open>MerkleProof\<close> and the transfer of ether to the caller are parameters.
\<close>

section \<open>The contract\<close>

record bridge =
  stateRoot :: hash
  depositCount :: u256
  processedDepositCount :: u256
  forcedTransactions :: "forced_transaction_l1 list"
  forcedTxCount :: u256
  processedForcedTxCount :: u256
  pendingDeposits :: "deposit_l1 list"
  nullifiers :: "hash set"

record bridge_env =
  verifyProof :: "bytes \<Rightarrow> bytes \<Rightarrow> bool"
  oz_verify :: "hash list \<Rightarrow> hash \<Rightarrow> hash \<Rightarrow> bool"

definition bridge_new :: "hash \<Rightarrow> bridge" where
  "bridge_new initialStateRoot = \<lparr>stateRoot = initialStateRoot, depositCount = 0, processedDepositCount = 0,
     forcedTransactions = [], forcedTxCount = 0, processedForcedTxCount = 0, pendingDeposits = [],
     nullifiers = {}\<rparr>"

text \<open>
  A call that reverts is an error with its message and leaves the contract as it was; checked
  arithmetic and array accesses revert as well.
\<close>

definition require :: "bool \<Rightarrow> string \<Rightarrow> (unit, string) result" where
  "require c msg = (if c then Ok () else Err msg)"

definition sol_add :: "u256 \<Rightarrow> u256 \<Rightarrow> (u256, string) result" where
  "sol_add a b = ok_or ''Panic(0x11)'' (checked_add a b)"

definition sol_index :: "'a list \<Rightarrow> nat \<Rightarrow> ('a, string) result" where
  "sol_index xs i = ok_or ''Panic(0x32)'' (if i < length xs then Some (xs ! i) else None)"

text \<open>Pushing onto a storage array that has \<open>2^64\<close> elements reverts.\<close>

definition sol_push :: "'a list \<Rightarrow> 'a \<Rightarrow> ('a list, string) result" where
  "sol_push xs x = (if length xs < 2 ^ 64 then Ok (xs @ [x]) else Err ''Panic(0x41)'')"

definition deposit_call :: "address \<Rightarrow> u256 \<Rightarrow> u256 \<Rightarrow> bridge \<Rightarrow> (bridge, string) result" where
  "deposit_call sender val now b =
     bind_res (require (val > 0) ''deposit: zero deposit'') (\<lambda>_.
     bind_res (sol_push (pendingDeposits b)
         \<lparr>dl1_user = sender, dl1_amount = val, dl1_timestamp = now\<rparr>) (\<lambda>pending.
     Ok (b\<lparr>pendingDeposits := pending, depositCount := of_nat (length pending)\<rparr>)))"

definition FORCED_TX_FEE :: u256 where
  "FORCED_TX_FEE = 1000000000000000"

definition forceTransaction :: "bytes \<Rightarrow> u256 \<Rightarrow> u256 \<Rightarrow> bridge \<Rightarrow> (bridge, string) result" where
  "forceTransaction l2TxData val now b =
     bind_res (require (val \<ge> FORCED_TX_FEE) ''forceTransaction: not enough fee'') (\<lambda>_.
     bind_res (sol_push (forcedTransactions b) \<lparr>fl1_data = l2TxData, fl1_timestamp = now\<rparr>) (\<lambda>forced.
     Ok (b\<lparr>forcedTransactions := forced, forcedTxCount := of_nat (length forced)\<rparr>)))"

text \<open>The loop \<open>for (uint256 i = 0; i < count; i++)\<close> over a storage array.\<close>

fun sol_range :: "('x \<Rightarrow> 'y) \<Rightarrow> 'x list \<Rightarrow> nat \<Rightarrow> nat \<Rightarrow> ('y list, string) result" where
  "sol_range f xs start 0 = Ok []"
| "sol_range f xs start (Suc n) =
     bind_res (sol_index xs start) (\<lambda>x.
     bind_res (sol_range f xs (Suc start) n) (\<lambda>ys. Ok (f x # ys)))"

definition getDeposits :: "u256 \<Rightarrow> u256 \<Rightarrow> bridge \<Rightarrow> (deposit_l1 list, string) result" where
  "getDeposits start cnt b =
     bind_res (sol_add start cnt) (\<lambda>stop.
     bind_res (require (stop \<le> depositCount b) ''getDeposits: invalid range'') (\<lambda>_.
     sol_range (\<lambda>d. d) (pendingDeposits b) (unat start) (unat cnt)))"

definition getForcedTransactions ::
  "u256 \<Rightarrow> u256 \<Rightarrow> bridge \<Rightarrow> (forced_transaction_l1 list, string) result" where
  "getForcedTransactions start cnt b =
     bind_res (sol_add start cnt) (\<lambda>stop.
     bind_res (require (stop \<le> forcedTxCount b) ''getForcedTransactions: invalid range'') (\<lambda>_.
     sol_range (\<lambda>f. f) (forcedTransactions b) (unat start) (unat cnt)))"

definition calculateDepositHash :: "externs \<Rightarrow> u256 \<Rightarrow> u256 \<Rightarrow> bridge \<Rightarrow> (hash, string) result" where
  "calculateDepositHash E start cnt b =
     (if cnt = 0 then Ok (keccak256 E [])
      else
        bind_res (sol_add start cnt) (\<lambda>stop.
        bind_res (require (stop \<le> depositCount b) ''calculateDepositHash: invalid range'') (\<lambda>_.
        bind_res (sol_range (\<lambda>d. keccak256 E (sol_encode_deposit d)) (pendingDeposits b)
            (unat start) (unat cnt)) (\<lambda>hashes.
        Ok (keccak256 E (concat (map hash_bytes hashes)))))))"

definition calculateForcedTxHash :: "externs \<Rightarrow> u256 \<Rightarrow> u256 \<Rightarrow> bridge \<Rightarrow> (hash, string) result" where
  "calculateForcedTxHash E start cnt b =
     (if cnt = 0 then Ok (keccak256 E [])
      else
        bind_res (sol_add start cnt) (\<lambda>stop.
        bind_res (require (stop \<le> forcedTxCount b) ''calculateForcedTxHash: invalid range'') (\<lambda>_.
        bind_res (sol_range (\<lambda>f. keccak256 E (sol_encode_forced f)) (forcedTransactions b)
            (unat start) (unat cnt)) (\<lambda>hashes.
        Ok (keccak256 E (concat (map hash_bytes hashes)))))))"

text \<open>
  The mask literal of the source has 72 hexadecimal digits, more than a 256-bit word holds;
  the model reads it modulo \<open>2^256\<close>. A \<open>bytes28\<close> is a word whose low 32 bits are zero.
\<close>

definition sol_word :: "hash \<Rightarrow> u256" where
  "sol_word h = from_be_bytes (hash_bytes h)"

definition hash_mask :: u256 where
  "hash_mask = 0xFFFFFFFFFFFFFFFFFFFFFFFFFFFFFFFFFFFFFFFFFFFFFFFFFFFFFFFFFFFFFFFF00000000"

definition decodeCommitment :: "hash \<Rightarrow> u32 \<times> u256" where
  "decodeCommitment commitment =
     (ucast (sol_word commitment AND 0x00000000000000000000000000000000000000000000000000000000FFFFFFFF),
      sol_word commitment AND hash_mask)"

definition truncate_hash :: "hash \<Rightarrow> u256" where
  "truncate_hash fullHash = sol_word fullHash AND hash_mask"

definition updateState :: "externs \<Rightarrow> bridge_env \<Rightarrow> bytes \<Rightarrow> bytes \<Rightarrow> bridge \<Rightarrow> (bridge, string) result" where
  "updateState E V publicValues proofBytes b =
     bind_res (ok_or ''abi.decode'' (sol_decode_public_values publicValues)) (\<lambda>pv.
     bind_res (require (preStateRoot pv = stateRoot b) ''updateState: invalid pre-state root'') (\<lambda>_.
     let (depositsInBatch, depositsHash) = decodeCommitment (depositsCommitment pv);
         (forcedTxsInBatch, forcedTxsHash) = decodeCommitment (forcedTxsCommitment pv) in
     bind_res (calculateDepositHash E (processedDepositCount b) (ucast depositsInBatch) b) (\<lambda>h.
     bind_res (require (truncate_hash h = depositsHash) ''updateState: deposit data mismatch'') (\<lambda>_.
     bind_res (calculateForcedTxHash E (processedForcedTxCount b) (ucast forcedTxsInBatch) b) (\<lambda>h'.
     bind_res (require (truncate_hash h' = forcedTxsHash) ''updateState: forced tx data mismatch'') (\<lambda>_.
     bind_res (require (verifyProof V publicValues proofBytes) ''verifyProof'') (\<lambda>_.
     bind_res (sol_add (processedDepositCount b) (ucast depositsInBatch)) (\<lambda>pd.
     bind_res (sol_add (processedForcedTxCount b) (ucast forcedTxsInBatch)) (\<lambda>pf.
     Ok (b\<lparr>processedDepositCount := pd, processedForcedTxCount := pf,
           stateRoot := postStateRoot pv\<rparr>))))))))))"

definition reclaimDeposit :: "u256 \<Rightarrow> bridge \<Rightarrow> (bridge, string) result" where
  "reclaimDeposit depositNonce b = Err ''reclaimDeposit is not supported ''"

text \<open>
  \<open>call\<close> is the transfer to the sender, whose code runs before the transfer returns and may call
  the contract again: it takes the contract as it stands then to whether it succeeded and the
  contract as it left it.
\<close>

definition withdraw ::
  "externs \<Rightarrow> bridge_env \<Rightarrow> address \<Rightarrow> (bridge \<Rightarrow> bool \<times> bridge) \<Rightarrow> u256 \<Rightarrow> u64 \<Rightarrow> hash list \<Rightarrow> bridge
     \<Rightarrow> (bridge, string) result" where
  "withdraw E V sender call amount nonce merkleProof b =
     (let nullifier = keccak256 E (be_bytes 20 sender @ be_bytes 32 amount @ be_bytes 8 nonce) in
     bind_res (require (nullifier \<notin> nullifiers b) ''withdraw: already claimed'') (\<lambda>_.
     let leaf = keccak256 E (be_bytes 20 sender @ be_bytes 32 amount @ be_bytes 8 nonce);
         isValid = oz_verify V merkleProof (stateRoot b) leaf in
     bind_res (require isValid ''withdraw: invalid proof'') (\<lambda>_.
     let b = b\<lparr>nullifiers := insert nullifier (nullifiers b)\<rparr>;
         (success, b) = call b in
     bind_res (require success ''withdraw: transfer failed'') (\<lambda>_.
     Ok b))))"

section \<open>Words of a commitment\<close>

lemma from_be_bytes_snoc:
  "(from_be_bytes (bs @ [b]) :: 'a::len word) = push_bit 8 (from_be_bytes bs) OR ucast b"
  by (simp add: from_be_bytes.simps)

lemma bit_from_be_bytes:
  "bit (from_be_bytes bs :: 'a::len word) i \<longleftrightarrow>
     i < LENGTH('a) \<and> i < 8 * length bs \<and> bit (rev bs ! (i div 8)) (i mod 8)"
proof (induction bs arbitrary: i rule: rev_induct)
  case Nil
  show ?case by (simp add: from_be_bytes.simps)
next
  case (snoc b bs)
  show ?case
  proof (cases "i < 8")
    case True
    then show ?thesis by (auto simp: from_be_bytes_snoc bit_simps)
  next
    case False
    have "bit (ucast b :: 'a word) i = False"
      using False bit_imp_le_length [of b i] by (auto simp: bit_simps)
    moreover have "i div 8 = Suc ((i - 8) div 8)" "i mod 8 = (i - 8) mod 8"
      using False by (simp_all add: le_div_geq le_mod_geq)
    ultimately show ?thesis
      using False snoc.IH [of "i - 8"] by (auto simp: from_be_bytes_snoc bit_simps)
  qed
qed

lemma bit_sol_word: "bit (sol_word h) i \<longleftrightarrow> i < 256 \<and> bit (rev (hash_bytes h) ! (i div 8)) (i mod 8)"
  by (auto simp: sol_word_def bit_from_be_bytes)

lemma bit_hash_mask: "bit hash_mask i \<longleftrightarrow> 32 \<le> i \<and> i < 256"
proof -
  have eq: "hash_mask = push_bit 32 (- 1)"
    unfolding hash_mask_def by (simp add: push_bit_minus)
  show ?thesis unfolding eq by (auto simp: bit_simps)
qed

lemma rev_nth_high:
  assumes "length xs = 32" and "4 \<le> j" and "j < 32"
  shows "rev (take 28 xs) ! (j - 4) = rev xs ! j"
  using assms by (simp add: rev_nth)

lemma sol_word_commitment_high:
  assumes "32 \<le> i"
  shows "bit (sol_word (build_commitment h n)) i = bit (sol_word h) i"
proof (cases "i < 256")
  case True
  then have j: "4 \<le> i div 8" "i div 8 < 32" using assms by auto
  have "rev (hash_bytes (build_commitment h n)) ! (i div 8) = rev (take 28 (hash_bytes h)) ! (i div 8 - 4)"
    using j by (simp add: hash_bytes_build_commitment nth_append)
  also have "\<dots> = rev (hash_bytes h) ! (i div 8)"
    using j by (simp add: rev_nth_high)
  finally show ?thesis by (simp add: bit_sol_word)
qed (simp add: bit_sol_word)

lemma sol_word_commitment_low:
  assumes "i < 32"
  shows "bit (sol_word (build_commitment h n)) i = bit n i"
proof -
  let ?j = "i div 8"
  have j: "?j < 4" using assms by auto
  then have "rev (hash_bytes (build_commitment h n)) ! ?j = rev (be_bytes 4 n) ! ?j"
    by (simp add: hash_bytes_build_commitment nth_append)
  also have "\<dots> = ucast (drop_bit (8 * ?j) n)"
    using j by (simp add: be_bytes_def rev_map)
  finally show ?thesis using assms by (simp add: bit_sol_word bit_simps)
qed

lemma decode_build_commitment: "decodeCommitment (build_commitment h n) = (n, truncate_hash h)"
proof -
  let ?w = "sol_word (build_commitment h n)"
  have "(ucast (?w AND mask 32) :: u32) = n"
    by (rule bit_word_eqI) (simp add: bit_simps sol_word_commitment_low)
  moreover have "(0xFFFFFFFF :: u256) = mask 32" by (simp add: mask_eq_exp_minus_1)
  moreover have "?w AND hash_mask = sol_word h AND hash_mask"
    by (rule bit_word_eqI) (auto simp: bit_simps bit_hash_mask sol_word_commitment_high)
  ultimately show ?thesis by (simp add: decodeCommitment_def truncate_hash_def)
qed

lemma truncate_hash_eq_iff:
  "truncate_hash g = truncate_hash h \<longleftrightarrow> take 28 (hash_bytes g) = take 28 (hash_bytes h)" (is "?l \<longleftrightarrow> ?r")
proof
  assume ?r
  then have "build_commitment g 0 = build_commitment h 0" by (simp add: build_commitment_eq_iff)
  with decode_build_commitment [of g 0] decode_build_commitment [of h 0] show ?l by simp
next
  assume l: ?l
  show ?r
  proof (rule nth_equalityI)
    fix k assume "k < length (take 28 (hash_bytes g))"
    then have k: "k < 28" by simp
    have "hash_bytes g ! k = hash_bytes h ! k"
    proof (rule bit_word_eqI)
      fix i assume "i < LENGTH(8)"
      then have i: "i < 8" by simp
      let ?n = "8 * (31 - k) + i"
      have n: "?n div 8 = 31 - k" "?n mod 8 = i" "32 \<le> ?n" "?n < 256" using k i by auto
      from l have "bit (sol_word g AND hash_mask) ?n = bit (sol_word h AND hash_mask) ?n"
        by (simp add: truncate_hash_def)
      with n have "bit (rev (hash_bytes g) ! (31 - k)) i = bit (rev (hash_bytes h) ! (31 - k)) i"
        by (simp add: bit_simps bit_hash_mask bit_sol_word)
      with k show "bit (hash_bytes g ! k) i = bit (hash_bytes h ! k) i"
        by (simp add: rev_nth)
    qed
    with k show "take 28 (hash_bytes g) ! k = take 28 (hash_bytes h) ! k" by simp
  qed simp
qed

section \<open>Ranges and the invariant\<close>

lemma sol_range_Ok:
  "start + n \<le> length xs \<Longrightarrow> sol_range f xs start n = Ok (map f (take n (drop start xs)))"
proof (induction n arbitrary: start)
  case (Suc n)
  then have "drop start xs = xs ! start # drop (Suc start) xs" by (simp add: Cons_nth_drop_Suc)
  with Suc show ?case by (simp add: sol_index_def)
qed simp

text \<open>The counters are the lengths of the arrays, and nothing is processed that is not there.\<close>

definition bridge_ok :: "bridge \<Rightarrow> bool" where
  "bridge_ok b \<longleftrightarrow> length (pendingDeposits b) \<le> 2 ^ 64 \<and> length (forcedTransactions b) \<le> 2 ^ 64
     \<and> depositCount b = of_nat (length (pendingDeposits b))
     \<and> forcedTxCount b = of_nat (length (forcedTransactions b))
     \<and> processedDepositCount b \<le> depositCount b \<and> processedForcedTxCount b \<le> forcedTxCount b"

text \<open>What no call undoes: the queues only grow, the counters do not go back, a claim stays claimed.\<close>

definition bridge_extends :: "bridge \<Rightarrow> bridge \<Rightarrow> bool" where
  "bridge_extends b b' \<longleftrightarrow>
     (\<exists>ds. pendingDeposits b' = pendingDeposits b @ ds) \<and> (\<exists>fs. forcedTransactions b' = forcedTransactions b @ fs)
     \<and> processedDepositCount b \<le> processedDepositCount b' \<and> processedForcedTxCount b \<le> processedForcedTxCount b'
     \<and> nullifiers b \<subseteq> nullifiers b'"

text \<open>A successful call of the contract; the transfer of a withdrawal is any run of such calls.\<close>

inductive bridge_step :: "externs \<Rightarrow> bridge_env \<Rightarrow> bridge \<Rightarrow> bridge \<Rightarrow> bool" for E V where
  deposit: "deposit_call sender val now b = Ok b' \<Longrightarrow> bridge_step E V b b'"
| enforce: "forceTransaction bs val now b = Ok b' \<Longrightarrow> bridge_step E V b b'"
| update: "updateState E V pv prf b = Ok b' \<Longrightarrow> bridge_step E V b b'"
| withdraw: "withdraw E V sender call amount nonce prf b = Ok b' \<Longrightarrow>
    (\<And>c. (bridge_step E V)\<^sup>*\<^sup>* c (snd (call c))) \<Longrightarrow> bridge_step E V b b'"

lemma bridge_extends_refl [simp]: "bridge_extends b b"
  by (simp add: bridge_extends_def)

lemma bridge_extends_trans: "bridge_extends a b \<Longrightarrow> bridge_extends b c \<Longrightarrow> bridge_extends a c"
  by (auto simp: bridge_extends_def)

lemma unat_of_nat_u256: "n \<le> 2 ^ 64 \<Longrightarrow> unat (of_nat n :: u256) = n"
  by (simp add: unat_of_nat)

lemma require_Ok [simp]: "require c msg = Ok x \<longleftrightarrow> c"
  by (simp add: require_def)

lemma sol_add_Ok: "sol_add a b = Ok c \<longleftrightarrow> unat c = unat a + unat b"
  by (simp add: sol_add_def checked_add_Some_iff)

lemma sol_add_0 [simp]: "sol_add a 0 = Ok a"
  by (simp add: sol_add_Ok)

text \<open>The hash over a range is the hash of the item hashes of the slice.\<close>

definition queue_slice :: "'a list \<Rightarrow> u256 \<Rightarrow> nat \<Rightarrow> 'a list" where
  "queue_slice xs start n = take n (drop (unat start) xs)"

definition list_hash :: "externs \<Rightarrow> ('a \<Rightarrow> bytes) \<Rightarrow> 'a list \<Rightarrow> hash" where
  "list_hash E enc xs = keccak256 E (concat (map (\<lambda>x. hash_bytes (keccak256 E (enc x))) xs))"

lemma list_hash_Nil [simp]: "list_hash E enc [] = keccak256 E []"
  by (simp add: list_hash_def)

lemma counter_le_iff:
  assumes "n \<le> 2 ^ 64"
  shows "(stop :: u256) \<le> of_nat n \<longleftrightarrow> unat stop \<le> n"
  using assms by (simp add: word_le_nat_alt unat_of_nat_u256)

lemma calculateDepositHash_Ok_iff:
  assumes "bridge_ok b"
  shows "calculateDepositHash E start cnt b = Ok h \<longleftrightarrow>
    (cnt = 0 \<or> unat start + unat cnt \<le> length (pendingDeposits b))
    \<and> h = list_hash E sol_encode_deposit (queue_slice (pendingDeposits b) start (unat cnt))"
proof -
  have range: "stop \<le> depositCount b \<longleftrightarrow> unat stop \<le> length (pendingDeposits b)" for stop
    using assms by (simp add: bridge_ok_def counter_le_iff)
  have sum: "\<exists>c :: u256. unat c = unat start + unat cnt \<and> unat c \<le> length (pendingDeposits b)"
    if "unat start + unat cnt \<le> length (pendingDeposits b)"
  proof (rule exI [of _ "of_nat (unat start + unat cnt)"])
    have "unat (of_nat (unat start + unat cnt) :: u256) = unat start + unat cnt"
      using that assms by (intro unat_of_nat_u256) (simp add: bridge_ok_def)
    with that show "unat (of_nat (unat start + unat cnt) :: u256) = unat start + unat cnt
        \<and> unat (of_nat (unat start + unat cnt) :: u256) \<le> length (pendingDeposits b)" by simp
  qed
  show ?thesis
    using sum
    by (auto simp: calculateDepositHash_def bind_res_Ok_iff sol_add_Ok range sol_range_Ok queue_slice_def
        list_hash_def comp_def)
qed

lemma calculateForcedTxHash_Ok_iff:
  assumes "bridge_ok b"
  shows "calculateForcedTxHash E start cnt b = Ok h \<longleftrightarrow>
    (cnt = 0 \<or> unat start + unat cnt \<le> length (forcedTransactions b))
    \<and> h = list_hash E sol_encode_forced (queue_slice (forcedTransactions b) start (unat cnt))"
proof -
  have range: "stop \<le> forcedTxCount b \<longleftrightarrow> unat stop \<le> length (forcedTransactions b)" for stop
    using assms by (simp add: bridge_ok_def counter_le_iff)
  have sum: "\<exists>c :: u256. unat c = unat start + unat cnt \<and> unat c \<le> length (forcedTransactions b)"
    if "unat start + unat cnt \<le> length (forcedTransactions b)"
  proof (rule exI [of _ "of_nat (unat start + unat cnt)"])
    have "unat (of_nat (unat start + unat cnt) :: u256) = unat start + unat cnt"
      using that assms by (intro unat_of_nat_u256) (simp add: bridge_ok_def)
    with that show "unat (of_nat (unat start + unat cnt) :: u256) = unat start + unat cnt
        \<and> unat (of_nat (unat start + unat cnt) :: u256) \<le> length (forcedTransactions b)" by simp
  qed
  show ?thesis
    using sum
    by (auto simp: calculateForcedTxHash_def bind_res_Ok_iff sol_add_Ok range sol_range_Ok queue_slice_def
        list_hash_def comp_def)
qed

lemma unat_ucast_u32: "unat (ucast (n :: u32) :: u256) = unat n"
  using unsigned_less [of n, where 'a = nat]
  by (simp add: unsigned_ucast_eq take_bit_nat_eq_self_iff)

lemma processed_bound:
  assumes "bridge_ok b"
  shows "unat (processedDepositCount b) \<le> length (pendingDeposits b)"
    and "unat (processedForcedTxCount b) \<le> length (forcedTransactions b)"
  using assms unfolding bridge_ok_def by (metis counter_le_iff)+

text \<open>Exactly when a state update is accepted, and what it changes.\<close>

lemma updateState_Ok_iff:
  assumes "bridge_ok b"
  shows "updateState E V bs prf b = Ok b' \<longleftrightarrow>
    (\<exists>pv dn dh fn fh. sol_decode_public_values bs = Some pv \<and> preStateRoot pv = stateRoot b
      \<and> decodeCommitment (depositsCommitment pv) = (dn, dh) \<and> decodeCommitment (forcedTxsCommitment pv) = (fn, fh)
      \<and> unat (processedDepositCount b) + unat dn \<le> length (pendingDeposits b)
      \<and> unat (processedForcedTxCount b) + unat fn \<le> length (forcedTransactions b)
      \<and> truncate_hash (list_hash E sol_encode_deposit
          (queue_slice (pendingDeposits b) (processedDepositCount b) (unat dn))) = dh
      \<and> truncate_hash (list_hash E sol_encode_forced
          (queue_slice (forcedTransactions b) (processedForcedTxCount b) (unat fn))) = fh
      \<and> verifyProof V bs prf
      \<and> b' = b\<lparr>processedDepositCount := processedDepositCount b + ucast dn,
               processedForcedTxCount := processedForcedTxCount b + ucast fn, stateRoot := postStateRoot pv\<rparr>)"
proof -
  have zero: "ucast n = (0 :: u256) \<longleftrightarrow> n = 0" for n :: u32
    by (metis unat_ucast_u32 unat_0 word_unat_eq_iff)
  have add: "sol_add x (ucast n) = Ok c \<longleftrightarrow> c = x + ucast n"
    if "unat x + unat n \<le> 2 ^ 64" for x :: u256 and n :: u32 and c
  proof -
    have "unat (x + ucast n) = unat x + unat n"
      using that by (simp add: unat_word_ariths unat_ucast_u32)
    then show ?thesis by (auto simp: sol_add_Ok word_unat_eq_iff unat_ucast_u32)
  qed
  have le: "length (pendingDeposits b) \<le> 2 ^ 64" "length (forcedTransactions b) \<le> 2 ^ 64"
    using assms by (simp_all add: bridge_ok_def)
  show ?thesis
  proof (cases "sol_decode_public_values bs")
    case None
    then show ?thesis by (simp add: updateState_def)
  next
    case (Some pv)
    obtain dn dh fn fh where d: "decodeCommitment (depositsCommitment pv) = (dn, dh)"
      and f: "decodeCommitment (forcedTxsCommitment pv) = (fn, fh)" by fastforce
    have sums: "sol_add (processedDepositCount b) (ucast dn) = Ok c \<longleftrightarrow> c = processedDepositCount b + ucast dn"
      "sol_add (processedForcedTxCount b) (ucast fn) = Ok c' \<longleftrightarrow> c' = processedForcedTxCount b + ucast fn"
      if "unat (processedDepositCount b) + unat dn \<le> length (pendingDeposits b)"
        "unat (processedForcedTxCount b) + unat fn \<le> length (forcedTransactions b)" for c c'
      using that le by (intro add; linarith)+
    show ?thesis
      using processed_bound [OF assms]
      by (auto simp: updateState_def bind_res_Ok_iff calculateDepositHash_Ok_iff [OF assms] Some d f
          calculateForcedTxHash_Ok_iff [OF assms] zero unat_ucast_u32 sums)
  qed
qed

lemma deposit_call_Ok_iff:
  "deposit_call sender val now b = Ok b' \<longleftrightarrow> val > 0 \<and> length (pendingDeposits b) < 2 ^ 64
     \<and> b' = b\<lparr>pendingDeposits := pendingDeposits b @ [\<lparr>dl1_user = sender, dl1_amount = val, dl1_timestamp = now\<rparr>],
              depositCount := of_nat (Suc (length (pendingDeposits b)))\<rparr>"
  by (auto simp: deposit_call_def bind_res_Ok_iff sol_push_def)

lemma forceTransaction_Ok_iff:
  "forceTransaction bs val now b = Ok b' \<longleftrightarrow> val \<ge> FORCED_TX_FEE \<and> length (forcedTransactions b) < 2 ^ 64
     \<and> b' = b\<lparr>forcedTransactions := forcedTransactions b @ [\<lparr>fl1_data = bs, fl1_timestamp = now\<rparr>],
              forcedTxCount := of_nat (Suc (length (forcedTransactions b)))\<rparr>"
  by (auto simp: forceTransaction_def bind_res_Ok_iff sol_push_def)

lemma withdraw_Ok_iff:
  "withdraw E V sender call amount nonce prf b = Ok b' \<longleftrightarrow>
     (let n = keccak256 E (be_bytes 20 sender @ be_bytes 32 amount @ be_bytes 8 nonce)
      in n \<notin> nullifiers b \<and> oz_verify V prf (stateRoot b) n
        \<and> call (b\<lparr>nullifiers := insert n (nullifiers b)\<rparr>) = (True, b'))"
  by (auto simp: withdraw_def bind_res_Ok_iff Let_def case_prod_beta prod_eq_iff)

lemma counter_push:
  assumes "n < 2 ^ 64" and "(p :: u256) \<le> of_nat n"
  shows "p \<le> of_nat (Suc n)"
proof -
  have "unat p \<le> n" using assms by (simp add: counter_le_iff)
  then show ?thesis using assms(1) by (subst counter_le_iff) simp_all
qed

lemma counter_advance:
  assumes "unat p + unat (n :: u32) \<le> len" and "len \<le> 2 ^ 64"
  shows "p \<le> p + ucast n" and "p + ucast n \<le> (of_nat len :: u256)"
proof -
  have sum: "unat (p + ucast n) = unat p + unat n"
    using assms by (simp add: unat_word_ariths unat_ucast_u32)
  then show "p \<le> p + ucast n" by (simp add: word_le_nat_alt)
  from sum assms show "p + ucast n \<le> (of_nat len :: u256)" by (simp add: counter_le_iff)
qed

lemma bridge_step_ok: "bridge_step E V b b' \<Longrightarrow> bridge_ok b \<Longrightarrow> bridge_ok b' \<and> bridge_extends b b'"
proof (induction rule: bridge_step.induct)
  case (deposit sender val now b b')
  then show ?case
    using counter_push [of "length (pendingDeposits b)" "processedDepositCount b"]
    by (auto simp: deposit_call_Ok_iff bridge_ok_def bridge_extends_def simp del: of_nat_Suc)
next
  case (enforce bs val now b b')
  then show ?case
    using counter_push [of "length (forcedTransactions b)" "processedForcedTxCount b"]
    by (auto simp: forceTransaction_Ok_iff bridge_ok_def bridge_extends_def simp del: of_nat_Suc)
next
  case (update pv pr b b')
  from updateState_Ok_iff [OF update(2)] update(1) obtain dn fn r where
    n: "unat (processedDepositCount b) + unat (dn :: u32) \<le> length (pendingDeposits b)"
      "unat (processedForcedTxCount b) + unat (fn :: u32) \<le> length (forcedTransactions b)" and
    b': "b' = b\<lparr>processedDepositCount := processedDepositCount b + ucast dn,
               processedForcedTxCount := processedForcedTxCount b + ucast fn, stateRoot := r\<rparr>"
    by blast
  have "length (pendingDeposits b) \<le> 2 ^ 64" "length (forcedTransactions b) \<le> 2 ^ 64"
    using update(2) by (simp_all add: bridge_ok_def)
  from counter_advance [OF n(1) this(1)] counter_advance [OF n(2) this(2)] update(2) show ?case
    by (simp add: b' bridge_ok_def bridge_extends_def)
next
  case (withdraw sender call amount nonce pr b b')
  let ?c = "b\<lparr>nullifiers := insert (keccak256 E (be_bytes 20 sender @ be_bytes 32 amount @ be_bytes 8 nonce))
    (nullifiers b)\<rparr>"
  from withdraw(1) have b': "b' = snd (call ?c)" by (simp add: withdraw_Ok_iff Let_def)
  have start: "bridge_ok ?c" "bridge_extends b ?c"
    using withdraw(3) by (auto simp: bridge_ok_def bridge_extends_def)
  have "bridge_ok d \<and> bridge_extends ?c d"
    if "(\<lambda>x y. bridge_step E V x y \<and> (bridge_ok x \<longrightarrow> bridge_ok y \<and> bridge_extends x y))\<^sup>*\<^sup>* ?c d" for d
    using that by (induction rule: rtranclp_induct) (auto simp: start intro: bridge_extends_trans)
  with withdraw(2) [of ?c] start(2) show ?case
    unfolding b' by (blast intro: bridge_extends_trans)
qed

lemma bridge_run_ok:
  "(bridge_step E V)\<^sup>*\<^sup>* b b' \<Longrightarrow> bridge_ok b \<Longrightarrow> bridge_ok b' \<and> bridge_extends b b'"
  by (induction rule: rtranclp_induct) (auto dest: bridge_step_ok intro: bridge_extends_trans)

section \<open>The rollup's operations as the contract sees them\<close>

definition l1_of_deposit :: "externs \<Rightarrow> deposit \<Rightarrow> deposit_l1" where
  "l1_of_deposit E d = \<lparr>dl1_user = address_from_slice E (drop 12 (hash_bytes (dep_to d))),
     dl1_amount = u256_from E (dep_amount d), dl1_timestamp = u256_from E (dep_timestamp d)\<rparr>"

definition l1_of_forced :: "externs \<Rightarrow> forced_tx \<Rightarrow> forced_transaction_l1" where
  "l1_of_forced E f = \<lparr>fl1_data = ftx_l2_calldata f, fl1_timestamp = u256_from E (ftx_timestamp f)\<rparr>"

context alloy
begin

lemma hash_deposits_list_hash:
  "hash_deposits E ds = list_hash E sol_encode_deposit (map (l1_of_deposit E) ds)"
  by (simp add: hash_deposits_def list_hash_def deposit_item_hash_def l1_of_deposit_def comp_def
      abi_encode_deposit Let_def)

lemma hash_forced_txs_list_hash:
  "hash_forced_txs E fs = list_hash E sol_encode_forced (map (l1_of_forced E) fs)"
  by (simp add: hash_forced_txs_def list_hash_def forced_item_hash_def l1_of_forced_def comp_def
      abi_encode_forced Let_def)

end

lemma address_of_word: "(ucast (ucast (a :: address) :: u256) :: address) = a"
  by (rule bit_word_eqI) (simp add: bit_simps)

lemma sol_encode_deposit_inj [simp]: "sol_encode_deposit d = sol_encode_deposit d' \<longleftrightarrow> d = d'"
proof
  assume "sol_encode_deposit d = sol_encode_deposit d'"
  then have "(ucast (dl1_user d) :: u256) = ucast (dl1_user d')"
    "dl1_amount d = dl1_amount d'" "dl1_timestamp d = dl1_timestamp d'"
    by (simp_all add: sol_encode_deposit_def)
  moreover from this(1) have "dl1_user d = dl1_user d'"
    by (metis address_of_word)
  ultimately show "d = d'" by simp
qed simp

lemma sol_encode_forced_inj [simp]: "sol_encode_forced f = sol_encode_forced f' \<longleftrightarrow> f = f'"
proof
  let ?n = "length (fl1_data f)" and ?n' = "length (fl1_data f')"
  assume "sol_encode_forced f = sol_encode_forced f'"
  then have t: "fl1_timestamp f = fl1_timestamp f'" and len: "(of_nat ?n :: u256) = of_nat ?n'"
    and pad: "sol_pad (fl1_data f) = sol_pad (fl1_data f')"
    by (simp_all add: sol_encode_forced_def)
  from len have "unat (of_nat ?n :: u256) = unat (of_nat ?n' :: u256)" by (rule arg_cong)
  then have "?n mod 2 ^ 256 = ?n' mod 2 ^ 256" by (simp add: unat_of_nat)
  then have "?n mod 2 ^ 256 mod 32 = ?n' mod 2 ^ 256 mod 32" by simp
  then have "?n mod 32 = ?n' mod 32" by (simp add: mod_mod_cancel)
  with pad have "?n = ?n'" by (auto simp: sol_pad_def dest: arg_cong [of _ _ length])
  with pad have "fl1_data f = fl1_data f'" by (simp add: sol_pad_def)
  with t show "f = f'" by simp
qed simp

text \<open>No two of these strings have Keccak hashes that agree on the 28 bytes of a commitment.\<close>

definition commit_collision_free :: "externs \<Rightarrow> bytes set \<Rightarrow> bool" where
  "commit_collision_free E S \<longleftrightarrow> (\<forall>x \<in> S. \<forall>y \<in> S.
     take 28 (hash_bytes (keccak256 E x)) = take 28 (hash_bytes (keccak256 E y)) \<longrightarrow> x = y)"

definition list_strings :: "externs \<Rightarrow> ('a \<Rightarrow> bytes) \<Rightarrow> 'a list \<Rightarrow> bytes set" where
  "list_strings E enc xs = insert (concat (map (\<lambda>x. hash_bytes (keccak256 E (enc x))) xs)) (enc ` set xs)"

lemma list_hash_binds:
  assumes "truncate_hash (list_hash E enc xs) = truncate_hash (list_hash E enc ys)"
    and "commit_collision_free E S" and "list_strings E enc xs \<subseteq> S" and "list_strings E enc ys \<subseteq> S"
    and "\<And>x y. enc x = enc y \<Longrightarrow> x = y"
  shows "xs = ys"
proof -
  have "concat (map (\<lambda>x. hash_bytes (keccak256 E (enc x))) xs) = concat (map (\<lambda>x. hash_bytes (keccak256 E (enc x))) ys)"
    using assms(1-4) by (auto simp: truncate_hash_eq_iff list_hash_def commit_collision_free_def list_strings_def)
  then have "map (\<lambda>x. keccak256 E (enc x)) xs = map (\<lambda>x. keccak256 E (enc x)) ys"
    by (rule concat_hash_bytes_inj)
  moreover have "inj_on (\<lambda>x. keccak256 E (enc x)) (set xs \<union> set ys)"
  proof (rule inj_onI)
    fix x y assume xy: "x \<in> set xs \<union> set ys" "y \<in> set xs \<union> set ys" and "keccak256 E (enc x) = keccak256 E (enc y)"
    moreover from xy assms(3,4) have "enc x \<in> S" "enc y \<in> S" by (auto simp: list_strings_def)
    ultimately have "enc x = enc y" using assms(2) by (simp add: commit_collision_free_def)
    then show "x = y" by (rule assms(5))
  qed
  ultimately show ?thesis by (simp add: inj_on_map_eq_map)
qed

lemma unat_u32_of_nat: "unat (of_nat n :: u32) = n mod 2 ^ 32"
  by (simp add: unat_of_nat)

lemma slice_binds:
  assumes "truncate_hash (list_hash E enc (queue_slice xs p (length ys mod 2 ^ 32))) = truncate_hash (list_hash E enc ys)"
    and "commit_collision_free E (list_strings E enc ys \<union> list_strings E enc (queue_slice xs p (length ys mod 2 ^ 32)))"
    and "\<And>x y. enc x = enc y \<Longrightarrow> x = y"
  shows "ys = queue_slice xs p (length ys)" and "length ys < 2 ^ 32"
proof -
  have eq: "queue_slice xs p (length ys mod 2 ^ 32) = ys"
    using assms(1,2) by (rule list_hash_binds) (auto intro: assms(3))
  then have "length ys \<le> length ys mod 2 ^ 32"
    by (metis length_take min.cobounded2 min.commute queue_slice_def)
  then have "length ys mod 2 ^ 32 = length ys" by (simp add: le_antisym)
  with eq show "ys = queue_slice xs p (length ys)" by simp
  from \<open>length ys mod 2 ^ 32 = length ys\<close> show "length ys < 2 ^ 32"
    by (metis mod_less_divisor zero_less_numeral zero_less_power)
qed

lemma guest_output_accepted:
  assumes "alloy E" and "bridge_ok b" and "guest_main E inp = Ok out"
    and "gi_pre_state_root inp = stateRoot b"
    and "map (l1_of_deposit E) (gi_deposits inp)
      = queue_slice (pendingDeposits b) (processedDepositCount b) (length (gi_deposits inp))"
    and "map (l1_of_forced E) (gi_forced_transactions inp)
      = queue_slice (forcedTransactions b) (processedForcedTxCount b) (length (gi_forced_transactions inp))"
    and "length (gi_deposits inp) < 2 ^ 32" and "length (gi_forced_transactions inp) < 2 ^ 32"
    and "verifyProof V out prf"
  shows "\<exists>r. abi_decode_public_values E out = Some (public_values_of E inp r)
    \<and> updateState E V out prf b = Ok (b\<lparr>
        processedDepositCount := processedDepositCount b + of_nat (length (gi_deposits inp)),
        processedForcedTxCount := processedForcedTxCount b + of_nat (length (gi_forced_transactions inp)),
        stateRoot := r\<rparr>)"
proof -
  let ?ds = "gi_deposits inp" and ?fs = "gi_forced_transactions inp"
  from assms(3) obtain r where out: "out = sol_encode_public_values (public_values_of E inp r)"
    using alloy.abi_encode_public_values [OF assms(1)] by (auto simp: guest_main_Ok_iff)
  have u: "(ucast (of_nat n :: u32) :: u256) = of_nat n" "unat (of_nat n :: u32) = n" if "n < 2 ^ 32" for n
  proof -
    show "unat (of_nat n :: u32) = n" using that by (simp add: unat_of_nat)
    then show "(ucast (of_nat n :: u32) :: u256) = of_nat n"
      using that by (simp add: word_unat_eq_iff unat_ucast_u32 unat_of_nat)
  qed
  have room: "unat (processedDepositCount b) + length ?ds \<le> length (pendingDeposits b)"
    "unat (processedForcedTxCount b) + length ?fs \<le> length (forcedTransactions b)"
    using assms(5,6) [THEN arg_cong, of length] processed_bound [OF assms(2)]
    by (auto simp: queue_slice_def)
  have "updateState E V out prf b = Ok (b\<lparr>
        processedDepositCount := processedDepositCount b + of_nat (length ?ds),
        processedForcedTxCount := processedForcedTxCount b + of_nat (length ?fs), stateRoot := r\<rparr>)"
    unfolding updateState_Ok_iff [OF assms(2)] out
    using assms(4,9) room out u [OF assms(7)] u [OF assms(8)]
    by (auto simp: public_values_of_def decode_build_commitment
        alloy.hash_deposits_list_hash [OF assms(1)] alloy.hash_forced_txs_list_hash [OF assms(1)]
        simp flip: assms(5,6))
  then show ?thesis
    using alloy.abi_decode_public_values [OF assms(1)] out by auto
qed

section \<open>Properties\<close>

text \<open>
C7. What the guest commits is what the contract checks: a guest that ran on the contract's
  state root, on the next queued deposits and on the next queued forced transactions (fewer
  than \<open>2^32\<close> of each) produces public values that \<open>updateState\<close> accepts with every proof
  that verifies; the contract then holds the guest's post-state root and has advanced past
  exactly these deposits and forced transactions.
\<close>
theorem contract_accepts_guest:
  assumes "alloy E" and "bridge_ok b" and "guest_main E inp = Ok out"
    and "gi_pre_state_root inp = stateRoot b"
    and "map (l1_of_deposit E) (gi_deposits inp)
      = queue_slice (pendingDeposits b) (processedDepositCount b) (length (gi_deposits inp))"
    and "map (l1_of_forced E) (gi_forced_transactions inp)
      = queue_slice (forcedTransactions b) (processedForcedTxCount b) (length (gi_forced_transactions inp))"
    and "length (gi_deposits inp) < 2 ^ 32" and "length (gi_forced_transactions inp) < 2 ^ 32"
    and "verifyProof V out prf"
  shows "\<exists>r. abi_decode_public_values E out = Some (public_values_of E inp r)
    \<and> updateState E V out prf b = Ok (b\<lparr>
        processedDepositCount := processedDepositCount b + of_nat (length (gi_deposits inp)),
        processedForcedTxCount := processedForcedTxCount b + of_nat (length (gi_forced_transactions inp)),
        stateRoot := r\<rparr>)"
  using assms by (rule guest_output_accepted)

definition sample_bridge :: bridge where
  "sample_bridge = (bridge_new (root_of ref_externs sample_tree))
     \<lparr>pendingDeposits := [l1_of_deposit ref_externs to_alice], depositCount := 1\<rparr>"

definition trusting_env :: bridge_env where
  "trusting_env = \<lparr>verifyProof = (\<lambda>_ _. True), oz_verify = (\<lambda>_ _ _. True)\<rparr>"

lemma sample_bridge_ok: "bridge_ok sample_bridge"
  by (simp add: bridge_ok_def sample_bridge_def bridge_new_def)

lemma sample_guest_run:
  "guest_main ref_externs sample_input = Ok (abi_encode_public_values ref_externs
     (public_values_of ref_externs sample_input (root_of ref_externs sample_paid)))"
  using sample_execution by (simp add: guest_main_Ok_iff sample_input_def)

theorem contract_accepts_guest_witness:
  "\<exists>out b'. guest_main ref_externs sample_input = Ok out
    \<and> updateState ref_externs trusting_env out [] sample_bridge = Ok b' \<and> processedDepositCount b' = 1"
proof -
  have "\<exists>r. abi_decode_public_values ref_externs (abi_encode_public_values ref_externs
        (public_values_of ref_externs sample_input (root_of ref_externs sample_paid)))
      = Some (public_values_of ref_externs sample_input r)
    \<and> updateState ref_externs trusting_env (abi_encode_public_values ref_externs
        (public_values_of ref_externs sample_input (root_of ref_externs sample_paid))) [] sample_bridge
      = Ok (sample_bridge\<lparr>
        processedDepositCount := processedDepositCount sample_bridge + of_nat (length (gi_deposits sample_input)),
        processedForcedTxCount := processedForcedTxCount sample_bridge
          + of_nat (length (gi_forced_transactions sample_input)), stateRoot := r\<rparr>)"
    by (rule contract_accepts_guest [OF ref.alloy_axioms sample_bridge_ok sample_guest_run])
      (simp_all add: sample_input_def sample_bridge_def bridge_new_def queue_slice_def trusting_env_def)
  then show ?thesis
    using sample_guest_run by (fastforce simp: sample_bridge_def bridge_new_def sample_input_def)
qed

text \<open>
C3. The contract binds the guest: when \<open>updateState\<close> accepts the output of some run of the
  guest, that run started from the contract's state root and processed exactly the next
  queued deposits and the next queued forced transactions, none left out, invented or
  reordered, unless two of the hashed strings collide on 28 bytes. A forced transaction is
  identified by calldata and timestamp, all that its commitment covers: the sender, recipient
  and amount that the guest executes are not bound by it (\<open>hash_forced_txs_blind\<close>).
\<close>
theorem contract_binds_guest:
  assumes "alloy E" and "bridge_ok b" and "guest_main E inp = Ok out"
    and "updateState E V out prf b = Ok b'"
    and "commit_collision_free E
      (list_strings E sol_encode_deposit (map (l1_of_deposit E) (gi_deposits inp))
       \<union> list_strings E sol_encode_deposit (queue_slice (pendingDeposits b) (processedDepositCount b)
           (length (gi_deposits inp) mod 2 ^ 32)))"
    and "commit_collision_free E
      (list_strings E sol_encode_forced (map (l1_of_forced E) (gi_forced_transactions inp))
       \<union> list_strings E sol_encode_forced (queue_slice (forcedTransactions b) (processedForcedTxCount b)
           (length (gi_forced_transactions inp) mod 2 ^ 32)))"
  shows "gi_pre_state_root inp = stateRoot b
    \<and> map (l1_of_deposit E) (gi_deposits inp)
      = queue_slice (pendingDeposits b) (processedDepositCount b) (length (gi_deposits inp))
    \<and> map (l1_of_forced E) (gi_forced_transactions inp)
      = queue_slice (forcedTransactions b) (processedForcedTxCount b) (length (gi_forced_transactions inp))
    \<and> unat (processedDepositCount b') = unat (processedDepositCount b) + length (gi_deposits inp)
    \<and> unat (processedForcedTxCount b') = unat (processedForcedTxCount b) + length (gi_forced_transactions inp)"
proof -
  let ?ds = "map (l1_of_deposit E) (gi_deposits inp)" and ?fs = "map (l1_of_forced E) (gi_forced_transactions inp)"
  let ?pd = "processedDepositCount b" and ?pf = "processedForcedTxCount b"
  from assms(3) obtain r where out: "out = sol_encode_public_values (public_values_of E inp r)"
    using alloy.abi_encode_public_values [OF assms(1)] by (auto simp: guest_main_Ok_iff)
  let ?dn = "of_nat (length ?ds) :: u32" and ?fn = "of_nat (length ?fs) :: u32"
  from assms(4) have acc: "gi_pre_state_root inp = stateRoot b"
    "unat ?pd + unat ?dn \<le> length (pendingDeposits b)" "unat ?pf + unat ?fn \<le> length (forcedTransactions b)"
    "truncate_hash (list_hash E sol_encode_deposit (queue_slice (pendingDeposits b) ?pd (length ?ds mod 2 ^ 32)))
      = truncate_hash (list_hash E sol_encode_deposit ?ds)"
    "truncate_hash (list_hash E sol_encode_forced (queue_slice (forcedTransactions b) ?pf (length ?fs mod 2 ^ 32)))
      = truncate_hash (list_hash E sol_encode_forced ?fs)"
    and b': "processedDepositCount b' = ?pd + ucast ?dn" "processedForcedTxCount b' = ?pf + ucast ?fn"
    unfolding updateState_Ok_iff [OF assms(2)] out
    by (auto simp: public_values_of_def decode_build_commitment unat_u32_of_nat
        alloy.hash_deposits_list_hash [OF assms(1)] alloy.hash_forced_txs_list_hash [OF assms(1)])
  have d: "?ds = queue_slice (pendingDeposits b) ?pd (length ?ds)" "length ?ds < 2 ^ 32"
    using slice_binds [OF acc(4) assms(5) [folded length_map [of "l1_of_deposit E"]] sol_encode_deposit_inj [THEN iffD1]]
    by blast+
  have f: "?fs = queue_slice (forcedTransactions b) ?pf (length ?fs)" "length ?fs < 2 ^ 32"
    using slice_binds [OF acc(5) assms(6) [folded length_map [of "l1_of_forced E"]] sol_encode_forced_inj [THEN iffD1]]
    by blast+
  have small: "length (pendingDeposits b) \<le> 2 ^ 64" "length (forcedTransactions b) \<le> 2 ^ 64"
    using assms(2) by (simp_all add: bridge_ok_def)
  have "unat (p + ucast n) = unat p + unat n" if "unat p + unat n \<le> len" "len \<le> 2 ^ 64"
    for p :: u256 and n :: u32 and len
    using that by (simp add: unat_word_ariths unat_ucast_u32)
  from this [OF acc(2) small(1)] this [OF acc(3) small(2)] b' d(2) f(2)
  have "unat (processedDepositCount b') = unat ?pd + length ?ds"
    "unat (processedForcedTxCount b') = unat ?pf + length ?fs"
    by (simp_all add: unat_u32_of_nat)
  with acc(1) d(1) f(1) show ?thesis unfolding length_map by blast
qed

theorem contract_binds_guest_witness:
  "map (l1_of_deposit ref_externs) (gi_deposits sample_input)
     = queue_slice (pendingDeposits sample_bridge) (processedDepositCount sample_bridge) 1"
proof -
  let ?out = "abi_encode_public_values ref_externs
     (public_values_of ref_externs sample_input (root_of ref_externs sample_paid))"
  let ?d = "sol_encode_deposit (l1_of_deposit ref_externs to_alice)"
  have n: "length (gi_deposits sample_input) = 1" "gi_deposits sample_input = [to_alice]"
    "gi_forced_transactions sample_input = []"
    by (simp_all add: sample_input_def)
  have sl: "queue_slice (pendingDeposits sample_bridge) (processedDepositCount sample_bridge) 1
      = [l1_of_deposit ref_externs to_alice]"
    "queue_slice (forcedTransactions sample_bridge) (processedForcedTxCount sample_bridge) 0 = []"
    by (simp_all add: sample_bridge_def bridge_new_def queue_slice_def)
  have ok: "\<exists>b'. updateState ref_externs trusting_env ?out [] sample_bridge = Ok b'"
    unfolding updateState_Ok_iff [OF sample_bridge_ok]
    by (simp add: n public_values_of_def decode_build_commitment ref.abi_encode_public_values
        ref.hash_deposits_list_hash ref.hash_forced_txs_list_hash trusting_env_def)
      (simp add: sample_input_def sample_bridge_def bridge_new_def queue_slice_def)
  have d: "?d = sol_uint 0 @ sol_uint 7 @ sol_uint 9"
    by (simp add: sol_encode_deposit_def l1_of_deposit_def to_alice_def ref_externs_def hash_bytes_hash_of
        from_be_bytes.simps replicate_numeral)
  have "commit_collision_free ref_externs {hash_bytes (keccak256 ref_externs ?d), ?d}"
    unfolding d by (simp add: commit_collision_free_def evals sol_uint_def)
  then have "commit_collision_free ref_externs
      (list_strings ref_externs sol_encode_deposit (map (l1_of_deposit ref_externs) (gi_deposits sample_input))
       \<union> list_strings ref_externs sol_encode_deposit (queue_slice (pendingDeposits sample_bridge)
           (processedDepositCount sample_bridge) (length (gi_deposits sample_input) mod 2 ^ 32)))"
    using sl(1) by (simp add: n list_strings_def)
  moreover have "commit_collision_free ref_externs
      (list_strings ref_externs sol_encode_forced (map (l1_of_forced ref_externs) (gi_forced_transactions sample_input))
       \<union> list_strings ref_externs sol_encode_forced (queue_slice (forcedTransactions sample_bridge)
           (processedForcedTxCount sample_bridge) (length (gi_forced_transactions sample_input) mod 2 ^ 32)))"
    by (simp add: n list_strings_def commit_collision_free_def sample_bridge_def bridge_new_def queue_slice_def)
  ultimately show ?thesis
    using ok contract_binds_guest [OF ref.alloy_axioms sample_bridge_ok sample_guest_run, of trusting_env "[]"] n(1)
    by metis
qed

text \<open>
C13. The contract's queues and counters are safe in every run: from a freshly deployed
  contract, after any sequence of calls, the counters equal the lengths of the queues, no more
  is processed than was queued, and any further sequence of calls only appends to the queues,
  never takes a counter back and never frees a nullifier.
\<close>
theorem bridge_runs_are_safe:
  assumes "(bridge_step E V)\<^sup>*\<^sup>* (bridge_new r) b" and "(bridge_step E V)\<^sup>*\<^sup>* b b'"
  shows "unat (depositCount b) = length (pendingDeposits b)
    \<and> unat (forcedTxCount b) = length (forcedTransactions b)
    \<and> unat (processedDepositCount b) \<le> length (pendingDeposits b)
    \<and> unat (processedForcedTxCount b) \<le> length (forcedTransactions b)
    \<and> bridge_extends b b'"
proof -
  have "bridge_ok (bridge_new r)" by (simp add: bridge_ok_def bridge_new_def)
  with bridge_run_ok [OF assms(1)] have ok: "bridge_ok b" by blast
  then have "unat (depositCount b) = length (pendingDeposits b)"
    "unat (forcedTxCount b) = length (forcedTransactions b)"
    unfolding bridge_ok_def by (metis unat_of_nat_u256)+
  with bridge_run_ok [OF assms(2) ok] processed_bound [OF ok] show ?thesis by blast
qed

theorem bridge_runs_are_safe_witness:
  "\<exists>b. deposit_call 5 100 3 (bridge_new (hash_of [9])) = Ok b \<and> unat (depositCount b) = length (pendingDeposits b)"
proof -
  obtain b where dep: "deposit_call 5 100 3 (bridge_new (hash_of [9])) = Ok b"
    by (simp add: deposit_call_Ok_iff bridge_new_def)
  then have "(bridge_step ref_externs trusting_env)\<^sup>*\<^sup>* (bridge_new (hash_of [9])) b"
    by (blast intro: bridge_step.deposit)
  from bridge_runs_are_safe [OF this rtranclp.rtrancl_refl] dep show ?thesis by blast
qed

text \<open>
C33. A withdrawal is paid at most once: the transfer is made from a state in which the claim is
  marked, and in every state that calls reach from there, while the transfer runs (the receiver
  may call back) and after the withdrawal succeeded, the same sender, amount and nonce are
  refused as already claimed, whatever the Merkle proof and the current root.
\<close>
theorem withdraw_once:
  assumes "bridge_ok b" and "withdraw E V sender call amount nonce prf b = Ok b'"
    and "\<And>c. (bridge_step E V)\<^sup>*\<^sup>* c (snd (call c))" and "(bridge_step E V)\<^sup>*\<^sup>* b' b''"
  shows "withdraw E V sender call' amount nonce prf' b'' = Err ''withdraw: already claimed''
    \<and> (let c = b\<lparr>nullifiers := insert (keccak256 E (be_bytes 20 sender @ be_bytes 32 amount @ be_bytes 8 nonce))
             (nullifiers b)\<rparr>
       in call c = (True, b') \<and> (\<forall>d. (bridge_step E V)\<^sup>*\<^sup>* c d \<longrightarrow>
            withdraw E V sender call' amount nonce prf' d = Err ''withdraw: already claimed''))"
proof -
  let ?n = "keccak256 E (be_bytes 20 sender @ be_bytes 32 amount @ be_bytes 8 nonce)"
  let ?c = "b\<lparr>nullifiers := insert ?n (nullifiers b)\<rparr>"
  have call: "call ?c = (True, b')" using assms(2) by (simp add: withdraw_Ok_iff Let_def)
  have "bridge_ok ?c" using assms(1) by (auto simp: bridge_ok_def)
  then have refused: "withdraw E V sender call' amount nonce prf' d = Err ''withdraw: already claimed''"
    if "(bridge_step E V)\<^sup>*\<^sup>* ?c d" for d
    using bridge_run_ok [OF that] by (auto simp: bridge_extends_def withdraw_def require_def)
  have "(bridge_step E V)\<^sup>*\<^sup>* ?c b''"
    using assms(3) [of ?c] assms(4) call by (simp add: rtranclp_trans)
  with refused call show ?thesis by (simp add: Let_def)
qed

text \<open>A receiver that claims again while it is paid, and goes on when it is refused.\<close>

definition greedy :: "bridge \<Rightarrow> bool \<times> bridge" where
  "greedy c = (case withdraw ref_externs trusting_env 5 (Pair True) 100 1 [] c of Ok c' \<Rightarrow> (True, c') | _ \<Rightarrow> (True, c))"

theorem withdraw_once_witness:
  "\<exists>b'. withdraw ref_externs trusting_env 5 greedy 100 1 [] sample_bridge = Ok b'
    \<and> withdraw ref_externs trusting_env 5 greedy 100 1 [hash_of [3]] b' = Err ''withdraw: already claimed''"
proof -
  have calls: "(bridge_step ref_externs trusting_env)\<^sup>*\<^sup>* c (snd (greedy c))" for c
  proof (cases "withdraw ref_externs trusting_env 5 (Pair True) 100 1 [] c")
    case (Ok c')
    then have "bridge_step ref_externs trusting_env c c'" by (rule bridge_step.withdraw) simp
    with Ok show ?thesis by (simp add: greedy_def r_into_rtranclp)
  qed (simp_all add: greedy_def)
  obtain b' where w: "withdraw ref_externs trusting_env 5 greedy 100 1 [] sample_bridge = Ok b'"
    by (simp add: withdraw_Ok_iff Let_def greedy_def withdraw_def require_def trusting_env_def
        sample_bridge_def bridge_new_def)
  from withdraw_once [OF sample_bridge_ok w calls rtranclp.rtrancl_refl] w show ?thesis by blast
qed

end
