(* ===== verification/L1_Fetch.thy ===== *)
theory L1_Fetch
  imports Bridge Core_Tree
begin

text \<open>
  \<open>fetch_new_deposits\<close> and \<open>fetch_new_forced_txs\<close> of \<^verbatim>\<open>crates/sequencer/src/main.rs\<close>:
  how the sequencer reads the queues of the L1 contract. A view call on the contract is a
  parameter, its outcome the one after the retries; the contract's own model provides it, with
  other L1 transactions between the calls.
\<close>

section \<open>The code\<close>

record 'l l1_calls =
  call_processedDepositCount :: "('l, u256, string) action"
  call_depositCount :: "('l, u256, string) action"
  call_getDeposits :: "u256 \<Rightarrow> u256 \<Rightarrow> ('l, deposit_l1 list, string) action"
  call_processedForcedTxCount :: "('l, u256, string) action"
  call_forcedTxCount :: "('l, u256, string) action"
  call_getForcedTransactions :: "u256 \<Rightarrow> u256 \<Rightarrow> ('l, forced_transaction_l1 list, string) action"

text \<open>\<open>to::<u64>()\<close> panics on a value that does not fit.\<close>

definition to_u64 :: "externs \<Rightarrow> u256 \<Rightarrow> (u64, anyhow) result" where
  "to_u64 E w = (case u256_to_u64 E w of Some x \<Rightarrow> Ok x | None \<Rightarrow> Panic ''Uint conversion error'')"

fun push_deposits :: "externs \<Rightarrow> deposit_l1 list \<Rightarrow> (deposit list, anyhow) result" where
  "push_deposits E [] = Ok []"
| "push_deposits E (d # ds) =
     bind_res (to_u64 E (dl1_amount d)) (\<lambda>amount.
     bind_res (to_u64 E (dl1_timestamp d)) (\<lambda>timestamp.
     bind_res (push_deposits E ds) (\<lambda>rest.
     Ok (\<lparr>dep_to = address_to_hash E (dl1_user d), dep_amount = amount, dep_timestamp = timestamp\<rparr> # rest))))"

definition fetch_new_deposits :: "externs \<Rightarrow> 'l l1_calls \<Rightarrow> ('l, deposit list, anyhow) action" where
  "fetch_new_deposits E C =
     bind_m (context_m ''fetch_new_deposits processed_deposit_count err''
       (anyhow_m (call_processedDepositCount C))) (\<lambda>processed.
     bind_m (lift_m (to_u64 E processed)) (\<lambda>processed_deposit_count.
     bind_m (context_m ''fetch_new_deposits deposit_count err'' (anyhow_m (call_depositCount C))) (\<lambda>cnt.
     bind_m (lift_m (to_u64 E cnt)) (\<lambda>l1_deposit_count.
     if l1_deposit_count > processed_deposit_count
     then let num_to_fetch = l1_deposit_count - processed_deposit_count in
       bind_m (context_m ''fetch_new_deposits get_deposits err''
         (anyhow_m (call_getDeposits C (u256_from E processed_deposit_count) (u256_from E num_to_fetch))))
         (\<lambda>deposits_from_l1. lift_m (push_deposits E deposits_from_l1))
     else return_m []))))"

definition forced_tx_of_l1 :: "externs \<Rightarrow> forced_transaction_l1 \<Rightarrow> u64 \<Rightarrow> forced_tx" where
  "forced_tx_of_l1 E l1_tx timestamp_u64 =
     (case bincode_forced_tx E (fl1_data l1_tx) of
        Some tx \<Rightarrow> tx\<lparr>ftx_timestamp := timestamp_u64, ftx_l2_calldata := fl1_data l1_tx\<rparr>
      | None \<Rightarrow> \<lparr>ftx_from = hash_default, ftx_to = hash_default, ftx_nonce = 0, ftx_fee = 0,
          ftx_amount = 0, ftx_timestamp = timestamp_u64, ftx_l2_calldata = fl1_data l1_tx\<rparr>)"

fun push_forced_txs :: "externs \<Rightarrow> forced_transaction_l1 list \<Rightarrow> (forced_tx list, anyhow) result" where
  "push_forced_txs E [] = Ok []"
| "push_forced_txs E (l1_tx # txs) =
     bind_res (to_u64 E (fl1_timestamp l1_tx)) (\<lambda>timestamp_u64.
     bind_res (push_forced_txs E txs) (\<lambda>rest.
     Ok (forced_tx_of_l1 E l1_tx timestamp_u64 # rest)))"

definition fetch_new_forced_txs :: "externs \<Rightarrow> 'l l1_calls \<Rightarrow> ('l, forced_tx list, anyhow) action" where
  "fetch_new_forced_txs E C =
     bind_m (context_m ''fetch_new_forced_txs processed_forced_tx_count err''
       (anyhow_m (call_processedForcedTxCount C))) (\<lambda>processed.
     bind_m (lift_m (to_u64 E processed)) (\<lambda>processed_forced_tx_count.
     bind_m (context_m ''fetch_new_forced_txs forced_tx_count err'' (anyhow_m (call_forcedTxCount C))) (\<lambda>cnt.
     bind_m (lift_m (to_u64 E cnt)) (\<lambda>l1_forced_tx_count.
     if l1_forced_tx_count > processed_forced_tx_count
     then let num_to_fetch = l1_forced_tx_count - processed_forced_tx_count in
       bind_m (context_m ''fetch_new_forced_txs get_forced_transactions err''
         (anyhow_m (call_getForcedTransactions C (u256_from E processed_forced_tx_count)
           (u256_from E num_to_fetch))))
         (\<lambda>forced_txs_from_l1. lift_m (push_forced_txs E forced_txs_from_l1))
     else return_m []))))"

section \<open>Conversions\<close>

context alloy
begin

lemma to_u64_Ok_iff: "to_u64 E w = Ok x \<longleftrightarrow> unat w = unat x"
proof -
  have "unat w < 2 ^ 64 \<Longrightarrow> unat (ucast w :: u64) = unat w"
    by (simp add: unsigned_ucast_eq take_bit_nat_eq_self_iff)
  then show ?thesis
    using unat_u64_less [of x] by (auto simp: to_u64_def u256_to_u64 word_unat_eq_iff)
qed

lemma to_u64_panics: "2 ^ 64 \<le> unat w \<Longrightarrow> to_u64 E w = Panic ''Uint conversion error''"
  by (simp add: to_u64_def u256_to_u64)

lemma to_u64_fits: "unat w < 2 ^ 64 \<Longrightarrow> \<exists>x. to_u64 E w = Ok x \<and> unat x = unat w"
  by (metis to_u64_Ok_iff unat_of_nat_u64)

lemma unat_u256_from: "unat (u256_from E x) = unat x"
  using unat_u64_less [of x] by (simp add: u256_from unsigned_ucast_eq take_bit_nat_eq_self_iff)

text \<open>An address goes into the last 20 bytes of an identity and comes back.\<close>

lemma address_round_trip: "address_from_slice E (drop 12 (hash_bytes (address_to_hash E a))) = a"
  by (simp add: address_to_hash_def hash_bytes_hash_of address_as_slice address_from_slice)

lemma push_deposits_Ok:
  assumes "\<forall>d \<in> set ds. unat (dl1_amount d) < 2 ^ 64 \<and> unat (dl1_timestamp d) < 2 ^ 64"
  shows "\<exists>rs. push_deposits E ds = Ok rs \<and> map (l1_of_deposit E) rs = ds"
  using assms
proof (induction ds)
  case (Cons d ds)
  then obtain rs where rs: "push_deposits E ds = Ok rs" "map (l1_of_deposit E) rs = ds" by auto
  from Cons.prems to_u64_fits obtain x y where x: "to_u64 E (dl1_amount d) = Ok x" "unat x = unat (dl1_amount d)"
    and y: "to_u64 E (dl1_timestamp d) = Ok y" "unat y = unat (dl1_timestamp d)"
    by (metis list.set_intros(1))
  have "u256_from E x = dl1_amount d" "u256_from E y = dl1_timestamp d"
    using x(2) y(2) by (simp_all add: word_unat_eq_iff unat_u256_from)
  then have "l1_of_deposit E \<lparr>dep_to = address_to_hash E (dl1_user d), dep_amount = x, dep_timestamp = y\<rparr> = d"
    by (simp add: l1_of_deposit_def address_round_trip)
  then show ?case using rs x y by simp
qed simp

lemma push_deposits_panics:
  assumes "d \<in> set ds" and "2 ^ 64 \<le> unat (dl1_amount d)"
  shows "\<exists>msg. push_deposits E ds = Panic msg"
  using assms(1)
proof (induction ds)
  case (Cons c ds)
  show ?case
  proof (cases "c = d")
    case True
    then show ?thesis using assms(2) by (simp add: to_u64_panics)
  next
    case False
    with Cons obtain msg where "push_deposits E ds = Panic msg" by auto
    then show ?thesis
      by (cases "u256_to_u64 E (dl1_amount c)"; cases "u256_to_u64 E (dl1_timestamp c)") (simp_all add: to_u64_def)
  qed
qed simp

lemma l1_of_forced_tx_of_l1:
  "unat t = unat (fl1_timestamp f) \<Longrightarrow> l1_of_forced E (forced_tx_of_l1 E f t) = f"
  by (simp add: l1_of_forced_def forced_tx_of_l1_def word_unat_eq_iff unat_u256_from split: option.split)

lemma push_forced_txs_Ok:
  assumes "\<forall>f \<in> set fs. unat (fl1_timestamp f) < 2 ^ 64"
  shows "\<exists>rs. push_forced_txs E fs = Ok rs \<and> map (l1_of_forced E) rs = fs"
  using assms
proof (induction fs)
  case (Cons f fs)
  then obtain rs where rs: "push_forced_txs E fs = Ok rs" "map (l1_of_forced E) rs = fs" by auto
  from Cons.prems to_u64_fits obtain y where y: "to_u64 E (fl1_timestamp f) = Ok y" "unat y = unat (fl1_timestamp f)"
    by (metis list.set_intros(1))
  then show ?case using rs by (simp add: l1_of_forced_tx_of_l1)
qed simp

end

section \<open>The contract as the endpoint\<close>

text \<open>
  The state of the endpoint is the list of contract states at which the coming calls are
  answered, so that other transactions may come between two calls of one fetch.
\<close>

definition at_bridge :: "(bridge \<Rightarrow> ('a, string) result) \<Rightarrow> (bridge list, 'a, string) action" where
  "at_bridge f bs = (case bs of [] \<Rightarrow> (Err ''connection closed'', []) | b # rest \<Rightarrow> (f b, rest))"

definition bridge_calls :: "bridge list l1_calls" where
  "bridge_calls =
     \<lparr>call_processedDepositCount = at_bridge (\<lambda>b. Ok (processedDepositCount b)),
      call_depositCount = at_bridge (\<lambda>b. Ok (depositCount b)),
      call_getDeposits = (\<lambda>start n. at_bridge (getDeposits start n)),
      call_processedForcedTxCount = at_bridge (\<lambda>b. Ok (processedForcedTxCount b)),
      call_forcedTxCount = at_bridge (\<lambda>b. Ok (forcedTxCount b)),
      call_getForcedTransactions = (\<lambda>start n. at_bridge (getForcedTransactions start n))\<rparr>"

lemmas fetch_simps = bind_m_split context_m_def anyhow_m_def bridge_calls_def at_bridge_def Let_def

lemma getDeposits_Ok:
  assumes "bridge_ok b" and "unat start + unat n \<le> length (pendingDeposits b)"
  shows "getDeposits start n b = Ok (queue_slice (pendingDeposits b) start (unat n))"
proof -
  have le: "length (pendingDeposits b) \<le> 2 ^ 64" and cnt: "depositCount b = of_nat (length (pendingDeposits b))"
    using assms(1) by (simp_all add: bridge_ok_def)
  have sum: "unat (start + n) = unat start + unat n"
    using assms(2) le by (simp add: unat_word_ariths)
  then have "sol_add start n = Ok (start + n)" by (simp add: sol_add_Ok)
  moreover have "start + n \<le> depositCount b"
    using assms(2) le sum by (simp add: cnt counter_le_iff)
  ultimately show ?thesis
    using assms(2) by (simp add: getDeposits_def require_def sol_range_Ok queue_slice_def)
qed

lemma getForcedTransactions_Ok:
  assumes "bridge_ok b" and "unat start + unat n \<le> length (forcedTransactions b)"
  shows "getForcedTransactions start n b = Ok (queue_slice (forcedTransactions b) start (unat n))"
proof -
  have le: "length (forcedTransactions b) \<le> 2 ^ 64" and cnt: "forcedTxCount b = of_nat (length (forcedTransactions b))"
    using assms(1) by (simp_all add: bridge_ok_def)
  have sum: "unat (start + n) = unat start + unat n"
    using assms(2) le by (simp add: unat_word_ariths)
  then have "sol_add start n = Ok (start + n)" by (simp add: sol_add_Ok)
  moreover have "start + n \<le> forcedTxCount b"
    using assms(2) le sum by (simp add: cnt counter_le_iff)
  ultimately show ?thesis
    using assms(2) by (simp add: getForcedTransactions_def require_def sol_range_Ok queue_slice_def)
qed

text \<open>What a fetch asks for: everything queued at the second call and not processed at the first.\<close>

definition unprocessed_deposits :: "bridge \<Rightarrow> bridge \<Rightarrow> deposit_l1 list" where
  "unprocessed_deposits b0 b1 = drop (unat (processedDepositCount b0)) (pendingDeposits b1)"

definition unprocessed_forced :: "bridge \<Rightarrow> bridge \<Rightarrow> forced_transaction_l1 list" where
  "unprocessed_forced b0 b1 = drop (unat (processedForcedTxCount b0)) (forcedTransactions b1)"

lemma extended_slice:
  assumes "xs' = xs @ ys" and "unat start \<le> length xs"
  shows "queue_slice xs' start (length xs - unat start) = drop (unat start) xs"
  using assms by (simp add: queue_slice_def)

text \<open>Three states of the contract that follow each other in a run, and a queue that fits 64 bits.\<close>

definition fetch_window :: "bridge \<Rightarrow> bridge \<Rightarrow> bridge \<Rightarrow> bool" where
  "fetch_window b0 b1 b2 \<longleftrightarrow> bridge_ok b0 \<and> bridge_ok b1 \<and> bridge_ok b2 \<and> bridge_extends b0 b1
     \<and> bridge_extends b1 b2 \<and> length (pendingDeposits b1) < 2 ^ 64 \<and> length (forcedTransactions b1) < 2 ^ 64"

context alloy
begin

lemma fetch_new_deposits_run:
  assumes "fetch_window b0 b1 b2"
  shows "fst (fetch_new_deposits E bridge_calls [b0, b1, b2]) = push_deposits E (unprocessed_deposits b0 b1)"
proof -
  let ?p = "unat (processedDepositCount b0)" and ?n = "length (pendingDeposits b1)"
  from assms obtain ys where b2: "pendingDeposits b2 = pendingDeposits b1 @ ys"
    by (auto simp: fetch_window_def bridge_extends_def)
  have ok: "bridge_ok b0" "bridge_ok b1" "bridge_ok b2" and n: "?n < 2 ^ 64"
    using assms by (simp_all add: fetch_window_def)
  have "length (pendingDeposits b0) \<le> ?n"
    using assms by (auto simp: fetch_window_def bridge_extends_def)
  with processed_bound(1) [OF ok(1)] have p: "?p \<le> ?n" by linarith
  have cnt: "unat (depositCount b1) = ?n"
    using ok(2) n by (simp add: bridge_ok_def unat_of_nat_u256)
  from p n to_u64_fits [of "processedDepositCount b0"] obtain x
    where x: "to_u64 E (processedDepositCount b0) = Ok x" "unat x = ?p" by auto
  from n cnt to_u64_fits [of "depositCount b1"] obtain y
    where y: "to_u64 E (depositCount b1) = Ok y" "unat y = ?n" by auto
  show ?thesis
  proof (cases "y > x")
    case True
    then have num: "unat (u256_from E (y - x)) = ?n - ?p"
      using x y by (simp add: unat_u256_from unat_sub_le less_imp_le)
    have "getDeposits (u256_from E x) (u256_from E (y - x)) b2
        = Ok (queue_slice (pendingDeposits b2) (u256_from E x) (unat (u256_from E (y - x))))"
      using ok(3) p num x(2) b2 by (intro getDeposits_Ok) (simp_all add: unat_u256_from)
    moreover have "queue_slice (pendingDeposits b2) (u256_from E x) (unat (u256_from E (y - x)))
        = unprocessed_deposits b0 b1"
      unfolding num unprocessed_deposits_def
      using extended_slice [OF b2, of "u256_from E x"] p x(2) by (simp add: unat_u256_from)
    ultimately show ?thesis
      using True x(1) y(1) by (simp add: fetch_new_deposits_def fetch_simps)
  next
    case False
    then have "?n \<le> ?p" using x y by (simp add: word_less_nat_alt)
    then show ?thesis
      using False x(1) y(1) by (simp add: fetch_new_deposits_def fetch_simps unprocessed_deposits_def)
  qed
qed

lemma fetch_new_forced_txs_run:
  assumes "fetch_window b0 b1 b2"
  shows "fst (fetch_new_forced_txs E bridge_calls [b0, b1, b2]) = push_forced_txs E (unprocessed_forced b0 b1)"
proof -
  let ?p = "unat (processedForcedTxCount b0)" and ?n = "length (forcedTransactions b1)"
  from assms obtain ys where b2: "forcedTransactions b2 = forcedTransactions b1 @ ys"
    by (auto simp: fetch_window_def bridge_extends_def)
  have ok: "bridge_ok b0" "bridge_ok b1" "bridge_ok b2" and n: "?n < 2 ^ 64"
    using assms by (simp_all add: fetch_window_def)
  have "length (forcedTransactions b0) \<le> ?n"
    using assms by (auto simp: fetch_window_def bridge_extends_def)
  with processed_bound(2) [OF ok(1)] have p: "?p \<le> ?n" by linarith
  have cnt: "unat (forcedTxCount b1) = ?n"
    using ok(2) n by (simp add: bridge_ok_def unat_of_nat_u256)
  from p n to_u64_fits [of "processedForcedTxCount b0"] obtain x
    where x: "to_u64 E (processedForcedTxCount b0) = Ok x" "unat x = ?p" by auto
  from n cnt to_u64_fits [of "forcedTxCount b1"] obtain y
    where y: "to_u64 E (forcedTxCount b1) = Ok y" "unat y = ?n" by auto
  show ?thesis
  proof (cases "y > x")
    case True
    then have num: "unat (u256_from E (y - x)) = ?n - ?p"
      using x y by (simp add: unat_u256_from unat_sub_le less_imp_le)
    have "getForcedTransactions (u256_from E x) (u256_from E (y - x)) b2
        = Ok (queue_slice (forcedTransactions b2) (u256_from E x) (unat (u256_from E (y - x))))"
      using ok(3) p num x(2) b2 by (intro getForcedTransactions_Ok) (simp_all add: unat_u256_from)
    moreover have "queue_slice (forcedTransactions b2) (u256_from E x) (unat (u256_from E (y - x)))
        = unprocessed_forced b0 b1"
      unfolding num unprocessed_forced_def
      using extended_slice [OF b2, of "u256_from E x"] p x(2) by (simp add: unat_u256_from)
    ultimately show ?thesis
      using True x(1) y(1) by (simp add: fetch_new_forced_txs_def fetch_simps)
  next
    case False
    then have "?n \<le> ?p" using x y by (simp add: word_less_nat_alt)
    then show ?thesis
      using False x(1) y(1) by (simp add: fetch_new_forced_txs_def fetch_simps unprocessed_forced_def)
  qed
qed

end

lemma push_deposits_append:
  "push_deposits E xs = Ok rs \<Longrightarrow> push_deposits E (xs @ ys) = Ok ts \<Longrightarrow> \<exists>us. ts = rs @ us"
proof (induction xs arbitrary: rs ts)
  case (Cons x xs)
  then obtain r rs' where "push_deposits E xs = Ok rs'" "rs = r # rs'"
    and "\<exists>ts'. push_deposits E (xs @ ys) = Ok ts' \<and> ts = r # ts'"
    by auto
  with Cons.IH show ?case by auto
qed simp

section \<open>Properties\<close>

text \<open>
C34. A fetch returns exactly the unprocessed part of the contract's queues, also when other
  transactions reach the contract between the three calls of a fetch: provided that amounts
  and timestamps fit 64 bits, \<open>fetch_new_deposits\<close> and \<open>fetch_new_forced_txs\<close> succeed, and
  what they return corresponds, item by item and in order, to the deposits and the forced
  transactions queued at the second call and not processed at the first. A forced transaction
  with undecodable data is kept in its place.
\<close>
theorem fetch_is_exact:
  assumes "alloy E" and "fetch_window b0 b1 b2"
    and "\<forall>d \<in> set (unprocessed_deposits b0 b1). unat (dl1_amount d) < 2 ^ 64 \<and> unat (dl1_timestamp d) < 2 ^ 64"
    and "\<forall>f \<in> set (unprocessed_forced b0 b1). unat (fl1_timestamp f) < 2 ^ 64"
  shows "(\<exists>ds. fst (fetch_new_deposits E bridge_calls [b0, b1, b2]) = Ok ds
        \<and> map (l1_of_deposit E) ds = unprocessed_deposits b0 b1)
    \<and> (\<exists>fs. fst (fetch_new_forced_txs E bridge_calls [b0, b1, b2]) = Ok fs
        \<and> map (l1_of_forced E) fs = unprocessed_forced b0 b1)"
  using alloy.push_deposits_Ok [OF assms(1,3)] alloy.push_forced_txs_Ok [OF assms(1,4)]
    alloy.fetch_new_deposits_run [OF assms(1,2)] alloy.fetch_new_forced_txs_run [OF assms(1,2)]
  by simp

lemma sample_window: "fetch_window sample_bridge sample_bridge sample_bridge"
  using sample_bridge_ok by (simp add: fetch_window_def) (simp add: sample_bridge_def bridge_new_def)

lemma sample_unprocessed:
  "unprocessed_deposits sample_bridge sample_bridge = [l1_of_deposit ref_externs to_alice]"
  "unprocessed_forced sample_bridge sample_bridge = []"
  by (simp_all add: unprocessed_deposits_def unprocessed_forced_def sample_bridge_def bridge_new_def)

theorem fetch_is_exact_witness:
  "\<exists>ds. fst (fetch_new_deposits ref_externs bridge_calls [sample_bridge, sample_bridge, sample_bridge]) = Ok ds
    \<and> map (l1_of_deposit ref_externs) ds = [l1_of_deposit ref_externs to_alice]"
  using fetch_is_exact [OF ref.alloy_axioms sample_window]
  by (simp add: sample_unprocessed l1_of_deposit_def ref.unat_u256_from to_alice_def)

text \<open>
C35. The batch the sequencer fetched is the batch the contract expects: when a guest runs on the
  contract's state root and on what the two fetches returned, its output is accepted by every
  later state of the contract that has the same root and has processed nothing more, so that
  the batch is neither refused nor out of step.
\<close>
theorem fetched_batch_is_accepted:
  assumes "alloy E" and "fetch_window b0 b1 b2"
    and "fst (fetch_new_deposits E bridge_calls [b0, b1, b2]) = Ok (gi_deposits inp)"
    and "fst (fetch_new_forced_txs E bridge_calls [b0, b1, b2]) = Ok (gi_forced_transactions inp)"
    and "\<forall>d \<in> set (unprocessed_deposits b0 b1). unat (dl1_amount d) < 2 ^ 64 \<and> unat (dl1_timestamp d) < 2 ^ 64"
    and "\<forall>f \<in> set (unprocessed_forced b0 b1). unat (fl1_timestamp f) < 2 ^ 64"
    and "length (gi_deposits inp) < 2 ^ 32" and "length (gi_forced_transactions inp) < 2 ^ 32"
    and "bridge_ok b" and "bridge_extends b2 b"
    and "processedDepositCount b = processedDepositCount b0"
    and "processedForcedTxCount b = processedForcedTxCount b0"
    and "gi_pre_state_root inp = stateRoot b" and "guest_main E inp = Ok out" and "verifyProof V out prf"
  shows "\<exists>b'. updateState E V out prf b = Ok b'
    \<and> unat (processedDepositCount b') = length (pendingDeposits b1)
    \<and> unat (processedForcedTxCount b') = length (forcedTransactions b1)"
proof -
  let ?ds = "gi_deposits inp" and ?fs = "gi_forced_transactions inp"
  let ?pd = "unat (processedDepositCount b0)" and ?pf = "unat (processedForcedTxCount b0)"
  have ds: "map (l1_of_deposit E) ?ds = unprocessed_deposits b0 b1"
    using assms(3) alloy.push_deposits_Ok [OF assms(1,5)] alloy.fetch_new_deposits_run [OF assms(1,2)] by auto
  have fs: "map (l1_of_forced E) ?fs = unprocessed_forced b0 b1"
    using assms(4) alloy.push_forced_txs_Ok [OF assms(1,6)] alloy.fetch_new_forced_txs_run [OF assms(1,2)] by auto
  have len: "length ?ds = length (pendingDeposits b1) - ?pd" "length ?fs = length (forcedTransactions b1) - ?pf"
    using ds [THEN arg_cong, of length] fs [THEN arg_cong, of length]
    by (simp_all add: unprocessed_deposits_def unprocessed_forced_def)
  have "bridge_extends b1 b"
    using assms(2,10) bridge_extends_trans by (auto simp: fetch_window_def)
  then obtain us vs where ext: "pendingDeposits b = pendingDeposits b1 @ us" "forcedTransactions b = forcedTransactions b1 @ vs"
    by (auto simp: bridge_extends_def)
  have "bridge_ok b0" "bridge_extends b0 b1" using assms(2) by (simp_all add: fetch_window_def)
  then have p: "?pd \<le> length (pendingDeposits b1)" "?pf \<le> length (forcedTransactions b1)"
    using processed_bound [of b0] by (auto simp: bridge_extends_def)
  have "\<exists>r. abi_decode_public_values E out = Some (public_values_of E inp r)
    \<and> updateState E V out prf b = Ok (b\<lparr>
        processedDepositCount := processedDepositCount b + of_nat (length ?ds),
        processedForcedTxCount := processedForcedTxCount b + of_nat (length ?fs), stateRoot := r\<rparr>)"
    using p ext len ds fs
    by (intro guest_output_accepted [OF assms(1,9,14,13) _ _ assms(7,8,15)])
      (simp_all add: assms(11,12) extended_slice unprocessed_deposits_def unprocessed_forced_def)
  then obtain b' where upd: "updateState E V out prf b = Ok b'"
    and b': "processedDepositCount b' = processedDepositCount b0 + of_nat (length ?ds)"
      "processedForcedTxCount b' = processedForcedTxCount b0 + of_nat (length ?fs)"
    by (auto simp: assms(11,12))
  have "length (pendingDeposits b1) \<le> 2 ^ 64" "length (forcedTransactions b1) \<le> 2 ^ 64"
    using assms(2) by (simp_all add: fetch_window_def)
  then have "unat (processedDepositCount b') = length (pendingDeposits b1)"
    "unat (processedForcedTxCount b') = length (forcedTransactions b1)"
    using p len assms(7,8) by (simp_all add: b' unat_word_ariths unat_of_nat)
  with upd show ?thesis by blast
qed

text \<open>A deposit by the address 5, the contract that queued it, and a guest that processes it.\<close>

definition l1_five :: deposit_l1 where
  "l1_five = \<lparr>dl1_user = 5, dl1_amount = 7, dl1_timestamp = 9\<rparr>"

definition dep_five :: deposit where
  "dep_five = \<lparr>dep_to = address_to_hash ref_externs 5, dep_amount = 7, dep_timestamp = 9\<rparr>"

definition input_five :: guest_input where
  "input_five = \<lparr>gi_pre_state_root = account_hash ref_externs (account_new (dep_to dep_five)),
     gi_transactions = [], gi_deposits = [dep_five], gi_forced_transactions = [],
     gi_proofs = \<lparr>proofs_deposits = [\<lparr>mp_account = account_new (dep_to dep_five), mp_siblings = []\<rparr>],
       proofs_forced_from = [], proofs_forced_to = [], proofs_txs_from = [], proofs_txs_to = []\<rparr>\<rparr>"

definition bridge_five :: bridge where
  "bridge_five = (bridge_new (gi_pre_state_root input_five))\<lparr>pendingDeposits := [l1_five], depositCount := 1\<rparr>"

lemma push_five: "push_deposits ref_externs [l1_five] = Ok [dep_five]"
  by (simp add: l1_five_def dep_five_def to_u64_def ref_externs_def)

lemma bridge_five_ok: "bridge_ok bridge_five"
  by (simp add: bridge_ok_def bridge_five_def bridge_new_def)

lemma window_five: "fetch_window bridge_five bridge_five bridge_five"
  using bridge_five_ok by (simp add: fetch_window_def) (simp add: bridge_five_def bridge_new_def)

lemma unprocessed_five:
  "unprocessed_deposits bridge_five bridge_five = [l1_five]" "unprocessed_forced bridge_five bridge_five = []"
  by (simp_all add: unprocessed_deposits_def unprocessed_forced_def bridge_five_def bridge_new_def)

lemma guest_five: "\<exists>out. guest_main ref_externs input_five = Ok out"
  by (simp add: guest_main_Ok_iff input_five_def execute_transition_def verify_def dep_five_def
      apply_deposit_def checked_add_def)

theorem fetched_batch_is_accepted_witness:
  "\<exists>out b'. guest_main ref_externs input_five = Ok out
    \<and> updateState ref_externs trusting_env out [] bridge_five = Ok b' \<and> unat (processedDepositCount b') = 1"
proof -
  from guest_five obtain out where run: "guest_main ref_externs input_five = Ok out" ..
  have "\<exists>b'. updateState ref_externs trusting_env out [] bridge_five = Ok b'
    \<and> unat (processedDepositCount b') = length (pendingDeposits bridge_five)
    \<and> unat (processedForcedTxCount b') = length (forcedTransactions bridge_five)"
  proof (rule fetched_batch_is_accepted [OF ref.alloy_axioms window_five])
    show "fst (fetch_new_deposits ref_externs bridge_calls [bridge_five, bridge_five, bridge_five])
        = Ok (gi_deposits input_five)"
      using push_five by (simp add: ref.fetch_new_deposits_run [OF window_five] unprocessed_five input_five_def)
    show "fst (fetch_new_forced_txs ref_externs bridge_calls [bridge_five, bridge_five, bridge_five])
        = Ok (gi_forced_transactions input_five)"
      by (simp add: ref.fetch_new_forced_txs_run [OF window_five] unprocessed_five input_five_def)
    show "guest_main ref_externs input_five = Ok out" by (fact run)
  qed (simp_all add: unprocessed_five l1_five_def input_five_def bridge_five_ok,
      simp_all add: bridge_five_def bridge_new_def input_five_def trusting_env_def)
  with run show ?thesis by (auto simp: bridge_five_def)
qed

text \<open>
  One large deposit stops the sequencer: while a deposit of \<open>2^64\<close> wei or more (about 18.4
  ether, which the contract accepts) is queued and not processed, every fetch of deposits
  panics.
\<close>

lemma large_deposit_panics:
  assumes "alloy E" and "fetch_window b0 b1 b2" and "d \<in> set (unprocessed_deposits b0 b1)"
    and "2 ^ 64 \<le> unat (dl1_amount d)"
  shows "\<exists>msg. fst (fetch_new_deposits E bridge_calls [b0, b1, b2]) = Panic msg"
  using alloy.push_deposits_panics [OF assms(1,3,4)] alloy.fetch_new_deposits_run [OF assms(1,2)] by simp

text \<open>
C36. Deposits are fetched again until they are proven: a later fetch that starts while the
  contract's processed count is unchanged returns all deposits of the earlier fetch once more,
  before the new ones, so that each block built in between credits them again.
\<close>
theorem deposits_are_fetched_again:
  assumes "alloy E" and "fetch_window b0 b1 b2" and "fetch_window c0 c1 c2"
    and "processedDepositCount c0 = processedDepositCount b0" and "bridge_extends b1 c1"
    and "fst (fetch_new_deposits E bridge_calls [b0, b1, b2]) = Ok ds"
    and "fst (fetch_new_deposits E bridge_calls [c0, c1, c2]) = Ok ds'"
  shows "\<exists>new. ds' = ds @ new"
proof -
  from assms(5) obtain us where "pendingDeposits c1 = pendingDeposits b1 @ us"
    by (auto simp: bridge_extends_def)
  moreover have "unat (processedDepositCount b0) \<le> length (pendingDeposits b1)"
    using assms(2) processed_bound(1) [of b0] by (auto simp: fetch_window_def bridge_extends_def)
  ultimately have "unprocessed_deposits c0 c1 = unprocessed_deposits b0 b1 @ us"
    using assms(4) by (simp add: unprocessed_deposits_def)
  with assms(6,7) push_deposits_append show ?thesis
    unfolding alloy.fetch_new_deposits_run [OF assms(1,2)] alloy.fetch_new_deposits_run [OF assms(1,3)]
    by metis
qed

theorem deposits_are_fetched_again_witness:
  "\<exists>c new. fst (fetch_new_deposits ref_externs bridge_calls [bridge_five, bridge_five, bridge_five]) = Ok [dep_five]
    \<and> deposit_call 5 7 9 bridge_five = Ok c
    \<and> fst (fetch_new_deposits ref_externs bridge_calls [c, c, c]) = Ok ([dep_five] @ new)"
proof -
  let ?c = "bridge_five\<lparr>pendingDeposits := [l1_five, l1_five], depositCount := 2\<rparr>"
  have dep: "deposit_call 5 7 9 bridge_five = Ok ?c"
    by (simp add: deposit_call_Ok_iff bridge_five_def bridge_new_def l1_five_def)
  have win: "fetch_window ?c ?c ?c"
    by (simp add: fetch_window_def bridge_ok_def bridge_five_def bridge_new_def word_le_nat_alt)
  have first: "fst (fetch_new_deposits ref_externs bridge_calls [bridge_five, bridge_five, bridge_five]) = Ok [dep_five]"
    using push_five by (simp only: ref.fetch_new_deposits_run [OF window_five] unprocessed_five)
  have "unprocessed_deposits ?c ?c = [l1_five, l1_five]"
    by (simp add: unprocessed_deposits_def bridge_five_def bridge_new_def)
  then have second: "fst (fetch_new_deposits ref_externs bridge_calls [?c, ?c, ?c]) = Ok [dep_five, dep_five]"
    by (simp add: ref.fetch_new_deposits_run [OF win] del: push_deposits.simps)
      (simp add: l1_five_def dep_five_def to_u64_def ref_externs_def)
  from deposits_are_fetched_again [OF ref.alloy_axioms window_five win _ _ first second]
  obtain new where "[dep_five, dep_five] = [dep_five] @ new"
    by (auto simp: bridge_five_def bridge_new_def bridge_extends_def)
  with first second dep show ?thesis by metis
qed

end
