(* ===== verification/Sequencer.thy ===== *)
theory Sequencer
  imports Core_Proofs Queue_Store L1_Fetch
begin

text \<open>
  \<^verbatim>\<open>crates/sequencer/src/main.rs\<close>: the state the sequencer shares between its HTTP handler
  and its two workers, the sections each of them runs without giving up control, and the
  interleaving of these sections as a step relation.
\<close>

section \<open>Parameters and state\<close>

text \<open>
  Everything outside the repository, with the configuration switch \<open>l1.enabled\<close>. A call on
  the network (the contract's views, the prover, the submission) runs on a state \<open>'l\<close> of the
  outside world that may be any other at the next call.
\<close>

record ('t, 'd, 'l) params =
  p_tree :: "'t tree_ops"
  p_ext :: externs
  p_iteration :: "(hash \<times> account) list \<Rightarrow> (hash \<times> account) list"
  p_kv :: "'d kv_ops"
  p_codec :: block_codec
  p_calls :: "'l l1_calls"
  p_prove :: "guest_input \<Rightarrow> ('l, bytes \<times> bytes, string) action"
  p_parse_key :: "(unit, string) result"
  p_parse_url :: "(unit, string) result"
  p_send :: "bytes \<Rightarrow> bytes \<Rightarrow> ('l, unit, string) action"
  p_receipt_status :: "('l, bool, string) action"
  l1_enabled :: bool

text \<open>
  \<open>AppState\<close>: the mempool, the two heads, the tree behind its mutex, the block counter and the
  queue database. The mutex is poisoned by a panic of its holder.
\<close>

record ('t, 'd) app_state =
  mempool :: "transaction list"
  proven :: hash
  optimistic :: hash
  tree :: 't
  poisoned :: bool
  block_counter :: u64
  queue_db :: 'd

section \<open>The sections of the code\<close>

definition handle_submit_tx :: "transaction \<Rightarrow> (('t, 'd) app_state, string, sequencer_error) action" where
  "handle_submit_tx tx app = (Ok ''tx accepted'', app\<lparr>mempool := mempool app @ [tx]\<rparr>)"

definition drain_mempool :: "nat \<Rightarrow> (('t, 'd) app_state, unit, anyhow) action" where
  "drain_mempool n app =
     (if n \<le> length (mempool app) then (Ok (), app\<lparr>mempool := drop n (mempool app)\<rparr>)
      else (Panic ''range end index out of range'', app))"

text \<open>The blocking section of the optimistic worker, under the lock of the tree.\<close>

definition optimistic_section ::
  "('t, 'd, 'l) params \<Rightarrow> hash \<Rightarrow> transaction list \<Rightarrow> deposit list \<Rightarrow> forced_tx list
     \<Rightarrow> (('t, 'd) app_state, u64 \<times> hash, anyhow) action" where
  "optimistic_section P pre_root txs deposits forced_txs app =
     (if poisoned app then (Err [error_message StateLockPoisoned], app)
      else case apply_optimistic_batch (p_tree P) (p_ext P) (p_iteration P) (Some pre_root)
          txs deposits forced_txs (tree app) of
        (Ok new_optimistic_root, t) \<Rightarrow>
          (Ok (block_counter app, new_optimistic_root),
           app\<lparr>tree := mt_set_headroot (p_tree P) (Some new_optimistic_root) t,
               block_counter := block_counter app + 1\<rparr>)
      | (Err e, t) \<Rightarrow> (Err [error_message e], app\<lparr>tree := t\<rparr>)
      | (Panic msg, t) \<Rightarrow>
          (Err [''optimistic_worker_loop spawn_blocking err'', msg], app\<lparr>tree := t, poisoned := True\<rparr>))"

text \<open>The last section of an iteration: \<open>commit_optimistic_block(&block, block_number + 1)?\<close>.\<close>

definition commit_section ::
  "('t, 'd, 'l) params \<Rightarrow> pending_block \<Rightarrow> (('t, 'd) app_state, unit, anyhow) action" where
  "commit_section P block app =
     (case plain_add (overflow_checks (p_ext P)) (block_number block) 1 of
        Ok next \<Rightarrow>
          (case commit_optimistic_block (p_kv P) (p_codec P) block next (queue_db app) of
             (r, d) \<Rightarrow> (r, app\<lparr>queue_db := d\<rparr>))
      | Err e \<Rightarrow> (Err e, app)
      | Panic msg \<Rightarrow> (Panic msg, app))"

text \<open>The blocking section of the prover, under the lock of the tree.\<close>

definition generate_section ::
  "('t, 'd, 'l) params \<Rightarrow> pending_block \<Rightarrow> (('t, 'd) app_state, proof_bundle, anyhow) action" where
  "generate_section P block app =
     (if poisoned app then (Err [error_message StateLockPoisoned], app)
      else case generate_proofs_for_block (p_tree P) (p_ext P) block (tree app) of
        (Ok proofs, t) \<Rightarrow> (Ok proofs, app\<lparr>tree := t\<rparr>)
      | (Err e, t) \<Rightarrow> (Err [core_error_message e], app\<lparr>tree := t\<rparr>)
      | (Panic msg, t) \<Rightarrow> (Err [msg], app\<lparr>tree := t, poisoned := True\<rparr>))"

text \<open>The check of the proof's public values against the block.\<close>

definition check_public_values :: "externs \<Rightarrow> pending_block \<Rightarrow> bytes \<Rightarrow> (hash, anyhow) result" where
  "check_public_values E block public_values =
     bind_res (ok_or [''abi_decode''] (abi_decode_public_values E public_values)) (\<lambda>decoded_pv.
     if postStateRoot decoded_pv \<noteq> post_state_root block
     then Err [''process_and_prove_batch root mismatch'']
     else Ok (postStateRoot decoded_pv))"

definition submit_proof_to_l1 ::
  "('t, 'd, 'l) params \<Rightarrow> bytes \<Rightarrow> bytes \<Rightarrow> ('l, unit, anyhow) action" where
  "submit_proof_to_l1 P public_values prf =
     bind_m (lift_m (map_err (\<lambda>e. [''submit_proof_to_l1 from_str err'', e]) (p_parse_key P))) (\<lambda>_.
     bind_m (lift_m (map_err (\<lambda>e. [e]) (p_parse_url P))) (\<lambda>_.
     bind_m (anyhow_m (p_send P public_values prf)) (\<lambda>_.
     bind_m (context_m ''submit_proof_to_l1 get_receipt err'' (anyhow_m (p_receipt_status P))) (\<lambda>status.
     if \<not> status then lift_m (Err [''submit_proof_to_l1 tx reverted'']) else return_m ()))))"

text \<open>
  What \<open>process_and_prove_batch\<close> does on the network between its two accesses to the shared
  state: prove, check, and submit where L1 is enabled.
\<close>

definition prove_section ::
  "('t, 'd, 'l) params \<Rightarrow> pending_block \<Rightarrow> proof_bundle \<Rightarrow> ('l, hash, anyhow) action" where
  "prove_section P block proofs =
     bind_m (context_m ''process_and_prove_batch prove err'' (anyhow_m (p_prove P (block_input block proofs))))
       (\<lambda>(public_values, prf).
     bind_m (lift_m (check_public_values (p_ext P) block public_values)) (\<lambda>post_root.
     bind_m (if l1_enabled P
             then context_m ''process_and_prove_batch submit_proof err'' (submit_proof_to_l1 P public_values prf)
             else return_m ()) (\<lambda>_.
     return_m post_root)))"

definition on_queue :: "('d, 'a, 'e) action \<Rightarrow> (('t, 'd) app_state, 'a, 'e) action" where
  "on_queue m app = (case m (queue_db app) of (r, d) \<Rightarrow> (r, app\<lparr>queue_db := d\<rparr>))"

definition fetch_section ::
  "('t, 'd, 'l) params \<Rightarrow> 'l \<Rightarrow> 'l \<Rightarrow> (deposit list \<times> forced_tx list, anyhow) result" where
  "fetch_section P l l' =
     (if l1_enabled P
      then
        bind_res (fst (context_m ''optimistic_worker_loop fetch_new_deposits err''
          (fetch_new_deposits (p_ext P) (p_calls P)) l)) (\<lambda>deposits.
        bind_res (fst (context_m ''optimistic_worker_loop fetch_new_forced_txs err''
          (fetch_new_forced_txs (p_ext P) (p_calls P)) l')) (\<lambda>forced_txs.
        Ok (deposits, forced_txs)))
      else Ok ([], []))"

section \<open>The workers\<close>

text \<open>
  Where the optimistic worker stands in its loop, with the local variables it has assigned.
  A worker that returned an error or panicked has stopped; if it had already drained the
  mempool for a block, that block is kept.
\<close>

datatype opt_pc =
    OptSleep
  | OptFetched "deposit list" "forced_tx list"
  | OptBatch "deposit list" "forced_tx list" "transaction list"
  | OptRoot "deposit list" "forced_tx list" "transaction list" hash
  | OptApplied pending_block
  | OptHead pending_block
  | OptDrained pending_block
  | OptStopped "pending_block option"

datatype prv_pc =
    PrvSleep
  | PrvBlock pending_block nat
  | PrvGenerated pending_block nat proof_bundle
  | PrvRoot pending_block hash
  | PrvDone pending_block
  | PrvGiveUp pending_block
  | PrvFiled pending_block
  | PrvStopped

datatype event =
    Accept transaction
  | Produce pending_block
  | Prove pending_block
  | Retire pending_block
  | Silent

inductive opt_step ::
  "('t, 'd, 'l) params \<Rightarrow> opt_pc \<times> ('t, 'd) app_state \<Rightarrow> event \<Rightarrow> opt_pc \<times> ('t, 'd) app_state \<Rightarrow> bool"
  for P where
  opt_fetch: "fetch_section P l l' = Ok (deposits, forced_txs) \<Longrightarrow>
    opt_step P (OptSleep, a) Silent (OptFetched deposits forced_txs, a)"
| opt_fetch_fails: "\<forall>x. fetch_section P l l' \<noteq> Ok x \<Longrightarrow>
    opt_step P (OptSleep, a) Silent (OptStopped None, a)"
| opt_continue: "mempool a = [] \<and> deposits = [] \<and> forced_txs = [] \<Longrightarrow>
    opt_step P (OptFetched deposits forced_txs, a) Silent (OptSleep, a)"
| opt_batch: "\<not> (mempool a = [] \<and> deposits = [] \<and> forced_txs = []) \<Longrightarrow>
    opt_step P (OptFetched deposits forced_txs, a) Silent (OptBatch deposits forced_txs (mempool a), a)"
| opt_root: "opt_step P (OptBatch deposits forced_txs txs, a) Silent
    (OptRoot deposits forced_txs txs (optimistic a), a)"
| opt_apply: "optimistic_section P pre_root txs deposits forced_txs a = (Ok (n, new_root), a') \<Longrightarrow>
    opt_step P (OptRoot deposits forced_txs txs pre_root, a) Silent
      (OptApplied \<lparr>block_number = n, pb_txs = txs, pb_deposits = deposits, pb_forced_txs = forced_txs,
         pre_state_root = pre_root, post_state_root = new_root\<rparr>, a')"
| opt_apply_fails: "optimistic_section P pre_root txs deposits forced_txs a = (r, a') \<Longrightarrow> \<forall>x. r \<noteq> Ok x \<Longrightarrow>
    opt_step P (OptRoot deposits forced_txs txs pre_root, a) Silent (OptStopped None, a')"
| opt_head: "opt_step P (OptApplied block, a) Silent
    (OptHead block, a\<lparr>optimistic := post_state_root block\<rparr>)"
| opt_drain: "drain_mempool (length (pb_txs block)) a = (Ok (), a') \<Longrightarrow>
    opt_step P (OptHead block, a) Silent (OptDrained block, a')"
| opt_drain_fails: "drain_mempool (length (pb_txs block)) a = (r, a') \<Longrightarrow> r \<noteq> Ok () \<Longrightarrow>
    opt_step P (OptHead block, a) Silent (OptStopped None, a')"
| opt_commit: "commit_section P block a = (Ok (), a') \<Longrightarrow>
    opt_step P (OptDrained block, a) (Produce block) (OptSleep, a')"
| opt_commit_fails: "commit_section P block a = (r, a') \<Longrightarrow> r \<noteq> Ok () \<Longrightarrow>
    opt_step P (OptDrained block, a) Silent (OptStopped (Some block), a')"

definition MAX_RETRIES :: nat where
  "MAX_RETRIES = 3"

text \<open>An error of \<open>process_and_prove_batch\<close>: one more attempt, or the failed queue.\<close>

definition after_failure :: "pending_block \<Rightarrow> nat \<Rightarrow> prv_pc" where
  "after_failure block retries =
     (if Suc retries \<ge> MAX_RETRIES then PrvGiveUp block else PrvBlock block (Suc retries))"

text \<open>
  The operations on the queue are retried with a backoff that gives up at some point: a
  failure leads to another attempt or stops the worker.
\<close>

inductive prv_step ::
  "('t, 'd, 'l) params \<Rightarrow> prv_pc \<times> ('t, 'd) app_state \<Rightarrow> event \<Rightarrow> prv_pc \<times> ('t, 'd) app_state \<Rightarrow> bool"
  for P where
  prv_none: "on_queue (peek_pending (p_kv P) (p_codec P)) a = (Ok None, a') \<Longrightarrow>
    prv_step P (PrvSleep, a) Silent (PrvSleep, a')"
| prv_peek: "on_queue (peek_pending (p_kv P) (p_codec P)) a = (Ok (Some block), a') \<Longrightarrow>
    prv_step P (PrvSleep, a) Silent (PrvBlock block 0, a')"
| prv_peek_fails: "on_queue (peek_pending (p_kv P) (p_codec P)) a = (r, a') \<Longrightarrow> \<forall>x. r \<noteq> Ok x \<Longrightarrow>
    prv_step P (PrvSleep, a) Silent (PrvStopped, a')"
| prv_generate: "generate_section P block a = (Ok proofs, a') \<Longrightarrow>
    prv_step P (PrvBlock block n, a) Silent (PrvGenerated block n proofs, a')"
| prv_generate_fails: "generate_section P block a = (r, a') \<Longrightarrow> \<forall>x. r \<noteq> Ok x \<Longrightarrow>
    prv_step P (PrvBlock block n, a) Silent (after_failure block n, a')"
| prv_prove: "fst (prove_section P block proofs l) = Ok root \<Longrightarrow>
    prv_step P (PrvGenerated block n proofs, a) Silent (PrvRoot block root, a)"
| prv_prove_fails: "fst (prove_section P block proofs l) = Err e \<Longrightarrow>
    prv_step P (PrvGenerated block n proofs, a) Silent (after_failure block n, a)"
| prv_prove_panics: "fst (prove_section P block proofs l) = Panic msg \<Longrightarrow>
    prv_step P (PrvGenerated block n proofs, a) Silent (PrvStopped, a)"
| prv_head: "prv_step P (PrvRoot block root, a) (Prove block) (PrvDone block, a\<lparr>proven := root\<rparr>)"
| prv_remove: "pc \<in> {PrvDone block, PrvFiled block} \<Longrightarrow>
    on_queue (remove_pending (p_kv P) (block_number block)) a = (Ok (), a') \<Longrightarrow>
    prv_step P (pc, a) (Retire block) (PrvSleep, a')"
| prv_remove_fails: "pc \<in> {PrvDone block, PrvFiled block} \<Longrightarrow>
    on_queue (remove_pending (p_kv P) (block_number block)) a = (r, a') \<Longrightarrow> r \<noteq> Ok () \<Longrightarrow>
    pc' \<in> {pc, PrvStopped} \<Longrightarrow> prv_step P (pc, a) Silent (pc', a')"
| prv_file: "on_queue (push_failed (p_kv P) (p_codec P) block) a = (Ok (), a') \<Longrightarrow>
    prv_step P (PrvGiveUp block, a) Silent (PrvFiled block, a')"
| prv_file_fails: "on_queue (push_failed (p_kv P) (p_codec P) block) a = (r, a') \<Longrightarrow> r \<noteq> Ok () \<Longrightarrow>
    pc' \<in> {PrvGiveUp block, PrvStopped} \<Longrightarrow> prv_step P (PrvGiveUp block, a) Silent (pc', a')"

section \<open>The system\<close>

text \<open>
  The handler and the two workers over one shared state, with the history of what was
  accepted, produced, proved and retired from the queue.
\<close>

record ('t, 'd) sys =
  s_app :: "('t, 'd) app_state"
  s_opt :: opt_pc
  s_prv :: prv_pc
  accepted :: "transaction list"
  produced :: "pending_block list"
  proved :: "pending_block list"
  retired :: "pending_block list"

definition sys_start :: "('t, 'd) app_state \<Rightarrow> ('t, 'd) sys" where
  "sys_start app = \<lparr>s_app = app, s_opt = OptSleep, s_prv = PrvSleep, accepted = mempool app, produced = [],
     proved = [], retired = []\<rparr>"

fun record_event :: "event \<Rightarrow> ('t, 'd) sys \<Rightarrow> ('t, 'd) sys" where
  "record_event (Accept tx) s = s\<lparr>accepted := accepted s @ [tx]\<rparr>"
| "record_event (Produce b) s = s\<lparr>produced := produced s @ [b]\<rparr>"
| "record_event (Prove b) s = s\<lparr>proved := proved s @ [b]\<rparr>"
| "record_event (Retire b) s = s\<lparr>retired := retired s @ [b]\<rparr>"
| "record_event Silent s = s"

inductive sys_step :: "('t, 'd, 'l) params \<Rightarrow> ('t, 'd) sys \<Rightarrow> ('t, 'd) sys \<Rightarrow> bool" for P where
  submit: "handle_submit_tx tx (s_app s) = (Ok msg, a') \<Longrightarrow>
    sys_step P s (record_event (Accept tx) (s\<lparr>s_app := a'\<rparr>))"
| optimistic_worker: "opt_step P (s_opt s, s_app s) e (pc', a') \<Longrightarrow>
    sys_step P s (record_event e (s\<lparr>s_app := a', s_opt := pc'\<rparr>))"
| prover_worker: "prv_step P (s_prv s, s_app s) e (pc', a') \<Longrightarrow>
    sys_step P s (record_event e (s\<lparr>s_app := a', s_prv := pc'\<rparr>))"

abbreviation reachable :: "('t, 'd, 'l) params \<Rightarrow> ('t, 'd) app_state \<Rightarrow> ('t, 'd) sys \<Rightarrow> bool" where
  "reachable P app s \<equiv> (sys_step P)\<^sup>*\<^sup>* (sys_start app) s"

lemma sys_invariant:
  assumes "(sys_step P)\<^sup>*\<^sup>* s0 s" and "I s0"
    and "\<And>s tx msg a'. I s \<Longrightarrow> handle_submit_tx tx (s_app s) = (Ok msg, a') \<Longrightarrow>
      I (record_event (Accept tx) (s\<lparr>s_app := a'\<rparr>))"
    and "\<And>s e pc' a'. I s \<Longrightarrow> opt_step P (s_opt s, s_app s) e (pc', a') \<Longrightarrow>
      I (record_event e (s\<lparr>s_app := a', s_opt := pc'\<rparr>))"
    and "\<And>s e pc' a'. I s \<Longrightarrow> prv_step P (s_prv s, s_app s) e (pc', a') \<Longrightarrow>
      I (record_event e (s\<lparr>s_app := a', s_prv := pc'\<rparr>))"
  shows "I s"
  using assms(1,2)
  by (induction rule: rtranclp_induct) (auto elim!: sys_step.cases intro: assms(3-5))

text \<open>What the prover leaves alone, and what the optimistic worker leaves alone.\<close>

lemma on_queue_frame:
  "on_queue m a = (r, a') \<Longrightarrow> \<exists>d. a' = a\<lparr>queue_db := d\<rparr> \<and> m (queue_db a) = (r, d)"
  by (auto simp: on_queue_def split: prod.splits)

lemma generate_section_frame:
  "generate_section P b a = (r, a') \<Longrightarrow> mempool a' = mempool a \<and> proven a' = proven a
     \<and> optimistic a' = optimistic a \<and> block_counter a' = block_counter a \<and> queue_db a' = queue_db a
     \<and> (poisoned a \<longrightarrow> poisoned a' \<and> (\<forall>x. r \<noteq> Ok x))"
  by (auto simp: generate_section_def split: if_splits prod.splits result.splits)

lemma prv_step_frame:
  assumes "prv_step P (pc, a) e (pc', a')"
  shows "mempool a' = mempool a \<and> optimistic a' = optimistic a \<and> block_counter a' = block_counter a
    \<and> (poisoned a \<longrightarrow> poisoned a') \<and> (\<forall>x. e \<noteq> Accept x) \<and> (\<forall>b. e \<noteq> Produce b)"
  using assms
  by (cases rule: prv_step.cases) (auto dest!: on_queue_frame generate_section_frame)

lemma optimistic_section_frame:
  "optimistic_section P r txs ds fs a = (x, a') \<Longrightarrow> mempool a' = mempool a \<and> proven a' = proven a
     \<and> optimistic a' = optimistic a \<and> queue_db a' = queue_db a \<and> (poisoned a \<longrightarrow> poisoned a')
     \<and> (\<forall>n root. x = Ok (n, root) \<longrightarrow> n = block_counter a \<and> block_counter a' = block_counter a + 1 \<and> \<not> poisoned a)"
  by (auto simp: optimistic_section_def split: if_splits prod.splits result.splits)

lemma commit_section_frame: "commit_section P b a = (r, a') \<Longrightarrow> \<exists>d. a' = a\<lparr>queue_db := d\<rparr>"
  by (auto simp: commit_section_def split: result.splits prod.splits intro: exI [of _ "queue_db a"])

lemma opt_step_frame:
  assumes "opt_step P (pc, a) e (pc', a')"
  shows "proven a' = proven a \<and> (poisoned a \<longrightarrow> poisoned a') \<and> (\<forall>x. e \<noteq> Accept x)
    \<and> (\<forall>b. e \<noteq> Prove b) \<and> (\<forall>b. e \<noteq> Retire b)"
  using assms
  by (cases rule: opt_step.cases)
    (auto dest!: optimistic_section_frame commit_section_frame simp: drain_mempool_def split: if_splits)

section \<open>No transaction is lost\<close>

fun in_flight :: "opt_pc \<Rightarrow> transaction list" where
  "in_flight (OptDrained b) = pb_txs b"
| "in_flight (OptStopped (Some b)) = pb_txs b"
| "in_flight _ = []"

text \<open>The transactions the worker has copied from the mempool and not yet drained.\<close>

fun copied :: "opt_pc \<Rightarrow> transaction list" where
  "copied (OptBatch ds fs txs) = txs"
| "copied (OptRoot ds fs txs r) = txs"
| "copied (OptApplied b) = pb_txs b"
| "copied (OptHead b) = pb_txs b"
| "copied _ = []"

definition mempool_inv :: "('t, 'd) sys \<Rightarrow> bool" where
  "mempool_inv s \<longleftrightarrow>
     accepted s = concat (map pb_txs (produced s)) @ in_flight (s_opt s) @ mempool (s_app s)
     \<and> (\<exists>rest. mempool (s_app s) = copied (s_opt s) @ rest)"

lemma mempool_inv_opt:
  assumes "mempool_inv s" and "opt_step P (s_opt s, s_app s) e (pc', a')"
  shows "mempool_inv (record_event e (s\<lparr>s_app := a', s_opt := pc'\<rparr>))"
  using assms(2,1)
  by (cases rule: opt_step.cases)
    (auto simp: mempool_inv_def drain_mempool_def split: if_splits
      dest!: optimistic_section_frame commit_section_frame)

lemma mempool_inv_prv:
  assumes "mempool_inv s" and "prv_step P (s_prv s, s_app s) e (pc', a')"
  shows "mempool_inv (record_event e (s\<lparr>s_app := a', s_prv := pc'\<rparr>))"
  using prv_step_frame [OF assms(2)] assms(1) by (cases e) (auto simp: mempool_inv_def)

lemma mempool_inv_reachable: "reachable P app s \<Longrightarrow> mempool_inv s"
proof (erule sys_invariant, goal_cases)
  case (2 s tx msg a')
  then show ?case by (auto simp: mempool_inv_def handle_submit_tx_def)
qed (simp add: mempool_inv_def sys_start_def, (fact mempool_inv_opt mempool_inv_prv)+)

section \<open>The produced blocks form a chain\<close>

fun chained :: "hash \<Rightarrow> u64 \<Rightarrow> pending_block list \<Rightarrow> bool" where
  "chained r n [] \<longleftrightarrow> True"
| "chained r n (b # bs) \<longleftrightarrow> pre_state_root b = r \<and> block_number b = n \<and> chained (post_state_root b) (n + 1) bs"

definition last_root :: "hash \<Rightarrow> pending_block list \<Rightarrow> hash" where
  "last_root r bs = (if bs = [] then r else post_state_root (last bs))"

lemma chained_snoc:
  "chained r n (bs @ [b]) \<longleftrightarrow> chained r n bs \<and> pre_state_root b = last_root r bs
     \<and> block_number b = n + of_nat (length bs)"
  by (induction r n bs rule: chained.induct) (auto simp: last_root_def add.assoc [symmetric] add.commute)

lemma chained_append:
  "chained r n (bs @ cs) \<longleftrightarrow> chained r n bs \<and> chained (last_root r bs) (n + of_nat (length bs)) cs"
  by (induction r n bs rule: chained.induct) (auto simp: last_root_def ac_simps)

lemma last_root_snoc [simp]: "last_root r (bs @ [b]) = post_state_root b"
  by (simp add: last_root_def)

text \<open>The heads and the counter, depending on where the optimistic worker stands.\<close>

fun opt_heads :: "hash \<Rightarrow> u64 \<Rightarrow> opt_pc \<Rightarrow> ('t, 'd) app_state \<Rightarrow> bool" where
  "opt_heads r n (OptRoot ds fs txs pre) a \<longleftrightarrow> pre = r \<and> optimistic a = r \<and> block_counter a = n"
| "opt_heads r n (OptApplied b) a \<longleftrightarrow> pre_state_root b = r \<and> block_number b = n
     \<and> optimistic a = r \<and> block_counter a = n + 1"
| "opt_heads r n (OptHead b) a \<longleftrightarrow> pre_state_root b = r \<and> block_number b = n
     \<and> optimistic a = post_state_root b \<and> block_counter a = n + 1"
| "opt_heads r n (OptDrained b) a \<longleftrightarrow> pre_state_root b = r \<and> block_number b = n
     \<and> optimistic a = post_state_root b \<and> block_counter a = n + 1"
| "opt_heads r n (OptStopped x) a \<longleftrightarrow> True"
| "opt_heads r n _ a \<longleftrightarrow> optimistic a = r \<and> block_counter a = n"

definition chain_inv :: "hash \<Rightarrow> u64 \<Rightarrow> ('t, 'd) sys \<Rightarrow> bool" where
  "chain_inv r n s \<longleftrightarrow> chained r n (produced s)
     \<and> opt_heads (last_root r (produced s)) (n + of_nat (length (produced s))) (s_opt s) (s_app s)"

lemma opt_heads_frame:
  "optimistic a' = optimistic a \<Longrightarrow> block_counter a' = block_counter a \<Longrightarrow>
   opt_heads r n pc a' = opt_heads r n pc a"
  by (cases pc) simp_all

lemma chain_inv_opt:
  assumes "chain_inv r n s" and "opt_step P (s_opt s, s_app s) e (pc', a')"
  shows "chain_inv r n (record_event e (s\<lparr>s_app := a', s_opt := pc'\<rparr>))"
  using assms(2,1)
  by (cases rule: opt_step.cases)
    (auto simp: chain_inv_def drain_mempool_def chained_snoc ac_simps split: if_splits
      dest!: optimistic_section_frame commit_section_frame)

lemma chain_inv_prv:
  assumes "chain_inv r n s" and "prv_step P (s_prv s, s_app s) e (pc', a')"
  shows "chain_inv r n (record_event e (s\<lparr>s_app := a', s_prv := pc'\<rparr>))"
  using prv_step_frame [OF assms(2)] assms(1)
  by (cases e) (auto simp: chain_inv_def opt_heads_frame [of a' "s_app s"])

lemma chain_inv_reachable:
  "reachable P app s \<Longrightarrow> chain_inv (optimistic app) (block_counter app) s"
proof (erule sys_invariant, goal_cases)
  case 1
  show ?case by (simp add: chain_inv_def sys_start_def last_root_def)
next
  case (2 s tx msg a')
  then show ?case
    using opt_heads_frame [of a' "s_app s"] by (auto simp: chain_inv_def handle_submit_tx_def)
qed (fact chain_inv_opt chain_inv_prv)+

section \<open>Blocks are handled in order\<close>

text \<open>
  The queue as a list: the blocks still waiting, the oldest first. \<open>backlog\<close> is what the store
  held when the sequencer started.
\<close>

definition by_number :: "pending_block list \<Rightarrow> u64 \<Rightarrow> pending_block option" where
  "by_number bs = map_of (map (\<lambda>b. (block_number b, b)) bs)"

definition ascending :: "pending_block list \<Rightarrow> bool" where
  "ascending bs \<longleftrightarrow> sorted_wrt (<) (map block_number bs)"

fun prv_block :: "prv_pc \<Rightarrow> pending_block option" where
  "prv_block (PrvBlock b n) = Some b"
| "prv_block (PrvGenerated b n ps) = Some b"
| "prv_block (PrvRoot b r) = Some b"
| "prv_block (PrvDone b) = Some b"
| "prv_block (PrvGiveUp b) = Some b"
| "prv_block (PrvFiled b) = Some b"
| "prv_block _ = None"

lemma prv_block_after_failure [simp]: "prv_block (after_failure b n) = Some b"
  by (simp add: after_failure_def)

lemma by_number_Cons: "by_number (b # bs) = (by_number bs)(block_number b \<mapsto> b)"
  by (simp add: by_number_def)

lemma by_number_None: "by_number bs n = None \<longleftrightarrow> n \<notin> block_number ` set bs"
  by (simp add: by_number_def map_of_eq_None_iff image_image)

lemma by_number_Some: "by_number bs n = Some b \<Longrightarrow> b \<in> set bs \<and> block_number b = n"
  by (auto simp: by_number_def dest!: map_of_SomeD)

lemma ascending_head:
  assumes "ascending (w # ws)"
  shows "(by_number (w # ws))(block_number w := None) = by_number ws"
proof -
  have "by_number ws (block_number w) = None"
    using assms by (auto simp: ascending_def by_number_None)
  then show ?thesis by (auto simp: by_number_Cons fun_eq_iff)
qed

lemma by_number_snoc:
  assumes "ascending (bs @ [b])"
  shows "by_number (bs @ [b]) = (by_number bs)(block_number b \<mapsto> b)"
proof -
  have "by_number bs (block_number b) = None"
    using assms by (auto simp: ascending_def by_number_None sorted_wrt_append)
  then show ?thesis
    by (auto simp: by_number_def fun_eq_iff map_add_def split: option.splits)
qed

lemma front_is_head:
  assumes "q_pending q = by_number ws" and "ascending ws" and "front q b"
  shows "\<exists>rest. ws = b # rest"
proof (cases ws)
  case Nil
  with assms show ?thesis by (simp add: front_def by_number_def)
next
  case (Cons w rest)
  have b: "by_number ws (block_number b) = Some b"
    and least: "\<And>n. by_number ws n \<noteq> None \<Longrightarrow> block_number b \<le> n"
    using assms(1,3) by (simp_all add: front_def)
  have "block_number b \<le> block_number w"
    by (rule least) (simp add: Cons by_number_Cons)
  moreover have "b = w \<or> block_number w < block_number b"
    using by_number_Some [OF b] assms(2) Cons by (auto simp: ascending_def)
  ultimately show ?thesis using Cons by auto
qed

lemma ascending_suffix: "ascending (xs @ ys) \<Longrightarrow> ascending ys"
  by (simp add: ascending_def sorted_wrt_append)

lemma chained_numbers:
  "chained r n bs \<Longrightarrow> unat n + length bs \<le> 2 ^ 64 \<Longrightarrow>
   map (\<lambda>b. unat (block_number b)) bs = [unat n..<unat n + length bs]"
proof (induction r n bs rule: chained.induct)
  case (2 r n b bs)
  show ?case
  proof (cases bs)
    case Nil
    with 2 show ?thesis by simp
  next
    case (Cons c cs)
    then have "unat n + 1 < 2 ^ 64" using 2(3) by simp
    then have n: "unat (n + 1) = Suc (unat n)" by (simp add: unat_word_ariths)
    have "map (\<lambda>b. unat (block_number b)) bs = [Suc (unat n)..<unat n + length (b # bs)]"
      using 2 n by (simp del: upt_Suc)
    moreover have "[unat n..<unat n + length (b # bs)] = unat n # [Suc (unat n)..<unat n + length (b # bs)]"
      by (simp add: upt_conv_Cons del: upt_Suc)
    ultimately show ?thesis using 2(2) by simp
  qed
qed simp

lemma ascending_run:
  assumes "ascending backlog" and "\<forall>b \<in> set backlog. block_number b < n"
    and "chained r n bs" and "unat n + length bs \<le> 2 ^ 64"
  shows "ascending (backlog @ bs)"
proof -
  have eq: "map unat (map block_number bs) = [unat n..<unat n + length bs]"
    using chained_numbers [OF assms(3,4)] by (simp add: comp_def)
  have "sorted_wrt (<) (map unat (map block_number bs))"
    unfolding eq by (rule sorted_wrt_upt)
  then have "sorted_wrt (<) (map block_number bs)"
    by (simp add: sorted_wrt_map word_less_nat_alt)
  moreover have "x < y" if "x \<in> block_number ` set backlog" "y \<in> block_number ` set bs" for x y
  proof -
    from that(2) have "unat y \<in> set (map unat (map block_number bs))" by auto
    then have "n \<le> y" unfolding eq by (simp add: word_le_nat_alt)
    with that(1) assms(2) show ?thesis by (auto intro: less_le_trans)
  qed
  ultimately show ?thesis
    using assms(1) by (auto simp: ascending_def sorted_wrt_append)
qed

definition queue_inv :: "block_codec \<Rightarrow> ('d \<Rightarrow> content) \<Rightarrow> pending_block list \<Rightarrow> ('t, 'd) sys \<Rightarrow> bool" where
  "queue_inv K view backlog s \<longleftrightarrow> store_ok K (view (queue_db (s_app s)))
     \<and> (\<exists>waiting. backlog @ produced s = retired s @ waiting
       \<and> q_pending (queue_of K (view (queue_db (s_app s)))) = by_number waiting
       \<and> (\<forall>b. prv_block (s_prv s) = Some b \<longrightarrow> (\<exists>rest. waiting = b # rest)))"

lemma commit_section_queue:
  assumes "block_store (p_kv P) view (p_codec P)" and "commit_section P b a = (r, a')"
  shows "q_pending (queue_of (p_codec P) (view (queue_db a')))
      = (if r = Ok () then (q_pending (queue_of (p_codec P) (view (queue_db a))))(block_number b \<mapsto> b)
         else q_pending (queue_of (p_codec P) (view (queue_db a))))"
    and "store_ok (p_codec P) (view (queue_db a)) \<Longrightarrow> store_ok (p_codec P) (view (queue_db a'))"
proof -
  consider (refused) "a' = a" "r \<noteq> Ok ()"
    | (tried) n d where "commit_optimistic_block (p_kv P) (p_codec P) b n (queue_db a) = (r, d)" "queue_db a' = d"
    using assms(2) by (fastforce simp: commit_section_def split: result.splits prod.splits)
  then show "q_pending (queue_of (p_codec P) (view (queue_db a')))
      = (if r = Ok () then (q_pending (queue_of (p_codec P) (view (queue_db a))))(block_number b \<mapsto> b)
         else q_pending (queue_of (p_codec P) (view (queue_db a))))"
    and "store_ok (p_codec P) (view (queue_db a)) \<Longrightarrow> store_ok (p_codec P) (view (queue_db a'))"
    by (cases; auto simp: enqueue_def block_store.commit_optimistic_block_queue [OF assms(1)])+
qed

lemma queue_inv_opt:
  assumes "block_store (p_kv P) view (p_codec P)" and "queue_inv (p_codec P) view backlog s"
    and "opt_step P (s_opt s, s_app s) e (pc', a')"
    and "\<And>b. e = Produce b \<Longrightarrow> ascending (backlog @ produced s @ [b])"
  shows "queue_inv (p_codec P) view backlog (record_event e (s\<lparr>s_app := a', s_opt := pc'\<rparr>))"
proof -
  from assms(2) obtain waiting where ok: "store_ok (p_codec P) (view (queue_db (s_app s)))"
    and w: "backlog @ produced s = retired s @ waiting"
      "q_pending (queue_of (p_codec P) (view (queue_db (s_app s)))) = by_number waiting"
      "\<forall>b. prv_block (s_prv s) = Some b \<longrightarrow> (\<exists>rest. waiting = b # rest)"
    by (auto simp: queue_inv_def)
  show ?thesis
  proof (cases "\<exists>b. e = Produce b")
    case True
    then obtain b where e: "e = Produce b" ..
    with assms(3) have commit: "commit_section P b (s_app s) = (Ok (), a')"
      by (cases rule: opt_step.cases) auto
    have all: "backlog @ produced s @ [b] = retired s @ (waiting @ [b])" using w(1) by simp
    then have "ascending (waiting @ [b])"
      using assms(4) [OF e] ascending_suffix by metis
    with w(2) commit_section_queue(1) [OF assms(1) commit]
    have "q_pending (queue_of (p_codec P) (view (queue_db a'))) = by_number (waiting @ [b])"
      by (simp add: by_number_snoc)
    moreover have "\<forall>b'. prv_block (s_prv s) = Some b' \<longrightarrow> (\<exists>rest. waiting @ [b] = b' # rest)"
      using w(3) by auto
    ultimately show ?thesis
      using all commit_section_queue(2) [OF assms(1) commit ok] e
      unfolding queue_inv_def by (intro conjI exI [of _ "waiting @ [b]"]) simp_all
  next
    case False
    have same: "store_ok (p_codec P) (view (queue_db a'))
      \<and> q_pending (queue_of (p_codec P) (view (queue_db a'))) = by_number waiting"
      using assms(3) False ok w(2)
      by (cases rule: opt_step.cases)
        (auto simp: drain_mempool_def commit_section_queue [OF assms(1)] split: if_splits
          dest!: optimistic_section_frame)
    have "e = Silent" using assms(3) False by (cases rule: opt_step.cases) auto
    with same w show ?thesis
      unfolding queue_inv_def by (intro conjI exI [of _ waiting]) simp_all
  qed
qed

text \<open>The prover's calls on the queue.\<close>

lemma prv_peek_queue:
  assumes "block_store (p_kv P) view (p_codec P)" and "store_ok (p_codec P) (view (queue_db a))"
    and "on_queue (peek_pending (p_kv P) (p_codec P)) a = (r, a')"
  shows "view (queue_db a') = view (queue_db a)"
    and "r = Ok (Some b) \<Longrightarrow> front (queue_of (p_codec P) (view (queue_db a))) b"
proof -
  from on_queue_frame [OF assms(3)] obtain d where d: "a' = a\<lparr>queue_db := d\<rparr>"
    and run: "peek_pending (p_kv P) (p_codec P) (queue_db a) = (r, d)" by blast
  from block_store.peek_pending_queue [OF assms(1) run assms(2)] d
  show "view (queue_db a') = view (queue_db a)"
    and "r = Ok (Some b) \<Longrightarrow> front (queue_of (p_codec P) (view (queue_db a))) b" by simp_all
qed

lemma prv_remove_queue:
  assumes "block_store (p_kv P) view (p_codec P)" and "on_queue (remove_pending (p_kv P) n) a = (r, a')"
  shows "q_pending (queue_of (p_codec P) (view (queue_db a')))
      = (if r = Ok () then (q_pending (queue_of (p_codec P) (view (queue_db a))))(n := None)
         else q_pending (queue_of (p_codec P) (view (queue_db a))))"
    and "store_ok (p_codec P) (view (queue_db a)) \<Longrightarrow> store_ok (p_codec P) (view (queue_db a'))"
proof -
  from on_queue_frame [OF assms(2)] obtain d where d: "a' = a\<lparr>queue_db := d\<rparr>"
    and run: "remove_pending (p_kv P) n (queue_db a) = (r, d)" by blast
  from block_store.remove_pending_queue [OF assms(1) run] d
  show "q_pending (queue_of (p_codec P) (view (queue_db a')))
      = (if r = Ok () then (q_pending (queue_of (p_codec P) (view (queue_db a))))(n := None)
         else q_pending (queue_of (p_codec P) (view (queue_db a))))"
    and "store_ok (p_codec P) (view (queue_db a)) \<Longrightarrow> store_ok (p_codec P) (view (queue_db a'))"
    by (simp_all add: dequeue_def)
qed

lemma prv_file_queue:
  assumes "block_store (p_kv P) view (p_codec P)" and "on_queue (push_failed (p_kv P) (p_codec P) b) a = (r, a')"
  shows "q_pending (queue_of (p_codec P) (view (queue_db a')))
      = q_pending (queue_of (p_codec P) (view (queue_db a)))"
    and "store_ok (p_codec P) (view (queue_db a)) \<Longrightarrow> store_ok (p_codec P) (view (queue_db a'))"
proof -
  from on_queue_frame [OF assms(2)] obtain d where d: "a' = a\<lparr>queue_db := d\<rparr>"
    and run: "push_failed (p_kv P) (p_codec P) b (queue_db a) = (r, d)" by blast
  from block_store.push_failed_queue [OF assms(1) run] d
  show "q_pending (queue_of (p_codec P) (view (queue_db a')))
      = q_pending (queue_of (p_codec P) (view (queue_db a)))"
    and "store_ok (p_codec P) (view (queue_db a)) \<Longrightarrow> store_ok (p_codec P) (view (queue_db a'))"
    by (simp_all add: record_failure_def)
qed

lemma queue_inv_prv:
  assumes "block_store (p_kv P) view (p_codec P)" and "queue_inv (p_codec P) view backlog s"
    and "prv_step P (s_prv s, s_app s) e (pc', a')" and "ascending (backlog @ produced s)"
  shows "queue_inv (p_codec P) view backlog (record_event e (s\<lparr>s_app := a', s_prv := pc'\<rparr>))"
proof -
  from assms(2) obtain waiting where ok: "store_ok (p_codec P) (view (queue_db (s_app s)))"
    and w: "backlog @ produced s = retired s @ waiting"
      "q_pending (queue_of (p_codec P) (view (queue_db (s_app s)))) = by_number waiting"
      "\<forall>b. prv_block (s_prv s) = Some b \<longrightarrow> (\<exists>rest. waiting = b # rest)"
    by (auto simp: queue_inv_def)
  have asc: "ascending waiting" using assms(4) w(1) ascending_suffix by metis
  note store = prv_peek_queue [OF assms(1) ok] prv_remove_queue [OF assms(1)] prv_file_queue [OF assms(1)]
  show ?thesis
  proof (cases "\<exists>b. e = Retire b")
    case True
    then obtain b where e: "e = Retire b" ..
    with assms(3) have b: "prv_block (s_prv s) = Some b"
      and rm: "on_queue (remove_pending (p_kv P) (block_number b)) (s_app s) = (Ok (), a')" and "pc' = PrvSleep"
      by (cases rule: prv_step.cases; auto)+
    from w(3) b obtain rest where rest: "waiting = b # rest" by blast
    have "q_pending (queue_of (p_codec P) (view (queue_db a'))) = by_number rest"
      using store(3) [OF rm] w(2) ascending_head asc by (simp add: rest)
    then show ?thesis
      using store(4) [OF rm ok] w(1) e rest \<open>pc' = PrvSleep\<close>
      unfolding queue_inv_def by (intro conjI exI [of _ rest]) simp_all
  next
    case False
    have same: "store_ok (p_codec P) (view (queue_db a'))
      \<and> q_pending (queue_of (p_codec P) (view (queue_db a'))) = by_number waiting"
      using assms(3) False ok w(2)
      by (cases rule: prv_step.cases) (auto simp: store dest!: generate_section_frame)
    have "\<forall>b. prv_block pc' = Some b \<longrightarrow> (\<exists>rest. waiting = b # rest)"
      using assms(3) False w(3)
      by (cases rule: prv_step.cases) (auto dest!: store(2) intro: front_is_head [OF w(2) asc])
    with same w False show ?thesis
      using prv_step_frame [OF assms(3)]
      unfolding queue_inv_def by (cases e) (auto intro!: exI [of _ waiting])
  qed
qed

lemma produced_grows:
  "produced (record_event e s) = produced s @ (case e of Produce b \<Rightarrow> [b] | _ \<Rightarrow> [])"
  by (cases e) simp_all

lemma queue_inv_reachable:
  fixes view :: "'d \<Rightarrow> content" and app :: "('t, 'd) app_state"
  assumes "block_store (p_kv P) view (p_codec P)" and "store_ok (p_codec P) (view (queue_db app))"
    and "q_pending (queue_of (p_codec P) (view (queue_db app))) = by_number backlog"
    and "ascending backlog" and "\<forall>b \<in> set backlog. block_number b < block_counter app"
    and "reachable P app s" and "unat (block_counter app) + length (produced s) \<le> 2 ^ 64"
  shows "queue_inv (p_codec P) view backlog s"
proof -
  let ?r = "optimistic app" and ?n = "block_counter app"
  define I where "I s \<longleftrightarrow> chain_inv ?r ?n s \<and> (unat ?n + length (produced s) \<le> 2 ^ 64
    \<longrightarrow> queue_inv (p_codec P) view backlog s)" for s :: "('t, 'd) sys"
  have asc: "ascending (backlog @ produced s)"
    if "chain_inv ?r ?n s" "unat ?n + length (produced s) \<le> 2 ^ 64" for s :: "('t, 'd) sys"
    using ascending_run [OF assms(4,5)] that by (auto simp: chain_inv_def)
  have "I s"
    using assms(6)
  proof (rule sys_invariant)
    show "I (sys_start app)"
      using assms(2,3) by (simp add: I_def chain_inv_def queue_inv_def sys_start_def last_root_def)
  next
    fix s :: "('t, 'd) sys" and tx msg a'
    assume "I s" and h: "handle_submit_tx tx (s_app s) = (Ok msg, a')"
    moreover from this have "chain_inv ?r ?n (record_event (Accept tx) (s\<lparr>s_app := a'\<rparr>))"
      using opt_heads_frame [of a' "s_app s"] by (auto simp: I_def chain_inv_def handle_submit_tx_def)
    ultimately show "I (record_event (Accept tx) (s\<lparr>s_app := a'\<rparr>))"
      by (auto simp: I_def queue_inv_def handle_submit_tx_def)
  next
    fix s :: "('t, 'd) sys" and e pc' a'
    let ?s = "record_event e (s\<lparr>s_app := a', s_opt := pc'\<rparr>)"
    assume "I s" and step: "opt_step P (s_opt s, s_app s) e (pc', a')"
    then have chain: "chain_inv ?r ?n ?s" by (auto simp: I_def intro: chain_inv_opt)
    have "queue_inv (p_codec P) view backlog ?s" if bound: "unat ?n + length (produced ?s) \<le> 2 ^ 64"
    proof (rule queue_inv_opt [OF assms(1) _ step])
      show "queue_inv (p_codec P) view backlog s"
        using \<open>I s\<close> bound by (simp add: I_def produced_grows)
      show "ascending (backlog @ produced s @ [b])" if "e = Produce b" for b
        using asc [OF chain bound] that by (simp add: produced_grows)
    qed
    with chain show "I ?s" by (simp add: I_def)
  next
    fix s :: "('t, 'd) sys" and e pc' a'
    let ?s = "record_event e (s\<lparr>s_app := a', s_prv := pc'\<rparr>)"
    assume I: "I s" and step: "prv_step P (s_prv s, s_app s) e (pc', a')"
    then have chain: "chain_inv ?r ?n ?s" by (auto simp: I_def intro: chain_inv_prv)
    have "queue_inv (p_codec P) view backlog ?s" if bound: "unat ?n + length (produced ?s) \<le> 2 ^ 64"
    proof -
      have "unat ?n + length (produced s) \<le> 2 ^ 64" using bound by (simp add: produced_grows)
      then show ?thesis
        using I asc queue_inv_prv [OF assms(1) _ step] by (simp add: I_def)
    qed
    with chain show "I ?s" by (simp add: I_def)
  qed
  with assms(7) show ?thesis by (simp add: I_def)
qed

fun prv_retries :: "prv_pc \<Rightarrow> nat" where
  "prv_retries (PrvBlock b n) = n"
| "prv_retries (PrvGenerated b n ps) = n"
| "prv_retries _ = 0"

lemma retries_reachable: "reachable P app s \<Longrightarrow> prv_retries (s_prv s) < MAX_RETRIES"
proof (erule sys_invariant, goal_cases)
  case (4 s e pc' a')
  then have "prv_retries pc' < MAX_RETRIES"
    by (cases rule: prv_step.cases [OF 4(2)]) (auto simp: after_failure_def MAX_RETRIES_def)
  then show ?case by (cases e) simp_all
next
  case (3 s e pc' a')
  then show ?case by (cases e) simp_all
qed (simp_all add: sys_start_def MAX_RETRIES_def)

section \<open>The prover's loop ends\<close>

text \<open>
  The moves of the prover while it handles one block, whatever the other parties do to the
  shared state between two of them. A failed attempt at a queue operation that is retried is
  not a move: the backoff bounds these by time.
\<close>

inductive prv_path :: "('t, 'd, 'l) params \<Rightarrow> prv_pc \<Rightarrow> event list \<Rightarrow> prv_pc \<Rightarrow> bool" for P where
  path_end: "prv_path P pc [] pc"
| path_move: "prv_step P (pc, a) e (pc', a') \<Longrightarrow> pc \<notin> {PrvSleep, PrvStopped} \<Longrightarrow> pc' \<noteq> pc \<Longrightarrow>
    prv_path P pc' es pc'' \<Longrightarrow> prv_path P pc (e # es) pc''"

fun prv_rank :: "prv_pc \<Rightarrow> nat" where
  "prv_rank (PrvBlock b n) = 2 * (MAX_RETRIES - n) + 2"
| "prv_rank (PrvGenerated b n ps) = 2 * (MAX_RETRIES - n) + 1"
| "prv_rank (PrvRoot b r) = 2"
| "prv_rank (PrvGiveUp b) = 2"
| "prv_rank (PrvDone b) = 1"
| "prv_rank (PrvFiled b) = 1"
| "prv_rank _ = 0"

lemma prv_move_rank:
  assumes "prv_step P (pc, a) e (pc', a')" and "pc \<notin> {PrvSleep, PrvStopped}" and "pc' \<noteq> pc"
    and "prv_retries pc < MAX_RETRIES"
  shows "prv_rank pc' < prv_rank pc \<and> prv_retries pc' < MAX_RETRIES"
  using assms
  by (cases rule: prv_step.cases) (auto simp: after_failure_def MAX_RETRIES_def)

lemma prv_move_block:
  assumes "prv_step P (pc, a) e (pc', a')" and "prv_block pc = Some b"
  shows "prv_block pc' = Some b \<or> pc' = PrvStopped \<or> pc' = PrvSleep \<and> e = Retire b"
  using assms by (cases rule: prv_step.cases) auto

lemma prv_path_bounded:
  assumes "prv_path P pc es pc'" and "prv_retries pc < MAX_RETRIES"
  shows "length es + prv_rank pc' \<le> prv_rank pc"
  using assms
proof (induction rule: prv_path.induct)
  case (path_move pc a e pc' a' es pc'')
  from prv_move_rank [OF path_move.hyps(1-3) path_move.prems] path_move.IH show ?case by simp
qed simp

inductive_cases prv_path_SleepE: "prv_path P PrvSleep es pc"
inductive_cases prv_path_StoppedE: "prv_path P PrvStopped es pc"

lemma prv_path_retires:
  assumes "prv_path P pc es pc'" and "prv_block pc = Some b"
  shows "prv_block pc' = Some b \<or> pc' = PrvStopped \<or> pc' = PrvSleep \<and> es \<noteq> [] \<and> last es = Retire b"
  using assms
proof (induction rule: prv_path.induct)
  case (path_move pc a e pc' a' es pc'')
  from prv_move_block [OF path_move.hyps(1) path_move.prems] path_move show ?case
    by (auto elim: prv_path_SleepE prv_path_StoppedE)
qed simp

lemma prv_step_enabled:
  assumes "pc \<noteq> PrvStopped"
  shows "\<exists>e pc' a'. prv_step P (pc, a) e (pc', a')"
proof (cases pc)
  case PrvSleep
  obtain r a' where run: "on_queue (peek_pending (p_kv P) (p_codec P)) a = (r, a')" by fastforce
  consider "r = Ok None" | b where "r = Ok (Some b)" | "\<forall>x. r \<noteq> Ok x"
    by (cases r) auto
  then show ?thesis
    unfolding PrvSleep using run prv_none prv_peek prv_peek_fails [OF run] by cases blast+
next
  case (PrvBlock b n)
  obtain r a' where run: "generate_section P b a = (r, a')" by fastforce
  consider x where "r = Ok x" | "\<forall>x. r \<noteq> Ok x" by blast
  then show ?thesis
    unfolding PrvBlock using run prv_generate [of P b a] prv_generate_fails [OF run] by cases metis+
next
  case (PrvGenerated b n ps)
  show ?thesis
    unfolding PrvGenerated
    using prv_prove [of P b ps _ _ n a] prv_prove_fails [of P b ps _ _ n a] prv_prove_panics [of P b ps _ _ n a]
    by (cases "fst (prove_section P b ps undefined)") metis+
next
  case (PrvRoot b r)
  show ?thesis unfolding PrvRoot using prv_head [of P b r a] by blast
next
  case (PrvGiveUp b)
  obtain r a' where run: "on_queue (push_failed (p_kv P) (p_codec P) b) a = (r, a')" by fastforce
  then show ?thesis
    unfolding PrvGiveUp using prv_file [of P b a] prv_file_fails [OF run] by (cases "r = Ok ()") blast+
next
  case (PrvDone b)
  obtain r a' where run: "on_queue (remove_pending (p_kv P) (block_number b)) a = (r, a')" by fastforce
  then show ?thesis
    unfolding PrvDone using prv_remove [of "PrvDone b" b P a] prv_remove_fails [OF _ run, of "PrvDone b"]
    by (cases "r = Ok ()") blast+
next
  case (PrvFiled b)
  obtain r a' where run: "on_queue (remove_pending (p_kv P) (block_number b)) a = (r, a')" by fastforce
  then show ?thesis
    unfolding PrvFiled using prv_remove [of "PrvFiled b" b P a] prv_remove_fails [OF _ run, of "PrvFiled b"]
    by (cases "r = Ok ()") blast+
qed (use assms in simp)

section \<open>What the proven head means\<close>

text \<open>The SP1 prover returns the public values that the guest commits on the given input.\<close>

locale sp1_prover =
  fixes prove :: "guest_input \<Rightarrow> ('l, bytes \<times> bytes, string) action" and E :: externs
  assumes prove_sound: "prove inp l = (Ok (public_values, prf), l') \<Longrightarrow> guest_main E inp = Ok public_values"

text \<open>A block whose recorded post-state root is the one a run of the guest commits.\<close>

definition genuine :: "externs \<Rightarrow> pending_block \<Rightarrow> bool" where
  "genuine E block \<longleftrightarrow> (\<exists>proofs. guest_main E (block_input block proofs)
     = Ok (abi_encode_public_values E (public_values_of E (block_input block proofs) (post_state_root block))))"

lemma prove_section_genuine:
  assumes "alloy (p_ext P)" and "sp1_prover (p_prove P) (p_ext P)" and "fst (prove_section P block proofs l) = Ok root"
  shows "root = post_state_root block \<and> genuine (p_ext P) block"
proof -
  let ?E = "p_ext P"
  from assms(3) obtain pv pr l1 where
    run: "p_prove P (block_input block proofs) l = (Ok (pv, pr), l1)"
    and check: "check_public_values ?E block pv = Ok root"
    by (cases "p_prove P (block_input block proofs) l")
      (auto simp: prove_section_def bind_m_split context_m_def anyhow_m_def map_err_def split: result.splits)
  from sp1_prover.prove_sound [OF assms(2) run] have guest: "guest_main ?E (block_input block proofs) = Ok pv" .
  then obtain r where pv: "pv = abi_encode_public_values ?E (public_values_of ?E (block_input block proofs) r)"
    by (auto simp: guest_main_Ok_iff)
  have "abi_decode_public_values ?E pv = Some (public_values_of ?E (block_input block proofs) r)"
    using alloy.abi_encode_public_values [OF assms(1)] alloy.abi_decode_public_values [OF assms(1)] pv by simp
  with check have "root = post_state_root block" "r = post_state_root block"
    by (auto simp: check_public_values_def public_values_of_def split: if_splits)
  with guest pv show ?thesis by (auto simp: genuine_def)
qed

definition proven_inv :: "externs \<Rightarrow> hash \<Rightarrow> ('t, 'd) sys \<Rightarrow> bool" where
  "proven_inv E r s \<longleftrightarrow> proven (s_app s) = last_root r (proved s) \<and> (\<forall>b \<in> set (proved s). genuine E b)
     \<and> (\<forall>b root. s_prv s = PrvRoot b root \<longrightarrow> root = post_state_root b \<and> genuine E b)"

lemma proven_inv_prv:
  assumes "alloy (p_ext P)" and "sp1_prover (p_prove P) (p_ext P)"
    and "proven_inv (p_ext P) r s" and "prv_step P (s_prv s, s_app s) e (pc', a')"
  shows "proven_inv (p_ext P) r (record_event e (s\<lparr>s_app := a', s_prv := pc'\<rparr>))"
  using assms(4,3)
  by (cases rule: prv_step.cases)
    (auto simp: proven_inv_def after_failure_def
      dest!: on_queue_frame generate_section_frame prove_section_genuine [OF assms(1,2)])

lemma proven_inv_reachable:
  assumes "alloy (p_ext P)" and "sp1_prover (p_prove P) (p_ext P)" and "reachable P app s"
  shows "proven_inv (p_ext P) (proven app) s"
  using assms(3)
proof (rule sys_invariant, goal_cases)
  case (3 s e pc' a')
  then show ?case using opt_step_frame [OF 3(2)] by (cases e) (auto simp: proven_inv_def)
next
  case (2 s tx msg a')
  then show ?case by (auto simp: proven_inv_def handle_submit_tx_def)
next
  case 1
  show ?case by (simp add: proven_inv_def sys_start_def last_root_def)
qed (rule proven_inv_prv [OF assms(1,2)])

section \<open>A poisoned lock\<close>

text \<open>The block that is applied to the tree and not committed to the queue yet.\<close>

fun uncommitted :: "opt_pc \<Rightarrow> pending_block option" where
  "uncommitted (OptApplied b) = Some b"
| "uncommitted (OptHead b) = Some b"
| "uncommitted (OptDrained b) = Some b"
| "uncommitted _ = None"

fun past_generation :: "prv_pc \<Rightarrow> bool" where
  "past_generation (PrvGenerated b n ps) = True"
| "past_generation (PrvRoot b r) = True"
| "past_generation _ = False"

lemma poisoned_opt:
  assumes "opt_step P (pc, a) e (pc', a')" and "poisoned a"
  shows "(uncommitted pc' = uncommitted pc \<and> e = Silent)
    \<or> (uncommitted pc' = None \<and> (e = Silent \<or> (\<exists>b. uncommitted pc = Some b \<and> e = Produce b)))"
  using assms by (cases rule: opt_step.cases) (auto dest: optimistic_section_frame)

lemma poisoned_prv:
  assumes "prv_step P (pc, a) e (pc', a')" and "poisoned a" and "\<not> past_generation pc"
  shows "\<not> past_generation pc' \<and> (\<forall>b. e \<noteq> Prove b)"
  using assms by (cases rule: prv_step.cases) (auto simp: after_failure_def dest: generate_section_frame)

text \<open>From a poisoned state on, at most the block past the lock is still produced.\<close>

definition stuck_since :: "('t, 'd) sys \<Rightarrow> ('t, 'd) sys \<Rightarrow> bool" where
  "stuck_since s t \<longleftrightarrow> poisoned (s_app t)
     \<and> (uncommitted (s_opt t) = uncommitted (s_opt s) \<and> produced t = produced s
       \<or> uncommitted (s_opt t) = None \<and> (produced t = produced s
           \<or> (\<exists>b. uncommitted (s_opt s) = Some b \<and> produced t = produced s @ [b])))"

lemma poisoned_opt_forever:
  assumes "(sys_step P)\<^sup>*\<^sup>* s s'" and "poisoned (s_app s)"
  shows "stuck_since s s'"
  using assms(1)
proof (rule sys_invariant, goal_cases)
  case 1
  show ?case using assms(2) by (simp add: stuck_since_def)
next
  case (2 t tx msg a')
  then show ?case by (auto simp: stuck_since_def handle_submit_tx_def)
next
  case (3 t e pc' a')
  then show ?case
    using poisoned_opt [OF 3(2)] opt_step_frame [OF 3(2)] by (auto simp: stuck_since_def)
next
  case (4 t e pc' a')
  then show ?case using prv_step_frame [OF 4(2)] by (cases e) (auto simp: stuck_since_def)
qed

lemma poisoned_prv_forever:
  assumes "(sys_step P)\<^sup>*\<^sup>* s s'" and "poisoned (s_app s)" and "\<not> past_generation (s_prv s)"
  shows "poisoned (s_app s') \<and> \<not> past_generation (s_prv s') \<and> proved s' = proved s"
  using assms(1)
proof (rule sys_invariant, goal_cases)
  case 1
  show ?case using assms by simp
next
  case (2 t tx msg a')
  then show ?case by (auto simp: handle_submit_tx_def)
next
  case (3 t e pc' a')
  then show ?case using opt_step_frame [OF 3(2)] by (cases e) auto
next
  case (4 t e pc' a')
  then show ?case using poisoned_prv [OF 4(2)] prv_step_frame [OF 4(2)] by (cases e) auto
qed

section \<open>An instance\<close>

text \<open>
  The reference tree, database and codec, the contract as the endpoint, and a prover that runs
  the guest.
\<close>

definition ref_prove :: "guest_input \<Rightarrow> (bridge list, bytes \<times> bytes, string) action" where
  "ref_prove inp l = (case guest_main ref_externs inp of
     Ok pv \<Rightarrow> (Ok (pv, []), l) | _ \<Rightarrow> (Err ''execution failed'', l))"

interpretation ref: sp1_prover ref_prove ref_externs
  by unfold_locales (auto simp: ref_prove_def split: result.splits)

definition ref_params :: "(ref_store, ref_db, bridge list) params" where
  "ref_params = \<lparr>p_tree = ref_tree, p_ext = ref_externs, p_iteration = (\<lambda>xs. xs), p_kv = ref_kv,
     p_codec = ref_codec, p_calls = bridge_calls, p_prove = ref_prove, p_parse_key = Ok (), p_parse_url = Ok (),
     p_send = (\<lambda>_ _ l. (Ok (), l)), p_receipt_status = (\<lambda>l. (Ok True, l)), l1_enabled = False\<rparr>"

definition ref_app :: "(ref_store, ref_db) app_state" where
  "ref_app = \<lparr>mempool = [], proven = hash_default, optimistic = hash_default, tree = ref_empty\<lparr>rs_head := Some hash_default\<rparr>,
     poisoned = False, block_counter = 0, queue_db = (\<lambda>_. [])\<rparr>"

text \<open>A run: one transaction submitted, batched, applied (its sender is unknown, so nothing changes) and committed.\<close>

definition ref_block :: pending_block where
  "ref_block = \<lparr>block_number = 0, pb_txs = [pay_bob], pb_deposits = [], pb_forced_txs = [],
     pre_state_root = hash_default, post_state_root = hash_default\<rparr>"

definition ref_app' :: "(ref_store, ref_db) app_state" where
  "ref_app' = ref_app\<lparr>block_counter := 1,
     queue_db := ref_put (META_CF_NAME, ascii ''block_counter'', be_bytes 8 (1 :: u64))
       (ref_put (PENDING_CF_NAME, be_bytes 8 (0 :: u64), put_block ref_block) (\<lambda>_. []))\<rparr>"

definition ref_sys :: "(ref_store, ref_db) sys" where
  "ref_sys = \<lparr>s_app = ref_app', s_opt = OptSleep, s_prv = PrvSleep, accepted = [pay_bob],
     produced = [ref_block], proved = [], retired = []\<rparr>"

lemma ref_batch:
  "apply_optimistic_batch ref_tree ref_externs (\<lambda>xs. xs) (Some hash_default) [pay_bob] [] [] t = (Ok hash_default, t)"
  by (simp add: apply_optimistic_batch_def apply_block_def executor_new_def executor_apply_transaction_def
      get_account_helper_def bind_m_split match_m_split on_tree_def get_account_def commit_block_def)

text \<open>The state after the batch left the mempool and before the block reaches the queue.\<close>

definition ref_drained :: "(ref_store, ref_db) sys" where
  "ref_drained = \<lparr>s_app = ref_app\<lparr>block_counter := 1\<rparr>, s_opt = OptDrained ref_block, s_prv = PrvSleep,
     accepted = [pay_bob], produced = [], proved = [], retired = []\<rparr>"

lemma ref_drained_run: "reachable ref_params ref_app ref_drained"
proof -
  let ?S = "\<lambda>a pc bs. \<lparr>s_app = a, s_opt = pc, s_prv = PrvSleep, accepted = [pay_bob], produced = bs,
    proved = [], retired = []\<rparr> :: (ref_store, ref_db) sys"
  let ?a = "ref_app\<lparr>mempool := [pay_bob]\<rparr>" and ?b = ref_block
  have opt: "sys_step ref_params (?S x pc []) (?S y pc' [])"
    if "opt_step ref_params (pc, x) Silent (pc', y)" for x y pc pc'
    using optimistic_worker [of ref_params "?S x pc []" Silent pc' y] that by simp
  have "sys_step ref_params (sys_start ref_app) (?S ?a OptSleep [])"
    using submit [of pay_bob "sys_start ref_app" "''tx accepted''" ?a ref_params]
    by (simp add: handle_submit_tx_def sys_start_def ref_app_def)
  moreover have "sys_step ref_params (?S ?a OptSleep []) (?S ?a (OptFetched [] []) [])"
    by (rule opt, rule opt_fetch) (simp add: fetch_section_def ref_params_def)
  moreover have "sys_step ref_params (?S ?a (OptFetched [] []) []) (?S ?a (OptBatch [] [] [pay_bob]) [])"
    using opt_batch [of ?a "[]" "[]" ref_params] by (intro opt) simp
  moreover have "sys_step ref_params (?S ?a (OptBatch [] [] [pay_bob]) []) (?S ?a (OptRoot [] [] [pay_bob] hash_default) [])"
    using opt_root [of ref_params "[]" "[]" "[pay_bob]" ?a] by (intro opt) (simp add: ref_app_def)
  moreover have "sys_step ref_params (?S ?a (OptRoot [] [] [pay_bob] hash_default) [])
      (?S (?a\<lparr>block_counter := 1\<rparr>) (OptApplied ?b) [])"
    unfolding ref_block_def
    by (rule opt, rule opt_apply)
      (simp add: optimistic_section_def ref_params_def ref_batch, simp add: ref_app_def ref_tree_def)
  moreover have "sys_step ref_params (?S (?a\<lparr>block_counter := 1\<rparr>) (OptApplied ?b) [])
      (?S (?a\<lparr>block_counter := 1\<rparr>) (OptHead ?b) [])"
    using opt_head [of ref_params ?b "?a\<lparr>block_counter := 1\<rparr>"]
    by (intro opt) (simp add: ref_app_def ref_block_def)
  moreover have "sys_step ref_params (?S (?a\<lparr>block_counter := 1\<rparr>) (OptHead ?b) [])
      (?S (ref_app\<lparr>block_counter := 1\<rparr>) (OptDrained ?b) [])"
    by (rule opt, rule opt_drain) (simp add: drain_mempool_def ref_block_def ref_app_def)
  ultimately show ?thesis
    unfolding ref_drained_def by (meson converse_rtranclp_into_rtranclp rtranclp.rtrancl_refl)
qed

lemma ref_run: "reachable ref_params ref_app ref_sys"
proof -
  have "fits ref_block" by (simp add: fits_def ref_block_def)
  then have "commit_section ref_params ref_block (ref_app\<lparr>block_counter := 1\<rparr>) = (Ok (), ref_app')"
    by (simp add: commit_section_def ref_params_def commit_optimistic_block_def store_simps ref_kv_def
        ref_codec_def ref_app'_def ref_app_def plain_add_def ref_block_def)
  from optimistic_worker [of ref_params ref_drained "Produce ref_block" OptSleep ref_app'] opt_commit [OF this]
  have "sys_step ref_params ref_drained ref_sys" by (simp add: ref_sys_def ref_drained_def)
  with ref_drained_run show ?thesis by (rule rtranclp.rtrancl_into_rtrancl)
qed

text \<open>
  A second run, with L1 enabled: the deposit of address 5 is fetched from the contract, a block
  is produced from it, and the prover proves it.
\<close>

definition five_params :: "(ref_store, ref_db, bridge list) params" where
  "five_params = ref_params\<lparr>l1_enabled := True\<rparr>"

definition five_account :: account where
  "five_account = account_new (dep_to dep_five)\<lparr>acc_balance := 7\<rparr>"

definition five_block :: pending_block where
  "five_block = \<lparr>block_number = 0, pb_txs = [], pb_deposits = [dep_five], pb_forced_txs = [],
     pre_state_root = gi_pre_state_root input_five, post_state_root = account_hash ref_externs five_account\<rparr>"

definition five_app :: "(ref_store, ref_db) app_state" where
  "five_app = ref_app\<lparr>proven := gi_pre_state_root input_five, optimistic := gi_pre_state_root input_five,
     tree := ref_empty\<lparr>rs_head := Some (gi_pre_state_root input_five)\<rparr>\<rparr>"

definition five_tree :: ref_store where
  "five_tree = \<lparr>rs_versions = [(post_state_root five_block, [(dep_to dep_five, post_state_root five_block)])],
     rs_head = Some (post_state_root five_block)\<rparr>"

definition five_applied :: "(ref_store, ref_db) app_state" where
  "five_applied = five_app\<lparr>tree := five_tree, block_counter := 1\<rparr>"

definition five_committed :: "(ref_store, ref_db) app_state" where
  "five_committed = five_applied\<lparr>optimistic := post_state_root five_block,
     queue_db := ref_put (META_CF_NAME, ascii ''block_counter'', be_bytes 8 (1 :: u64))
       (ref_put (PENDING_CF_NAME, be_bytes 8 (0 :: u64), put_block five_block) (\<lambda>_. []))\<rparr>"

definition five_proofs :: proof_bundle where
  "five_proofs = gi_proofs input_five"

lemma five_root_nonzero: "gi_pre_state_root input_five \<noteq> hash_default"
  by (simp add: input_five_def dep_five_def address_to_hash_def account_new_def evals)

lemma five_deposit: "apply_deposit (account_new (dep_to dep_five)) dep_five = Ok five_account"
  by (simp add: apply_deposit_def checked_add_def five_account_def dep_five_def)

lemma five_fetch:
  "fetch_section five_params [bridge_five, bridge_five, bridge_five] [bridge_five, bridge_five, bridge_five]
     = Ok ([dep_five], [])"
  using ref.fetch_new_deposits_run [OF window_five] ref.fetch_new_forced_txs_run [OF window_five] push_five
  by (simp add: fetch_section_def five_params_def ref_params_def context_m_def unprocessed_five
      del: push_deposits.simps)

lemma five_batch:
  "optimistic_section five_params (gi_pre_state_root input_five) [] [dep_five] [] five_app
     = (Ok (0, post_state_root five_block), five_applied)"
proof -
  have "apply_optimistic_batch ref_tree ref_externs (\<lambda>xs. xs) (Some (gi_pre_state_root input_five))
      [] [dep_five] [] (ref_empty\<lparr>rs_head := Some (gi_pre_state_root input_five)\<rparr>)
    = (Ok (account_hash ref_externs five_account), five_tree\<lparr>rs_head := Some (gi_pre_state_root input_five)\<rparr>)"
    using five_root_nonzero five_deposit
    by (simp add: apply_optimistic_batch_def apply_block_def bind_m_split executor_apply_deposit_def
        match_m_split get_account_helper_def on_tree_def get_account_def executor_new_def five_block_def
        modify_m_def cache_insert_def commit_block_def five_tree_def
        ref_tree_def ref_empty_def ref_version_def ref_root_def Let_def)
  then show ?thesis
    by (simp add: optimistic_section_def five_params_def ref_params_def five_app_def ref_app_def
        five_applied_def five_block_def five_tree_def ref_tree_def)
qed

lemma five_commit:
  "commit_section five_params five_block (five_applied\<lparr>optimistic := post_state_root five_block\<rparr>)
     = (Ok (), five_committed)"
proof -
  have "fits five_block" by (simp add: fits_def five_block_def)
  moreover have "block_number five_block = 0" by (simp add: five_block_def)
  ultimately show ?thesis
    by (simp add: commit_section_def five_params_def ref_params_def commit_optimistic_block_def store_simps
        ref_kv_def ref_codec_def five_committed_def five_applied_def five_app_def ref_app_def plain_add_def)
qed

lemma five_peek:
  "on_queue (peek_pending ref_kv ref_codec) five_committed = (Ok (Some five_block), five_committed)"
proof -
  have "de_block ref_codec (put_block five_block) = Ok five_block"
    by (rule ref.de_ser) (simp add: ref_codec_def fits_def five_block_def)
  then show ?thesis
    by (simp add: on_queue_def peek_pending_def store_simps ref_kv_def five_committed_def ref_put_def)
qed

lemma five_replay:
  "generate_proofs_for_block ref_tree ref_externs five_block five_tree = (Ok five_proofs, five_tree)"
proof -
  have ne: "account_hash ref_externs (account_new (dep_to dep_five)) \<noteq> account_hash ref_externs five_account"
    by (simp add: dep_five_def five_account_def address_to_hash_def account_new_def evals)
  have "build_stf_proof ref_tree ref_externs (gi_pre_state_root input_five) (dep_to dep_five) five_tree
      = (Ok \<lparr>mp_account = account_new (dep_to dep_five), mp_siblings = []\<rparr>, five_tree)"
    using five_root_nonzero ne
    by (simp add: build_stf_proof_def get_account_def get_proof_def bind_m_split match_m_split
        ref_tree_def ref_version_def five_tree_def) (simp add: input_five_def five_block_def)
  then show ?thesis
    using five_deposit
    by (simp add: generate_proofs_for_block_def bind_m_split five_block_def generate_deposit_step_def
        compute_new_root_def five_proofs_def input_five_def)
qed

lemma five_generate:
  "generate_section five_params five_block five_committed = (Ok five_proofs, five_committed)"
  using five_replay
  by (simp add: generate_section_def five_params_def ref_params_def five_committed_def five_applied_def
      five_app_def ref_app_def)

lemma five_guest:
  "block_input five_block five_proofs = input_five"
  "guest_main ref_externs input_five
     = Ok (abi_encode_public_values ref_externs (public_values_of ref_externs input_five (post_state_root five_block)))"
  using five_deposit
  by (simp_all add: block_input_def five_block_def five_proofs_def input_five_def guest_main_Ok_iff
      execute_transition_def verify_def compute_new_root_def)

lemma five_prove: "fst (prove_section five_params five_block five_proofs l) = Ok (post_state_root five_block)"
proof -
  have "postStateRoot (public_values_of ref_externs input_five r) = r" for r
    by (simp add: public_values_of_def)
  with five_guest show ?thesis
    by (simp add: prove_section_def five_params_def ref_params_def bind_m_split context_m_def anyhow_m_def
        ref_prove_def check_public_values_def ref.abi_encode_public_values ref.abi_decode_public_values
        submit_proof_to_l1_def)
qed

definition five_sys :: "(ref_store, ref_db) sys" where
  "five_sys = \<lparr>s_app = five_committed\<lparr>proven := post_state_root five_block\<rparr>, s_opt = OptSleep,
     s_prv = PrvDone five_block, accepted = [], produced = [five_block], proved = [five_block], retired = []\<rparr>"

text \<open>The state in which the block is applied to the tree and not yet committed.\<close>

definition five_drained :: "(ref_store, ref_db) sys" where
  "five_drained = \<lparr>s_app = five_applied\<lparr>optimistic := post_state_root five_block\<rparr>, s_opt = OptDrained five_block,
     s_prv = PrvSleep, accepted = [], produced = [], proved = [], retired = []\<rparr>"

lemma five_drained_run: "reachable five_params five_app five_drained"
proof -
  let ?S = "\<lambda>a pc. \<lparr>s_app = a, s_opt = pc, s_prv = PrvSleep, accepted = [], produced = [],
    proved = [], retired = []\<rparr> :: (ref_store, ref_db) sys"
  let ?h = "five_applied\<lparr>optimistic := post_state_root five_block\<rparr>" and ?r = "gi_pre_state_root input_five"
  have opt: "sys_step five_params (?S x pc) (?S y pc')"
    if "opt_step five_params (pc, x) Silent (pc', y)" for x y pc pc'
    using optimistic_worker [of five_params "?S x pc" Silent pc' y] that by simp
  have start: "sys_start five_app = ?S five_app OptSleep"
    by (simp add: sys_start_def five_app_def ref_app_def)
  have "sys_step five_params (?S five_app OptSleep) (?S five_app (OptFetched [dep_five] []))"
    by (rule opt, rule opt_fetch, rule five_fetch)
  moreover have "sys_step five_params (?S five_app (OptFetched [dep_five] [])) (?S five_app (OptBatch [dep_five] [] []))"
    using opt_batch [of five_app "[dep_five]" "[]" five_params]
    by (intro opt) (simp add: five_app_def ref_app_def)
  moreover have "sys_step five_params (?S five_app (OptBatch [dep_five] [] []))
      (?S five_app (OptRoot [dep_five] [] [] ?r))"
    using opt_root [of five_params "[dep_five]" "[]" "[]" five_app]
    by (intro opt) (simp add: five_app_def)
  moreover have "sys_step five_params (?S five_app (OptRoot [dep_five] [] [] ?r))
      (?S five_applied (OptApplied five_block))"
    using opt_apply [OF five_batch] by (intro opt) (simp add: five_block_def)
  moreover have "sys_step five_params (?S five_applied (OptApplied five_block)) (?S ?h (OptHead five_block))"
    by (rule opt, rule opt_head)
  moreover have "sys_step five_params (?S ?h (OptHead five_block)) (?S ?h (OptDrained five_block))"
    by (rule opt, rule opt_drain)
      (simp add: drain_mempool_def five_block_def five_applied_def five_app_def ref_app_def)
  ultimately show ?thesis
    unfolding start five_drained_def by (meson converse_rtranclp_into_rtranclp rtranclp.rtrancl_refl)
qed

lemma five_produced:
  "reachable five_params five_app \<lparr>s_app = five_committed, s_opt = OptSleep, s_prv = PrvSleep, accepted = [],
     produced = [five_block], proved = [], retired = []\<rparr>"
proof -
  have "sys_step five_params five_drained
      \<lparr>s_app = five_committed, s_opt = OptSleep, s_prv = PrvSleep, accepted = [],
       produced = [five_block], proved = [], retired = []\<rparr>"
    using optimistic_worker [of five_params five_drained "Produce five_block" OptSleep five_committed]
      opt_commit [OF five_commit] by (simp add: five_drained_def)
  with five_drained_run show ?thesis by (rule rtranclp.rtrancl_into_rtrancl)
qed

lemma five_run: "reachable five_params five_app five_sys"
proof -
  let ?S = "\<lambda>pc. \<lparr>s_app = five_committed, s_opt = OptSleep, s_prv = pc, accepted = [], produced = [five_block],
    proved = [], retired = []\<rparr> :: (ref_store, ref_db) sys"
  have prv: "sys_step five_params (?S pc) (?S pc')"
    if "prv_step five_params (pc, five_committed) Silent (pc', five_committed)" for pc pc'
    using prover_worker [of five_params "?S pc" Silent pc' five_committed] that by simp
  have "sys_step five_params (?S PrvSleep) (?S (PrvBlock five_block 0))"
    using prv_peek [of five_params] five_peek by (intro prv) (simp add: five_params_def ref_params_def)
  moreover have "sys_step five_params (?S (PrvBlock five_block 0)) (?S (PrvGenerated five_block 0 five_proofs))"
    by (rule prv, rule prv_generate, rule five_generate)
  moreover have "sys_step five_params (?S (PrvGenerated five_block 0 five_proofs))
      (?S (PrvRoot five_block (post_state_root five_block)))"
    by (rule prv, rule prv_prove, rule five_prove)
  moreover have "sys_step five_params (?S (PrvRoot five_block (post_state_root five_block))) five_sys"
    using prover_worker [of five_params "?S (PrvRoot five_block (post_state_root five_block))" "Prove five_block"
        "PrvDone five_block" "five_committed\<lparr>proven := post_state_root five_block\<rparr>"]
      prv_head [of five_params five_block] by (simp add: five_sys_def)
  ultimately show ?thesis
    using five_produced by (meson rtranclp.rtrancl_into_rtrancl)
qed

end
