(* ===== verification/Seq_Config.thy ===== *)
theory Seq_Config
  imports Stf_Types
begin

text \<open>
  \<^verbatim>\<open>crates/sequencer/src/config.rs\<close>: the configuration of the sequencer and how it is
  loaded. The \<open>dotenvy\<close> and \<open>config\<close> crates are the record \<open>config_ops\<close>, over the
  environment of the process and the file system as an unknown state \<open>'w\<close>.
\<close>

type_synonym u16 = "16 word"

record server_config =
  port :: u16
  host :: string

record l1_config =
  enabled :: bool
  rpc_url :: string
  bridge_address :: address
  private_key :: string

record db_config =
  state_tree_path :: string
  queues_path :: string

record app_config =
  cfg_server :: server_config
  cfg_l1 :: l1_config
  cfg_database :: db_config

text \<open>A source of settings: a file by name, or the variables with a prefix and a separator.\<close>

datatype config_source = File_with_name string | Environment_with_prefix string string

record ('w, 'c) config_ops =
  dotenv :: "('w, unit, string) action"
  build :: "config_source list \<Rightarrow> ('w, 'c, string) action"
  try_deserialize :: "'c \<Rightarrow> (app_config, string) result"

text \<open>The outcome of \<open>dotenvy::dotenv()\<close> is dropped: a missing \<open>.env\<close> file is no error.\<close>

definition app_config_load :: "('w, 'c) config_ops \<Rightarrow> ('w, app_config, anyhow) action" where
  "app_config_load C =
     bind_m (match_m (context_m ''failed to load .env file'' (anyhow_m (dotenv C)))
       (\<lambda>_. return_m ()) (\<lambda>_. return_m ())) (\<lambda>_.
     bind_m (context_m ''failed to build config'' (anyhow_m
       (build C [File_with_name ''config/default'', Environment_with_prefix ''SEQ'' ''__'']))) (\<lambda>s.
     context_m ''failed to deserialize config'' (anyhow_m (lift_m (try_deserialize C s)))))"

lemma app_config_load_no_env_file:
  assumes "dotenv C w = (Err e, w')"
  shows "app_config_load C w = app_config_load (C\<lparr>dotenv := \<lambda>_. (Ok (), w')\<rparr>) w"
  using assms by (simp add: app_config_load_def bind_m_split match_m_split context_m_def anyhow_m_def)

end
