(* ===== verification/Startup.thy ===== *)
theory Startup
  imports Sequencer Seq_Config
begin

text \<open>
  \<open>main\<close> of \<^verbatim>\<open>crates/sequencer/src/main.rs\<close>: how the sequencer builds its state from the
  configuration, the tree and the queue database, and what a restart finds of the state that
  an earlier run left behind.
\<close>

section \<open>The code\<close>

text \<open>
  The state: the tree's head root (the zero root for a new tree), which becomes both heads,
  an empty mempool, and the counter of the queue database. \<open>opened\<close> is the outcome of
  \<open>open_db\<close>; the endpoint's URL is parsed whether L1 is enabled or not.
\<close>

definition app_start ::
  "('t, 'd, 'l) params \<Rightarrow> 't \<Rightarrow> ('d, anyhow) result \<Rightarrow> (('t, 'd) app_state, anyhow) result" where
  "app_start P t0 opened =
     (let T = p_tree P; (h0, t1) = anyhow_m (mt_get_headroot T) t0 in
      bind_res h0 (\<lambda>head.
      let t2 = (case head of None \<Rightarrow> mt_set_headroot T (Some hash_default) t1 | Some _ \<Rightarrow> t1);
          (h1, t3) = anyhow_m (mt_get_headroot T) t2 in
      bind_res h1 (\<lambda>head.
      bind_res (ok_or [''main get_headroot err''] head) (\<lambda>initial_root.
      bind_res (map_err (\<lambda>e. [e]) (p_parse_url P)) (\<lambda>_.
      bind_res opened (\<lambda>queue_db0.
      let (c, queue_db1) = get_block_counter (p_kv P) queue_db0 in
      bind_res c (\<lambda>initial_block_counter.
      Ok \<lparr>mempool = [], proven = initial_root, optimistic = initial_root, tree = t3, poisoned = False,
          block_counter = initial_block_counter, queue_db = queue_db1\<rparr>)))))))"

text \<open>
  What \<open>main\<close> calls besides: the environment, the prover's setup, the constructor of the
  tree, the parsers and the listener.
\<close>

record ('t, 'd, 'w, 'c) startup =
  u_config :: "('w, 'c) config_ops"
  u_set_var :: "string \<Rightarrow> string \<Rightarrow> 'w \<Rightarrow> 'w"
  u_setup :: "('w, unit, string) action"
  u_tree_new :: "string \<Rightarrow> 't"
  u_open_cf :: "'d db_open"
  u_parse_url :: "string \<Rightarrow> (unit, string) result"
  u_parse_key :: "string \<Rightarrow> (unit, string) result"
  u_bind :: "string \<Rightarrow> ('w, unit, string) action"

text \<open>The parameters of the system that the configuration determines.\<close>

definition configured ::
  "('t, 'd, 'w, 'c) startup \<Rightarrow> app_config \<Rightarrow> ('t, 'd, 'l) params \<Rightarrow> ('t, 'd, 'l) params" where
  "configured U config P = P\<lparr>l1_enabled := enabled (cfg_l1 config),
     p_parse_url := u_parse_url U (rpc_url (cfg_l1 config)),
     p_parse_key := u_parse_key U (private_key (cfg_l1 config))\<rparr>"

text \<open>On \<open>Ok\<close>, the workers and the handler run from the returned state.\<close>

definition seq_main ::
  "('t, 'd, 'w, 'c) startup \<Rightarrow> ('t, 'd, 'l) params
     \<Rightarrow> ('w, ('t, 'd, 'l) params \<times> ('t, 'd) app_state, anyhow) action" where
  "seq_main U P0 w =
     bind_m (context_m ''main load_config err'' (app_config_load (u_config U))) (\<lambda>config.
     let P = configured U config P0 in
     bind_m (context_m ''main setup_prover err'' (anyhow_m (u_setup U))) (\<lambda>_.
     bind_m (lift_m (app_start P (u_tree_new U (state_tree_path (cfg_database config)))
       (open_db (u_open_cf U) (queues_path (cfg_database config))))) (\<lambda>app.
     bind_m (context_m ''main bind_listener err'' (anyhow_m (u_bind U ''0.0.0.0:3000''))) (\<lambda>_.
     return_m (P, app))))) (u_set_var U ''SP1_PROVER'' ''mock'' w)"

section \<open>The head of the tree\<close>

text \<open>
  What the tree crate promises about its head root: it is the one set last, and reading does
  not change it.
\<close>

locale head_store =
  fixes T :: "'t tree_ops"
  assumes head_set: "fst (mt_get_headroot T (mt_set_headroot T (Some r) t)) = Ok (Some r)"
    and head_head: "fst (mt_get_headroot T (snd (mt_get_headroot T t))) = fst (mt_get_headroot T t)"
    and head_get: "fst (mt_get_headroot T (snd (mt_get T root k t))) = fst (mt_get_headroot T t)"
    and head_proof: "fst (mt_get_headroot T (snd (mt_get_merkle_proof T root k t))) = fst (mt_get_headroot T t)"

definition head_is :: "'t tree_ops \<Rightarrow> hash \<Rightarrow> 't \<Rightarrow> bool" where
  "head_is T r t \<longleftrightarrow> fst (mt_get_headroot T t) = Ok (Some r)"

interpretation ref: head_store ref_tree
  by unfold_locales (simp_all add: ref_tree_def)

lemma keeps_cases:
  "(\<And>a b. keeps Q (f a b)) \<Longrightarrow> keeps Q (case_prod f x)"
  "keeps Q m \<Longrightarrow> keeps Q n \<Longrightarrow> keeps Q (if c then m else n)"
  "(\<And>a b. keeps Q (g a b)) \<Longrightarrow> (\<And>a. keeps Q (g' a)) \<Longrightarrow> keeps Q (case_transaction_result g g' y)"
  by (auto split: prod.split transaction_result.split)

lemmas keeps_steps = keeps_bind keeps_match keeps_lift keeps_return keeps_map_err keeps_cases

context head_store
begin

lemma keeps_head_reads:
  "keeps (head_is T h) (mt_get T r k)" "keeps (head_is T h) (mt_get_merkle_proof T r k)"
  by (auto simp: keeps_def head_is_def head_get head_proof)

lemma keeps_head_get_account [intro]: "keeps (head_is T h) (get_account T E r k)"
  unfolding get_account_def by (auto intro: keeps_head_reads)

lemma keeps_head_get_proof [intro]: "keeps (head_is T h) (get_proof T r k)"
  unfolding get_proof_def by (auto intro: keeps_head_reads)

lemma keeps_head_build: "keeps (head_is T h) (build_stf_proof T E r k)"
  unfolding build_stf_proof_def
  by (intro keeps_steps keeps_head_get_account keeps_head_get_proof) (auto split: core_error.split)

lemmas keeps_head_steps = keeps_steps keeps_head_build keeps_head_get_account

lemma keeps_head_deposits: "keeps (head_is T h) (generate_deposits T E ds r)"
proof (induction ds arbitrary: r)
  case (Cons d ds)
  have "keeps (head_is T h) (generate_deposit_step T E d r)"
    unfolding generate_deposit_step_def
    by (intro keeps_head_steps) (auto split: result.split stf_error.split)
  with Cons show ?case by (auto intro!: keeps_steps)
qed simp

lemma keeps_head_loop:
  assumes "\<And>x r. keeps (head_is T h) (step x r)"
  shows "keeps (head_is T h) (generate_loop step xs r)"
  by (induction xs arbitrary: r) (auto intro!: keeps_steps assms)

lemma keeps_head_forced: "keeps (head_is T h) (generate_forced_step T E tx r)"
  unfolding generate_forced_step_def Let_def by (intro keeps_head_steps)

lemma keeps_head_tx: "keeps (head_is T h) (generate_tx_step T E tx r)"
  unfolding generate_tx_step_def Let_def by (intro keeps_head_steps)

lemma keeps_head_generate: "keeps (head_is T h) (generate_proofs_for_block T E b)"
  unfolding generate_proofs_for_block_def
  by (intro keeps_steps keeps_head_deposits keeps_head_loop keeps_head_forced keeps_head_tx)

end

section \<open>What the disk holds while the sequencer runs\<close>

text \<open>
  The head of the tree is one block ahead of the stored counter from the moment the batch is
  applied until the block is committed.
\<close>

fun durable :: "hash \<Rightarrow> u64 \<Rightarrow> opt_pc \<Rightarrow> ('t, 'd) app_state \<Rightarrow> bool" where
  "durable h n (OptApplied b) a \<longleftrightarrow> h = post_state_root b \<and> n = block_number b \<and> block_counter a = n + 1"
| "durable h n (OptHead b) a \<longleftrightarrow> h = post_state_root b \<and> n = block_number b
     \<and> block_counter a = n + 1 \<and> optimistic a = h"
| "durable h n (OptDrained b) a \<longleftrightarrow> h = post_state_root b \<and> n = block_number b
     \<and> block_counter a = n + 1 \<and> optimistic a = h"
| "durable h n (OptStopped x) a \<longleftrightarrow> True"
| "durable h n _ a \<longleftrightarrow> h = optimistic a \<and> n = block_counter a"

definition stored_counter :: "('t, 'd, 'l) params \<Rightarrow> ('d \<Rightarrow> content) \<Rightarrow> ('t, 'd) app_state \<Rightarrow> u64" where
  "stored_counter P view a = q_counter (queue_of (p_codec P) (view (queue_db a)))"

definition durable_inv :: "('t, 'd, 'l) params \<Rightarrow> ('d \<Rightarrow> content) \<Rightarrow> ('t, 'd) sys \<Rightarrow> bool" where
  "durable_inv P view s \<longleftrightarrow> (\<forall>x. s_opt s \<noteq> OptStopped x) \<longrightarrow>
     (\<exists>h. head_is (p_tree P) h (tree (s_app s)) \<and> durable h (stored_counter P view (s_app s)) (s_opt s) (s_app s))"

lemma durable_frame:
  "optimistic a' = optimistic a \<Longrightarrow> block_counter a' = block_counter a \<Longrightarrow> durable h n pc a' = durable h n pc a"
  by (cases pc) simp_all

lemma stored_counter_frame: "queue_db a' = queue_db a \<Longrightarrow> stored_counter P view a' = stored_counter P view a"
  by (simp add: stored_counter_def)

lemma commit_section_counter:
  assumes "block_store (p_kv P) view (p_codec P)" and "commit_section P b a = (Ok (), a')"
  shows "stored_counter P view a' = block_number b + 1"
proof -
  from assms(2) obtain d where "commit_optimistic_block (p_kv P) (p_codec P) b (block_number b + 1) (queue_db a) = (Ok (), d)"
    and "a' = a\<lparr>queue_db := d\<rparr>"
    by (auto simp: commit_section_def plain_add_Ok_iff split: result.splits prod.splits)
  then show ?thesis
    by (simp add: stored_counter_def block_store.commit_optimistic_block_queue(1) [OF assms(1)] enqueue_def)
qed

lemma optimistic_section_head:
  assumes "head_store (p_tree P)" and "optimistic_section P r txs ds fs a = (Ok (n, root), a')"
  shows "head_is (p_tree P) root (tree a')"
  using assms(2) head_store.head_set [OF assms(1)]
  by (auto simp: optimistic_section_def head_is_def split: if_splits prod.splits result.splits)

lemma durable_opt:
  assumes "block_store (p_kv P) view (p_codec P)" and "head_store (p_tree P)"
    and "durable_inv P view s" and "opt_step P (s_opt s, s_app s) e (pc', a')"
  shows "durable_inv P view (record_event e (s\<lparr>s_app := a', s_opt := pc'\<rparr>))"
  using assms(4,3)
proof (cases rule: opt_step.cases)
  case (opt_apply pre_root txs deposits forced_txs n new_root)
  with assms(3) show ?thesis
    using optimistic_section_head [OF assms(2) opt_apply(4)] optimistic_section_frame [OF opt_apply(4)]
    by (auto simp: durable_inv_def stored_counter_frame [of a' "s_app s"])
next
  case (opt_commit block)
  with assms(3) show ?thesis
    using commit_section_counter [OF assms(1) opt_commit(4)] commit_section_frame [OF opt_commit(4)]
    by (auto simp: durable_inv_def)
qed (auto simp: durable_inv_def drain_mempool_def stored_counter_def split: if_splits)

lemma on_queue_counter:
  assumes "block_store (p_kv P) view (p_codec P)"
  shows "on_queue (peek_pending (p_kv P) (p_codec P)) a = (r, a') \<Longrightarrow>
      stored_counter P view a' = stored_counter P view a"
    and "on_queue (remove_pending (p_kv P) n) a = (r', a') \<Longrightarrow>
      stored_counter P view a' = stored_counter P view a"
    and "on_queue (push_failed (p_kv P) (p_codec P) b) a = (r', a') \<Longrightarrow>
      stored_counter P view a' = stored_counter P view a"
  using block_store.peek_pending_view [OF assms] block_store.remove_pending_queue(1) [OF assms]
    block_store.push_failed_queue(1) [OF assms]
  by (fastforce dest!: on_queue_frame simp: stored_counter_def dequeue_def record_failure_def split: if_splits)+

lemma generate_section_head:
  assumes "head_store (p_tree P)" and "generate_section P b a = (r, a')" and "head_is (p_tree P) h (tree a)"
  shows "head_is (p_tree P) h (tree a')"
  using assms(2,3) head_store.keeps_head_generate [OF assms(1), of h "p_ext P" b]
  by (auto simp: generate_section_def split: if_splits prod.splits result.splits dest: keepsD)

lemma durable_prv:
  assumes "block_store (p_kv P) view (p_codec P)" and "head_store (p_tree P)"
    and "durable_inv P view s" and "prv_step P (s_prv s, s_app s) e (pc', a')"
  shows "durable_inv P view (record_event e (s\<lparr>s_app := a', s_prv := pc'\<rparr>))"
proof -
  have "stored_counter P view a' = stored_counter P view (s_app s)"
    using assms(4)
    by (cases rule: prv_step.cases)
      (auto intro: stored_counter_frame dest!: generate_section_frame on_queue_counter [OF assms(1)])
  moreover have "head_is (p_tree P) h (tree a')" if "head_is (p_tree P) h (tree (s_app s))" for h
    using assms(4) that
    by (cases rule: prv_step.cases) (auto dest!: on_queue_frame dest: generate_section_head [OF assms(2)])
  ultimately show ?thesis
    using prv_step_frame [OF assms(4)] assms(3) durable_frame [of a' "s_app s"]
    by (cases e) (auto simp: durable_inv_def)
qed

lemma durable_reachable:
  assumes "block_store (p_kv P) view (p_codec P)" and "head_store (p_tree P)"
    and "head_is (p_tree P) (optimistic app) (tree app)" and "stored_counter P view app = block_counter app"
    and "reachable P app s"
  shows "durable_inv P view s"
  using assms(5)
proof (rule sys_invariant, goal_cases)
  case 1
  show ?case using assms(3,4) by (auto simp: durable_inv_def sys_start_def)
next
  case (2 s tx msg a')
  then show ?case
    using durable_frame [of a' "s_app s"] by (auto simp: durable_inv_def handle_submit_tx_def stored_counter_def)
next
  case (3 s e pc' a')
  then show ?case by (intro durable_opt [OF assms(1,2)])
next
  case (4 s e pc' a')
  then show ?case by (intro durable_prv [OF assms(1,2)])
qed

section \<open>Starting\<close>

lemma app_start_OkE:
  assumes "app_start P t0 opened = Ok app"
  obtains t r d where "fst (mt_get_headroot (p_tree P) t) = Ok (Some r)" and "tree app = snd (mt_get_headroot (p_tree P) t)"
    and "p_parse_url P = Ok ()" and "opened = Ok d"
    and "get_block_counter (p_kv P) d = (Ok (block_counter app), queue_db app)"
    and "proven app = r" and "optimistic app = r" and "mempool app = []"
  using assms
  by (force simp: app_start_def Let_def anyhow_m_def split: prod.splits)

lemma app_start_durable:
  assumes "block_store (p_kv P) view (p_codec P)" and "head_store (p_tree P)" and "app_start P t0 opened = Ok app"
  shows "head_is (p_tree P) (optimistic app) (tree app)" and "stored_counter P view app = block_counter app"
    and "p_parse_url P = Ok ()"
proof -
  from assms(3) obtain t d where t: "fst (mt_get_headroot (p_tree P) t) = Ok (Some (optimistic app))"
      "tree app = snd (mt_get_headroot (p_tree P) t)"
    and url: "p_parse_url P = Ok ()"
    and c: "get_block_counter (p_kv P) d = (Ok (block_counter app), queue_db app)"
    by (elim app_start_OkE) auto
  show "head_is (p_tree P) (optimistic app) (tree app)"
    using t head_store.head_head [OF assms(2), of t] by (simp add: head_is_def)
  show "stored_counter P view app = block_counter app"
    using block_store.get_block_counter_queue [OF assms(1) c] by (simp add: stored_counter_def)
  show "p_parse_url P = Ok ()" by (rule url)
qed

lemma app_start_from:
  assumes "block_store (p_kv P) view (p_codec P)" and "head_store (p_tree P)" and "head_is (p_tree P) r (tree a)"
    and "p_parse_url P = Ok ()" and "fst (get_block_counter (p_kv P) (queue_db a)) = Ok n"
  shows "\<exists>app. app_start P (tree a) (Ok (queue_db a)) = Ok app \<and> optimistic app = r \<and> proven app = r
    \<and> mempool app = [] \<and> \<not> poisoned app \<and> block_counter app = stored_counter P view a
    \<and> view (queue_db app) = view (queue_db a)"
proof -
  have h: "fst (mt_get_headroot (p_tree P) (tree a)) = Ok (Some r)"
      "fst (mt_get_headroot (p_tree P) (snd (mt_get_headroot (p_tree P) (tree a)))) = Ok (Some r)"
    using assms(3) head_store.head_head [OF assms(2)] by (simp_all add: head_is_def)
  obtain d where c: "get_block_counter (p_kv P) (queue_db a) = (Ok n, d)"
    using assms(5) by (cases "get_block_counter (p_kv P) (queue_db a)") simp
  from block_store.get_block_counter_queue [OF assms(1) c] h c assms(4) show ?thesis
    by (simp add: app_start_def Let_def anyhow_m_def stored_counter_def)
qed

text \<open>The column families of a database opened at the start stay there.\<close>

lemma families_commit:
  assumes "opened_store (p_kv P) view open_cf" and "commit_section P b a = (r, a')"
    and "families (p_kv P) (queue_db a)"
  shows "families (p_kv P) (queue_db a')"
  using assms(2,3) keepsD [OF opened_store.keeps_families(7) [OF assms(1)] assms(3)]
  by (auto simp: commit_section_def split: result.splits prod.splits)

lemma families_on_queue:
  "on_queue m a = (r, a') \<Longrightarrow> keeps (families D) m \<Longrightarrow> families D (queue_db a) \<Longrightarrow> families D (queue_db a')"
  by (auto dest!: on_queue_frame dest: keepsD)

lemma families_reachable:
  assumes "opened_store (p_kv P) view open_cf" and "families (p_kv P) (queue_db app)" and "reachable P app s"
  shows "families (p_kv P) (queue_db (s_app s))"
  using assms(3)
proof (rule sys_invariant, goal_cases)
  case 1
  show ?case using assms(2) by (simp add: sys_start_def)
next
  case (2 s tx msg a')
  then show ?case by (auto simp: handle_submit_tx_def)
next
  case (3 s e pc' a')
  from 3(2,1) have "families (p_kv P) (queue_db a')"
    by (cases rule: opt_step.cases)
      (auto simp: drain_mempool_def split: if_splits dest!: optimistic_section_frame
        dest: families_commit [OF assms(1)])
  then show ?case by (cases e) simp_all
next
  case (4 s e pc' a')
  note kept = opened_store.keeps_families [OF assms(1)]
  from 4(2,1) have "families (p_kv P) (queue_db a')"
    by (cases rule: prv_step.cases)
      (auto dest!: generate_section_frame dest: families_on_queue [OF _ kept(2)] families_on_queue [OF _ kept(3)]
        families_on_queue [OF _ kept(4)])
  then show ?case by (cases e) simp_all
qed

lemma counter_readable:
  assumes "opened_store (p_kv P) view open_cf" and "app_start P t0 (open_db open_cf path) = Ok app"
    and "reachable P app s" and "fst (kv_get (p_kv P) META_CF_NAME (ascii ''block_counter'') (queue_db (s_app s))) = Ok x"
  shows "\<exists>n. fst (get_block_counter (p_kv P) (queue_db (s_app s))) = Ok n"
proof -
  from assms(2) obtain d where "open_db open_cf path = Ok d"
    and "get_block_counter (p_kv P) d = (Ok (block_counter app), queue_db app)" by (elim app_start_OkE)
  then have "families (p_kv P) (queue_db app)"
    using opened_store.open_db_families [OF assms(1)] keepsD [OF opened_store.keeps_families(5) [OF assms(1)]] by blast
  from families_reachable [OF assms(1) this assms(3)] show ?thesis
    using opened_store.get_block_counter_runs [OF assms(1) _ assms(4)] by blast
qed

text \<open>Without a valid URL of the endpoint the sequencer does not start, L1 enabled or not.\<close>

lemma startup_needs_rpc_url:
  assumes "p_parse_url P = Err e"
  shows "app_start P t0 opened \<noteq> Ok app"
  using assms by (auto elim: app_start_OkE)

section \<open>Properties\<close>

text \<open>
C18. A restart finds what was written: when the optimistic worker is between two blocks, in any
  state reachable from a successful start, starting again on the tree and the database of that
  state (the counter being readable) succeeds with the same optimistic head, the same block
  counter and the same queue. The mempool is lost, and the proven head becomes the optimistic
  one, whether its blocks were proved or not.
\<close>
theorem restart_recovers:
  assumes "block_store (p_kv P) view (p_codec P)" and "head_store (p_tree P)"
    and "app_start P t0 (open_db open_cf path) = Ok app" and "reachable P app s" and "s_opt s = OptSleep"
    and "opened_store (p_kv P) view open_cf"
    and "fst (kv_get (p_kv P) META_CF_NAME (ascii ''block_counter'') (queue_db (s_app s))) = Ok x"
  shows "\<exists>app'. app_start P (tree (s_app s)) (Ok (queue_db (s_app s))) = Ok app'
    \<and> optimistic app' = optimistic (s_app s) \<and> block_counter app' = block_counter (s_app s)
    \<and> view (queue_db app') = view (queue_db (s_app s))
    \<and> mempool app' = [] \<and> proven app' = optimistic (s_app s)"
proof -
  note start = app_start_durable [OF assms(1-3)]
  from durable_reachable [OF assms(1,2) start(1,2) assms(4)] assms(5)
  have "head_is (p_tree P) (optimistic (s_app s)) (tree (s_app s))"
    and c: "stored_counter P view (s_app s) = block_counter (s_app s)"
    by (auto simp: durable_inv_def)
  from app_start_from [OF assms(1,2) this(1) start(3)] c counter_readable [OF assms(6,3,4,7)]
  show ?thesis by auto
qed

lemma ref_app_start: "app_start ref_params ref_empty (open_db ref_open path) = Ok ref_app"
  by (simp add: open_db_def ref_open_def app_start_def ref_params_def ref_tree_def ref_empty_def anyhow_m_def get_block_counter_def
      bind_m_split cf_handle_def ref_kv_def ref_app_def)

theorem restart_recovers_witness:
  "\<exists>app'. app_start ref_params (tree ref_app') (Ok (queue_db ref_app')) = Ok app' \<and> block_counter app' = 1"
proof -
  have stores: "block_store (p_kv ref_params) ref_view (p_codec ref_params)" "head_store (p_tree ref_params)"
    using ref.block_store_axioms ref.head_store_axioms by (simp_all add: ref_params_def)
  have opened: "opened_store (p_kv ref_params) ref_view ref_open"
    using ref.opened_store_axioms by (simp add: ref_params_def)
  have "fst (kv_get (p_kv ref_params) META_CF_NAME (ascii ''block_counter'') (queue_db (s_app ref_sys)))
      = Ok (ref_view (queue_db ref_app') META_CF_NAME (ascii ''block_counter''))"
    by (simp add: ref_params_def ref_kv_def ref_view_def ref_sys_def)
  from restart_recovers [OF stores ref_app_start ref_run _ opened this] show ?thesis
    by (auto simp: ref_sys_def ref_app'_def)
qed

text \<open>Where a block is applied and not committed, the tree is at its post-state root and the chain at its pre-state root.\<close>

lemma uncommitted_durable:
  assumes "uncommitted pc = Some b" and "durable h n pc a"
  shows "h = post_state_root b \<and> n = block_number b"
  using assms by (cases pc) auto

lemma uncommitted_heads:
  assumes "uncommitted pc = Some b" and "opt_heads r n pc a"
  shows "pre_state_root b = r \<and> block_number b = n"
  using assms by (cases pc) auto

text \<open>
C37. A crash before the commit skips a block: from the moment a block is applied to the tree until
  it is committed to the queue, a restart takes its post-state root as the head, although the
  queue has no block with its number (for fewer than \<open>2^64\<close> blocks) and the blocks produced
  before end at its pre-state root. In every run after the restart the blocks continue from the
  post-state root with the skipped number: with a block that changes the root, the blocks before
  the crash and those after it are no chain, and the mempool is empty.
\<close>
theorem crash_before_commit_skips_block:
  assumes "block_store (p_kv P) view (p_codec P)" and "head_store (p_tree P)"
    and "app_start P t0 (open_db open_cf path) = Ok app" and "store_ok (p_codec P) (view (queue_db app))"
    and "q_pending (queue_of (p_codec P) (view (queue_db app))) = by_number backlog"
    and "ascending backlog" and "\<forall>b \<in> set backlog. block_number b < block_counter app"
    and "reachable P app s" and "uncommitted (s_opt s) = Some b"
    and "unat (block_counter app) + length (produced s) < 2 ^ 64"
    and "opened_store (p_kv P) view open_cf"
    and "fst (kv_get (p_kv P) META_CF_NAME (ascii ''block_counter'') (queue_db (s_app s))) = Ok x"
  shows "last_root (optimistic app) (produced s) = pre_state_root b
    \<and> (\<exists>app'. app_start P (tree (s_app s)) (Ok (queue_db (s_app s))) = Ok app'
      \<and> optimistic app' = post_state_root b \<and> block_counter app' = block_number b \<and> mempool app' = []
      \<and> q_pending (queue_of (p_codec P) (view (queue_db app'))) (block_number b) = None
      \<and> (\<forall>s'. reachable P app' s' \<longrightarrow> chained (post_state_root b) (block_number b) (produced s')
          \<and> (produced s' \<noteq> [] \<and> pre_state_root b \<noteq> post_state_root b \<longrightarrow>
              \<not> chained (optimistic app) (block_counter app) (produced s @ produced s'))))"
proof -
  note start = app_start_durable [OF assms(1-3)]
  have "\<forall>x. s_opt s \<noteq> OptStopped x" using assms(9) by auto
  with durable_reachable [OF assms(1,2) start(1,2) assms(8)] uncommitted_durable [OF assms(9)]
  have head: "head_is (p_tree P) (post_state_root b) (tree (s_app s))"
    and c: "stored_counter P view (s_app s) = block_number b"
    by (auto simp: durable_inv_def)
  from chain_inv_reachable [OF assms(8)]
  have produced: "chained (optimistic app) (block_counter app) (produced s)"
    and heads: "opt_heads (last_root (optimistic app) (produced s)) (block_counter app + of_nat (length (produced s)))
      (s_opt s) (s_app s)" by (simp_all add: chain_inv_def)
  from produced uncommitted_heads [OF assms(9) heads]
  have pre: "last_root (optimistic app) (produced s) = pre_state_root b"
    and "chained (optimistic app) (block_counter app) (produced s @ [b])"
    by (simp_all add: chained_snoc)
  from ascending_run [OF assms(6,7) this(2)] assms(10) have asc: "ascending ((backlog @ produced s) @ [b])" by simp
  from queue_inv_reachable [OF assms(1,4-8)] assms(10) obtain waiting where
    w: "backlog @ produced s = retired s @ waiting"
      "q_pending (queue_of (p_codec P) (view (queue_db (s_app s)))) = by_number waiting"
    by (auto simp: queue_inv_def)
  have none: "by_number waiting (block_number b) = None"
    using asc w(1) by (auto simp: by_number_None ascending_def sorted_wrt_append)
  from app_start_from [OF assms(1,2) head start(3)] counter_readable [OF assms(11,3,8,12)]
  obtain app' where app': "app_start P (tree (s_app s)) (Ok (queue_db (s_app s))) = Ok app'"
    "optimistic app' = post_state_root b" "mempool app' = []" "block_counter app' = block_number b"
    "view (queue_db app') = view (queue_db (s_app s))" using c by auto
  have later: "chained (post_state_root b) (block_number b) (produced s')
      \<and> (produced s' \<noteq> [] \<and> pre_state_root b \<noteq> post_state_root b \<longrightarrow>
          \<not> chained (optimistic app) (block_counter app) (produced s @ produced s'))"
    if "reachable P app' s'" for s'
    using chain_inv_reachable [OF that] app'(2,4) pre
    by (cases "produced s'") (auto simp: chain_inv_def chained_append)
  from app' none w(2) later show ?thesis by (intro conjI pre exI [of _ app'] allI impI) simp_all
qed

lemma five_app_start:
  "app_start five_params (ref_empty\<lparr>rs_head := Some (gi_pre_state_root input_five)\<rparr>) (open_db ref_open path) = Ok five_app"
  by (simp add: open_db_def ref_open_def app_start_def five_params_def ref_params_def ref_tree_def anyhow_m_def
      get_block_counter_def bind_m_split cf_handle_def ref_kv_def five_app_def ref_app_def)

theorem crash_before_commit_skips_block_witness:
  "pre_state_root five_block \<noteq> post_state_root five_block
    \<and> (\<exists>app'. app_start five_params five_tree (Ok (\<lambda>_. [])) = Ok app'
      \<and> optimistic app' = post_state_root five_block \<and> block_counter app' = 0
      \<and> q_pending (queue_of ref_codec (ref_view (queue_db app'))) 0 = None
      \<and> (\<forall>s'. reachable five_params app' s' \<longrightarrow> chained (post_state_root five_block) 0 (produced s')))"
proof -
  have stores: "block_store (p_kv five_params) ref_view (p_codec five_params)" "head_store (p_tree five_params)"
    using ref.block_store_axioms ref.head_store_axioms by (simp_all add: five_params_def ref_params_def)
  have empty: "store_ok (p_codec five_params) (ref_view (queue_db five_app))"
      "q_pending (queue_of (p_codec five_params) (ref_view (queue_db five_app))) = by_number []"
    by (simp_all add: store_ok_def filed_def ref_view_def five_app_def ref_app_def queue_of_def blocks_in_def
        by_number_def fun_eq_iff)
  have opened: "opened_store (p_kv five_params) ref_view ref_open"
    using ref.opened_store_axioms by (simp add: five_params_def ref_params_def)
  have state: "uncommitted (s_opt five_drained) = Some five_block" "produced five_drained = []"
      "tree (s_app five_drained) = five_tree" "queue_db (s_app five_drained) = (\<lambda>_. [])"
      "block_counter five_app = 0" "block_number five_block = 0" "p_codec five_params = ref_codec"
    by (simp_all add: five_drained_def five_applied_def five_app_def ref_app_def five_block_def five_params_def
        ref_params_def)
  have "fst (kv_get (p_kv five_params) META_CF_NAME (ascii ''block_counter'') (queue_db (s_app five_drained))) = Ok None"
    by (simp add: five_params_def ref_params_def ref_kv_def state)
  from crash_before_commit_skips_block [OF stores five_app_start empty _ _ five_drained_run state(1) _ opened this]
  have "\<exists>app'. app_start five_params five_tree (Ok (\<lambda>_. [])) = Ok app'
      \<and> optimistic app' = post_state_root five_block \<and> block_counter app' = 0
      \<and> q_pending (queue_of ref_codec (ref_view (queue_db app'))) 0 = None
      \<and> (\<forall>s'. reachable five_params app' s' \<longrightarrow> chained (post_state_root five_block) 0 (produced s'))"
    unfolding state by (auto simp: ascending_def)
  moreover have "pre_state_root five_block \<noteq> post_state_root five_block"
    by (simp add: five_block_def input_five_def five_account_def dep_five_def address_to_hash_def account_new_def evals)
  ultimately show ?thesis by blast
qed

end
