(* ===== verification/Guest_Io.thy ===== *)
theory Guest_Io
  imports Core_Proofs Bincode
begin

text \<open>
  The standard input of the zkVM: what the host writes for a block (\<open>SP1Stdin::write\<close> in
  \<^verbatim>\<open>sequencer/src/main.rs\<close> and \<^verbatim>\<open>script/src/bin/main.rs\<close>) and what
  \<^verbatim>\<open>program/src/main.rs\<close> reads of it (\<open>sp1_zkvm::io::read\<close>), value by value.
\<close>

section \<open>The code\<close>

text \<open>
  The input is a list of buffers, one per value. The serialisation of each type belongs to
  the SDK: \<open>sc_ser\<close> and \<open>sc_de\<close>. Writing panics when serialising fails; reading panics when
  there is no buffer left or the buffer does not decode.
\<close>

record 'a stdin_codec =
  sc_ser :: "'a \<Rightarrow> (bytes, string) result"
  sc_de :: "bytes \<Rightarrow> ('a, string) result"

record sp1_io =
  io_hash :: "hash stdin_codec"
  io_transactions :: "transaction list stdin_codec"
  io_deposits :: "deposit list stdin_codec"
  io_forced :: "forced_tx list stdin_codec"
  io_proofs :: "merkle_proof list stdin_codec"

definition stdin_write :: "'a stdin_codec \<Rightarrow> 'a \<Rightarrow> (bytes list, unit, anyhow) action" where
  "stdin_write c x stdin = (case sc_ser c x of
     Ok buf \<Rightarrow> (Ok (), stdin @ [buf]) | Err e \<Rightarrow> (Panic e, stdin) | Panic msg \<Rightarrow> (Panic msg, stdin))"

definition io_read :: "'a stdin_codec \<Rightarrow> (bytes list, 'a, unit) action" where
  "io_read c stdin = (case stdin of
     [] \<Rightarrow> (Panic ''input stream exhausted'', [])
   | buf # rest \<Rightarrow> (case sc_de c buf of
       Ok x \<Rightarrow> (Ok x, rest) | Err e \<Rightarrow> (Panic e, rest) | Panic msg \<Rightarrow> (Panic msg, rest)))"

definition write_block :: "sp1_io \<Rightarrow> pending_block \<Rightarrow> proof_bundle \<Rightarrow> (bytes list, unit, anyhow) action" where
  "write_block io block proofs =
     bind_m (stdin_write (io_hash io) (pre_state_root block)) (\<lambda>_.
     bind_m (stdin_write (io_transactions io) (pb_txs block)) (\<lambda>_.
     bind_m (stdin_write (io_deposits io) (pb_deposits block)) (\<lambda>_.
     bind_m (stdin_write (io_forced io) (pb_forced_txs block)) (\<lambda>_.
     bind_m (stdin_write (io_proofs io) (proofs_deposits proofs)) (\<lambda>_.
     bind_m (stdin_write (io_proofs io) (proofs_forced_from proofs)) (\<lambda>_.
     bind_m (stdin_write (io_proofs io) (proofs_forced_to proofs)) (\<lambda>_.
     bind_m (stdin_write (io_proofs io) (proofs_txs_from proofs)) (\<lambda>_.
     stdin_write (io_proofs io) (proofs_txs_to proofs)))))))))"

definition read_input :: "sp1_io \<Rightarrow> (bytes list, guest_input, unit) action" where
  "read_input io =
     bind_m (io_read (io_hash io)) (\<lambda>pre_root.
     bind_m (io_read (io_transactions io)) (\<lambda>txs.
     bind_m (io_read (io_deposits io)) (\<lambda>deps.
     bind_m (io_read (io_forced io)) (\<lambda>forced.
     bind_m (io_read (io_proofs io)) (\<lambda>p_deps.
     bind_m (io_read (io_proofs io)) (\<lambda>p_forced_from.
     bind_m (io_read (io_proofs io)) (\<lambda>p_forced_to.
     bind_m (io_read (io_proofs io)) (\<lambda>p_txs_from.
     bind_m (io_read (io_proofs io)) (\<lambda>p_txs_to.
     return_m \<lparr>gi_pre_state_root = pre_root, gi_transactions = txs, gi_deposits = deps,
       gi_forced_transactions = forced,
       gi_proofs = \<lparr>proofs_deposits = p_deps, proofs_forced_from = p_forced_from,
         proofs_forced_to = p_forced_to, proofs_txs_from = p_txs_from, proofs_txs_to = p_txs_to\<rparr>\<rparr>)))))))))"

text \<open>The whole guest: its reads, then its computation.\<close>

definition guest_run :: "externs \<Rightarrow> sp1_io \<Rightarrow> bytes list \<Rightarrow> (bytes, unit) result" where
  "guest_run E io stdin = bind_res (fst (read_input io stdin)) (guest_main E)"

section \<open>Reading back\<close>

text \<open>What is relied on: a buffer decodes to the value it was written from.\<close>

definition decodes :: "'a stdin_codec \<Rightarrow> bool" where
  "decodes c \<longleftrightarrow> (\<forall>x buf. sc_ser c x = Ok buf \<longrightarrow> sc_de c buf = Ok x)"

locale sp1_stdio =
  fixes io :: sp1_io
  assumes decodes_hash: "decodes (io_hash io)"
    and decodes_transactions: "decodes (io_transactions io)"
    and decodes_deposits: "decodes (io_deposits io)"
    and decodes_forced: "decodes (io_forced io)"
    and decodes_proofs: "decodes (io_proofs io)"

lemma stdin_write_OkE:
  assumes "stdin_write c x stdin = (Ok u, stdin')"
  obtains buf where "sc_ser c x = Ok buf" and "stdin' = stdin @ [buf]"
  using assms by (auto simp: stdin_write_def split: result.splits)

lemma io_read_written: "decodes c \<Longrightarrow> sc_ser c x = Ok buf \<Longrightarrow> io_read c (buf # rest) = (Ok x, rest)"
  by (simp add: decodes_def io_read_def)

lemma io_read_empty [simp]: "io_read c [] = (Panic ''input stream exhausted'', [])"
  by (simp add: io_read_def)

text \<open>The guest needs nine buffers.\<close>

lemma io_read_Ok_length: "io_read c stdin = (Ok x, rest) \<Longrightarrow> length stdin = Suc (length rest)"
  by (auto simp: io_read_def split: list.splits result.splits)

lemma read_input_length:
  assumes "fst (read_input io stdin) = Ok inp"
  shows "9 \<le> length stdin"
proof -
  from assms obtain rest where "read_input io stdin = (Ok inp, rest)" by (metis prod.collapse)
  then show ?thesis
    unfolding read_input_def by (elim bind_m_OkE) (simp add: io_read_Ok_length)
qed

context sp1_stdio
begin

lemma read_written:
  assumes "write_block io block proofs [] = (Ok u, stdin)"
  shows "read_input io stdin = (Ok (block_input block proofs), [])"
  using assms unfolding write_block_def
  by (elim bind_m_OkE stdin_write_OkE)
    (simp add: read_input_def bind_m_split block_input_def
      io_read_written [OF decodes_hash] io_read_written [OF decodes_transactions]
      io_read_written [OF decodes_deposits] io_read_written [OF decodes_forced]
      io_read_written [OF decodes_proofs])

lemma guest_run_block:
  "write_block io block proofs [] = (Ok u, stdin) \<Longrightarrow> guest_run E io stdin = guest_main E (block_input block proofs)"
  by (simp add: guest_run_def read_written)

end

section \<open>A reference serialisation\<close>

definition put_account :: "account \<Rightarrow> bytes" where
  "put_account a = hash_bytes (acc_id a) @ put_u64 (acc_balance a) @ put_u64 (acc_nonce a)"

definition get_account_r :: "account reader" where
  "get_account_r = then_r get_hash (\<lambda>i. then_r get_u64 (\<lambda>b. then_r get_u64 (\<lambda>n.
     done_r \<lparr>acc_id = i, acc_balance = b, acc_nonce = n\<rparr>)))"

definition put_sibling :: "bool \<times> hash \<Rightarrow> bytes" where
  "put_sibling = (\<lambda>(r, h). (if r then 1 else 0) # hash_bytes h)"

definition get_sibling :: "(bool \<times> hash) reader" where
  "get_sibling = then_r get_byte (\<lambda>b. then_r get_hash (\<lambda>h. done_r (b \<noteq> 0, h)))"

definition put_proof :: "merkle_proof \<Rightarrow> bytes" where
  "put_proof p = put_account (mp_account p) @ put_vec put_sibling (mp_siblings p)"

definition get_proof_r :: "merkle_proof reader" where
  "get_proof_r = then_r get_account_r (\<lambda>a. then_r (get_vec get_sibling) (\<lambda>hs.
     done_r \<lparr>mp_account = a, mp_siblings = hs\<rparr>))"

lemma reads_account: "reads get_account_r put_account a"
  by (simp add: reads_def get_account_r_def put_account_def reads_fields done_r_def)

lemma reads_sibling: "reads get_sibling put_sibling x"
proof -
  obtain r h where x: "x = (r, h)" by fastforce
  have "get_sibling ([b] @ hash_bytes h @ rest) = Some ((b \<noteq> 0, h), rest)" for b rest
    unfolding get_sibling_def by (simp only: then_r_reads [OF reads_byte] reads_fields) (simp add: done_r_def)
  then show ?thesis by (simp add: x reads_def put_sibling_def)
qed

lemma reads_proof: "length (mp_siblings p) < 2 ^ 64 \<Longrightarrow> reads get_proof_r put_proof p"
  using reads_vec [of "mp_siblings p" get_sibling put_sibling] reads_sibling
  unfolding reads_def [of get_proof_r]
  by (simp add: get_proof_r_def put_proof_def then_r_reads [OF reads_account] then_r_reads done_r_def)

definition reader_codec :: "'a reader \<Rightarrow> ('a \<Rightarrow> bytes) \<Rightarrow> ('a \<Rightarrow> bool) \<Rightarrow> 'a stdin_codec" where
  "reader_codec g p ok = \<lparr>sc_ser = (\<lambda>x. if ok x then Ok (p x) else Err ''SizeLimit''),
     sc_de = (\<lambda>bs. case g bs of Some (x, _) \<Rightarrow> Ok x | None \<Rightarrow> Err ''UnexpectedEof'')\<rparr>"

lemma decodes_reader: "(\<And>x. ok x \<Longrightarrow> reads g p x) \<Longrightarrow> decodes (reader_codec g p ok)"
proof -
  assume r: "\<And>x. ok x \<Longrightarrow> reads g p x"
  have "g (p x) = Some (x, [])" if "ok x" for x
    using r [OF that] unfolding reads_def by (metis append_Nil2)
  then show ?thesis by (auto simp: decodes_def reader_codec_def split: if_splits)
qed

abbreviation short :: "'a list \<Rightarrow> bool" where
  "short xs \<equiv> length xs < 2 ^ 64"

definition ref_io :: sp1_io where
  "ref_io = \<lparr>io_hash = reader_codec get_hash hash_bytes (\<lambda>_. True),
     io_transactions = reader_codec (get_vec get_tx) (put_vec put_tx) short,
     io_deposits = reader_codec (get_vec get_deposit) (put_vec put_deposit) short,
     io_forced = reader_codec (get_vec get_forced) (put_vec put_forced)
       (\<lambda>fs. short fs \<and> (\<forall>f \<in> set fs. short (ftx_l2_calldata f))),
     io_proofs = reader_codec (get_vec get_proof_r) (put_vec put_proof)
       (\<lambda>ps. short ps \<and> (\<forall>p \<in> set ps. short (mp_siblings p)))\<rparr>"

interpretation ref: sp1_stdio ref_io
  by unfold_locales
    (auto simp: ref_io_def intro!: decodes_reader reads_hash reads_vec reads_tx reads_deposit reads_forced reads_proof)

section \<open>Properties\<close>

text \<open>
C20. The guest reads what the host wrote: after the host's nine writes for a block and its
  proofs have succeeded, the guest's nine reads yield the block's own data and proofs, each in
  its place, and leave nothing unread; the guest's run on this input is its run on the block.
\<close>
theorem guest_reads_what_host_writes:
  assumes "sp1_stdio io" and "write_block io block proofs [] = (Ok u, stdin)"
  shows "read_input io stdin = (Ok (block_input block proofs), [])
    \<and> guest_run E io stdin = guest_main E (block_input block proofs)"
  using sp1_stdio.read_written [OF assms] sp1_stdio.guest_run_block [OF assms] by blast

definition two_deposits :: pending_block where
  "two_deposits = \<lparr>block_number = 1, pb_txs = [pay_bob], pb_deposits = [to_alice, to_alice], pb_forced_txs = [],
     pre_state_root = hash_of [1], post_state_root = hash_of [2]\<rparr>"

theorem guest_reads_what_host_writes_witness:
  "fst (read_input ref_io (snd (write_block ref_io two_deposits sample_bundle [])))
     = Ok (block_input two_deposits sample_bundle)"
proof -
  have "\<exists>stdin. write_block ref_io two_deposits sample_bundle [] = (Ok (), stdin)"
    by (simp add: write_block_def two_deposits_def sample_bundle_def ref_io_def reader_codec_def
        bind_m_split stdin_write_def Let_def proof_of_def sample_tree_def)
  then obtain stdin where "write_block ref_io two_deposits sample_bundle [] = (Ok (), stdin)" ..
  with guest_reads_what_host_writes [OF ref.sp1_stdio_axioms this] show ?thesis by simp
qed

end
