(* ===== verification/Script.thy ===== *)
theory Script
  imports Guest_Io Sequencer
begin

text \<open>
  The command line programs \<^verbatim>\<open>crates/script/src/bin/main.rs\<close>, \<^verbatim>\<open>evm.rs\<close> and
  \<^verbatim>\<open>vkey.rs\<close>: a block executed or proved outside the sequencer, the fixture for the
  contract's tests, and the verification key. The SDK's client, the file system, the parsers
  and the hexadecimal printer are parameters.
\<close>

section \<open>Executing or proving a block\<close>

record script_args =
  arg_execute :: bool
  arg_prove :: bool
  arg_block_data :: string
  arg_db_path :: string

datatype script_error = ScriptStf stf_error

definition script_error_of_stf :: "stf_error \<Rightarrow> script_error" where
  "script_error_of_stf err = ScriptStf err"

record 't script_env =
  e_open_file :: "string \<Rightarrow> (bytes, string) result"
  e_from_reader :: "bytes \<Rightarrow> (pending_block, string) result"
  e_to_str :: "string \<Rightarrow> string option"
  e_tree :: "'t tree_ops"
  e_tree_new :: "string \<Rightarrow> 't"
  e_io :: sp1_io
  e_execute :: "bytes list \<Rightarrow> (bytes \<times> u64, string) result"
  e_setup :: "(bytes, string) result"
  e_prove :: "bytes \<Rightarrow> bytes list \<Rightarrow> (bytes \<times> bytes, string) result"
  e_verify :: "bytes \<times> bytes \<Rightarrow> bytes \<Rightarrow> (unit, string) result"

text \<open>
  How the program ends: by \<open>process::exit\<close>, or by returning from \<open>main\<close>, where \<open>Ok\<close> carries
  what it printed last: the root from the zkVM and the cycle count, or that the proof verified.
\<close>

datatype script_output = Executed hash u64 | Verified

datatype script_end = Exit nat | Return "(script_output, anyhow) result"

text \<open>
  The exit status the caller sees, once the arguments are parsed: \<open>main\<close> returns a \<open>Result\<close>, so \<open>Err\<close> ends the process with 1
  as \<open>process::exit(1)\<close> does, \<open>Ok\<close> with 0, and a panic with 101.
\<close>

fun script_status :: "script_end \<Rightarrow> nat" where
  "script_status (Exit n) = n"
| "script_status (Return (Ok _)) = 0"
| "script_status (Return (Err _)) = 1"
| "script_status (Return (Panic _)) = 101"

definition debug_path :: "string \<Rightarrow> string" where
  "debug_path path = [CHR 34] @ path @ [CHR 34]"

definition anyhow_res :: "('a, string) result \<Rightarrow> ('a, anyhow) result" where
  "anyhow_res = map_err (\<lambda>e. [e])"

definition script_main :: "'t script_env \<Rightarrow> externs \<Rightarrow> script_args \<Rightarrow> script_end" where
  "script_main V E args =
     (if arg_execute args = arg_prove args then Exit 1
      else Return (
        bind_res (map_err (\<lambda>e. [''main open block_data file err: '' @ debug_path (arg_block_data args), e])
          (e_open_file V (arg_block_data args))) (\<lambda>file.
        bind_res (map_err (\<lambda>e. [''main from_reader err'', e]) (e_from_reader V file)) (\<lambda>block.
        bind_res (ok_or [''main db_path to_str err''] (e_to_str V (arg_db_path args))) (\<lambda>path.
        bind_res (map_err (\<lambda>e. [''main generate_proofs_for_block err'', core_error_message e])
          (fst (generate_proofs_for_block (e_tree V) E block (e_tree_new V path)))) (\<lambda>proofs.
        let (written, stdin) = write_block (e_io V) block proofs [] in
        bind_res written (\<lambda>_.
        if arg_execute args
        then
          bind_res (anyhow_res (e_execute V stdin)) (\<lambda>(output, cycles).
          bind_res (ok_or [''abi_decode''] (abi_decode_public_values E output)) (\<lambda>decoded.
          Ok (Executed (postStateRoot decoded) cycles)))
        else
          bind_res (anyhow_res (e_setup V)) (\<lambda>pk.
          bind_res (anyhow_res (e_prove V pk stdin)) (\<lambda>prf.
          bind_res (anyhow_res (e_verify V prf pk)) (\<lambda>_.
          Ok Verified))))))))))"

section \<open>The fixture for the contract\<close>

datatype proof_system = Plonk | Groth16

record evm_args =
  evm_n :: u32
  evm_system :: proof_system

record proof_fixture =
  fx_pre_state_root :: string
  fx_post_state_root :: string
  fx_vkey :: string
  fx_public_values :: string
  fx_proof :: string

record evm_env =
  v_setup :: "(bytes, string) result"
  v_io :: sp1_io
  v_plonk :: "bytes \<Rightarrow> bytes list \<Rightarrow> (bytes \<times> bytes, string) result"
  v_groth16 :: "bytes \<Rightarrow> bytes list \<Rightarrow> (bytes \<times> bytes, string) result"
  v_vkey :: "bytes \<Rightarrow> string"
  v_hex :: "bytes \<Rightarrow> string"
  v_to_json :: "proof_fixture \<Rightarrow> (string, string) result"
  v_create_dir :: "string \<Rightarrow> (unit, string) result"
  v_write_file :: "string \<Rightarrow> string \<Rightarrow> (unit, string) result"

text \<open>\<open>Result::expect\<close>.\<close>

definition expect :: "string \<Rightarrow> ('a, string) result \<Rightarrow> ('a, unit) result" where
  "expect msg r = (case r of Ok x \<Rightarrow> Ok x | Err e \<Rightarrow> Panic (msg @ '': '' @ e) | Panic m \<Rightarrow> Panic m)"

text \<open>\<open>format!("{:?}-fixture.json", system).to_lowercase()\<close>, below \<open>../contracts/src/fixtures\<close>.\<close>

definition fixture_dir :: string where
  "fixture_dir = ''../contracts/src/fixtures''"

definition fixture_name :: "proof_system \<Rightarrow> string" where
  "fixture_name system = (case system of Plonk \<Rightarrow> ''plonk-fixture.json'' | Groth16 \<Rightarrow> ''groth16-fixture.json'')"

definition create_proof_fixture ::
  "evm_env \<Rightarrow> externs \<Rightarrow> bytes \<times> bytes \<Rightarrow> bytes \<Rightarrow> proof_system \<Rightarrow> (unit, unit) result" where
  "create_proof_fixture V E = (\<lambda>(pub, prf) vk system.
     bind_res (case abi_decode_public_values E pub of
         None \<Rightarrow> Panic ''called Result::unwrap() on an Err value'' | Some v \<Rightarrow> Ok v) (\<lambda>decoded_values.
     let fixture =
       \<lparr>fx_pre_state_root = ''0x'' @ v_hex V (hash_bytes (preStateRoot decoded_values)),
        fx_post_state_root = ''0x'' @ v_hex V (hash_bytes (postStateRoot decoded_values)),
        fx_vkey = v_vkey V vk,
        fx_public_values = ''0x'' @ v_hex V pub,
        fx_proof = ''0x'' @ v_hex V prf\<rparr> in
     bind_res (expect ''failed to create fixture path'' (v_create_dir V fixture_dir)) (\<lambda>_.
     bind_res (expect ''called Result::unwrap() on an Err value'' (v_to_json V fixture)) (\<lambda>json.
     expect ''failed to write fixture'' (v_write_file V (fixture_dir @ ''/'' @ fixture_name system) json)))))"

definition evm_transactions :: "transaction list" where
  "evm_transactions = [\<lparr>tx_from = hash_of (replicate 32 1), tx_to = hash_of (replicate 32 2), tx_nonce = 0,
     tx_fee = 0, tx_amount = 100\<rparr>]"

definition evm_stdin :: "sp1_io \<Rightarrow> (bytes list, unit, anyhow) action" where
  "evm_stdin io = bind_m (stdin_write (io_hash io) hash_default) (\<lambda>_.
     stdin_write (io_transactions io) evm_transactions)"

definition evm_main :: "evm_env \<Rightarrow> externs \<Rightarrow> evm_args \<Rightarrow> (unit, unit) result" where
  "evm_main V E args =
     bind_res (expect ''failed to setup elf'' (v_setup V)) (\<lambda>pk.
     let (written, stdin) = evm_stdin (v_io V) [] in
     bind_res (expect ''write'' (map_err concat written)) (\<lambda>_.
     bind_res (expect ''failed to generate proof''
       (case evm_system args of Plonk \<Rightarrow> v_plonk V pk stdin | Groth16 \<Rightarrow> v_groth16 V pk stdin)) (\<lambda>prf.
     create_proof_fixture V E prf pk (evm_system args))))"

definition vkey_main :: "(bytes, string) result \<Rightarrow> (bytes \<Rightarrow> string) \<Rightarrow> (string, unit) result" where
  "vkey_main setup vkey_bytes32 =
     bind_res (expect ''failed to setup elf'' setup) (\<lambda>pk. Ok (vkey_bytes32 pk))"

section \<open>What the client promises\<close>

text \<open>Executing and proving run the guest on the given input, and return what it commits.\<close>

locale sp1_client =
  fixes run :: "bytes list \<Rightarrow> (bytes \<times> 'a, string) result" and io :: sp1_io and E :: externs
  assumes run_guest: "run stdin = Ok (output, x) \<Longrightarrow> guest_run E io stdin = Ok output"

context sp1_client
begin

lemma needs_nine_inputs:
  assumes "length stdin < 9"
  shows "run stdin \<noteq> Ok r"
proof
  assume "run stdin = Ok r"
  with run_guest [of stdin "fst r" "snd r"] have "guest_run E io stdin = Ok (fst r)" by simp
  then obtain inp where "fst (read_input io stdin) = Ok inp" by (auto simp: guest_run_def)
  with assms read_input_length show False by (metis not_less)
qed

end

text \<open>A client that runs the guest.\<close>

definition ref_client :: "'a \<Rightarrow> bytes list \<Rightarrow> (bytes \<times> 'a, string) result" where
  "ref_client x stdin = (case guest_run ref_externs ref_io stdin of
     Ok out \<Rightarrow> Ok (out, x) | _ \<Rightarrow> Err ''execution failed'')"

interpretation ref: sp1_client "ref_client x" ref_io ref_externs
  by unfold_locales (auto simp: ref_client_def split: result.splits)

definition ref_script_env :: "ref_store script_env" where
  "ref_script_env = \<lparr>e_open_file = (\<lambda>_. Ok []), e_from_reader = (\<lambda>_. Ok five_block), e_to_str = Some,
     e_tree = ref_tree, e_tree_new = (\<lambda>_. five_tree), e_io = ref_io, e_execute = ref_client 1000, e_setup = Ok [],
     e_prove = (\<lambda>_. ref_client []), e_verify = (\<lambda>_ _. Ok ())\<rparr>"

definition ref_evm_env :: evm_env where
  "ref_evm_env = \<lparr>v_setup = Ok [], v_io = ref_io, v_plonk = (\<lambda>_. ref_client []), v_groth16 = (\<lambda>_. ref_client []),
     v_vkey = (\<lambda>_. []), v_hex = (\<lambda>_. []), v_to_json = (\<lambda>_. Ok []), v_create_dir = (\<lambda>_. Ok ()),
     v_write_file = (\<lambda>_ _. Ok ())\<rparr>"

section \<open>Properties\<close>

lemma script_main_OkE:
  assumes "script_main V E args = Return (Ok out)"
  obtains contents block path proofs stdin where "e_open_file V (arg_block_data args) = Ok contents"
    and "e_from_reader V contents = Ok block" and "e_to_str V (arg_db_path args) = Some path"
    and "fst (generate_proofs_for_block (e_tree V) E block (e_tree_new V path)) = Ok proofs"
    and "write_block (e_io V) block proofs [] = (Ok (), stdin)"
    and "(arg_execute args \<and> \<not> arg_prove args \<and> (\<exists>pv cycles v. e_execute V stdin = Ok (pv, cycles)
          \<and> abi_decode_public_values E pv = Some v \<and> out = Executed (postStateRoot v) cycles))
      \<or> (arg_prove args \<and> \<not> arg_execute args \<and> out = Verified \<and> (\<exists>pk pv prf. e_setup V = Ok pk
          \<and> e_prove V pk stdin = Ok (pv, prf) \<and> e_verify V (pv, prf) pk = Ok ()))"
  using assms
  by (auto simp: script_main_def anyhow_res_def split: if_splits prod.splits) metis+

lemma script_status_main:
  "script_status (script_main V E args) \<in> {0, 1, 101}"
  "arg_execute args = arg_prove args \<Longrightarrow> script_status (script_main V E args) = 1"
  "script_status (script_main V E args) = 0 \<Longrightarrow> \<exists>out. script_main V E args = Return (Ok out)"
proof -
  obtain r where "script_main V E args = (if arg_execute args = arg_prove args then Exit 1 else Return r)"
    unfolding script_main_def by blast
  then show "script_status (script_main V E args) \<in> {0, 1, 101}"
    and "arg_execute args = arg_prove args \<Longrightarrow> script_status (script_main V E args) = 1"
    and "script_status (script_main V E args) = 0 \<Longrightarrow> \<exists>out. script_main V E args = Return (Ok out)"
    by (cases r; simp split: if_splits)+
qed

lemma script_main_ran:
  assumes "alloy E" and "sp1_stdio (e_io V)" and "sp1_client (e_execute V) (e_io V) E"
    and "\<And>pk. sp1_client (e_prove V pk) (e_io V) E" and "script_main V E args = Return (Ok out)"
  shows "\<exists>contents block path proofs root pv. e_open_file V (arg_block_data args) = Ok contents
    \<and> e_from_reader V contents = Ok block
    \<and> e_to_str V (arg_db_path args) = Some path
    \<and> fst (generate_proofs_for_block (e_tree V) E block (e_tree_new V path)) = Ok proofs
    \<and> pv = abi_encode_public_values E (public_values_of E (block_input block proofs) root)
    \<and> guest_main E (block_input block proofs) = Ok pv
    \<and> (arg_execute args \<longrightarrow> (\<exists>cycles. out = Executed root cycles))
    \<and> (arg_prove args \<longrightarrow> (\<exists>pk prf. out = Verified \<and> e_verify V (pv, prf) pk = Ok ()))"
  using assms(5)
proof (rule script_main_OkE)
  fix contents block path proofs stdin
  assume parsed: "e_open_file V (arg_block_data args) = Ok contents" "e_from_reader V contents = Ok block"
      "e_to_str V (arg_db_path args) = Some path"
      "fst (generate_proofs_for_block (e_tree V) E block (e_tree_new V path)) = Ok proofs"
    and "write_block (e_io V) block proofs [] = (Ok (), stdin)"
    and ends: "(arg_execute args \<and> \<not> arg_prove args \<and> (\<exists>pv cycles v. e_execute V stdin = Ok (pv, cycles)
        \<and> abi_decode_public_values E pv = Some v \<and> out = Executed (postStateRoot v) cycles))
    \<or> (arg_prove args \<and> \<not> arg_execute args \<and> out = Verified \<and> (\<exists>pk pv prf. e_setup V = Ok pk
        \<and> e_prove V pk stdin = Ok (pv, prf) \<and> e_verify V (pv, prf) pk = Ok ()))"
  note run = sp1_stdio.guest_run_block [OF assms(2) this(5), of E]
  have pv: "\<exists>root. pv = abi_encode_public_values E (public_values_of E (block_input block proofs) root)
      \<and> (\<forall>v. abi_decode_public_values E pv = Some v \<longrightarrow> postStateRoot v = root)"
    if "guest_main E (block_input block proofs) = Ok pv" for pv
    using that alloy.abi_encode_public_values [OF assms(1)] alloy.abi_decode_public_values [OF assms(1)]
    by (auto simp: guest_main_Ok_iff public_values_of_def)
  from ends show ?thesis
  proof (elim disjE conjE exE, goal_cases)
    case (1 pv cycles v)
    from sp1_client.run_guest [OF assms(3) 1(3)] run have g: "guest_main E (block_input block proofs) = Ok pv" by simp
    from pv [OF this] 1 parsed g show ?case by auto
  next
    case (2 pk pv bs)
    from sp1_client.run_guest [OF assms(4) 2(5)] run have g: "guest_main E (block_input block proofs) = Ok pv" by simp
    from pv [OF this] 2 parsed g show ?case by auto
  qed
qed

text \<open>
C38. The script's exit status can be relied on. It is 0, 1 or 101; it is 1 when both or none of
  \<open>--execute\<close> and \<open>--prove\<close> are given. It is 0 only if exactly one of them is given and the
  guest committed public values for the block of the file, with proofs generated from the tree:
  under \<open>--execute\<close> the root the script prints is the post-state root of these public values,
  under \<open>--prove\<close> a proof of them was verified.
\<close>
theorem script_reports_guest_run:
  assumes "alloy E" and "sp1_stdio (e_io V)" and "sp1_client (e_execute V) (e_io V) E"
    and "\<And>pk. sp1_client (e_prove V pk) (e_io V) E"
  shows "script_status (script_main V E args) \<in> {0, 1, 101}
    \<and> (arg_execute args = arg_prove args \<longrightarrow> script_status (script_main V E args) = 1)
    \<and> (script_status (script_main V E args) = 0 \<longrightarrow>
        arg_execute args \<noteq> arg_prove args
        \<and> (\<exists>out. script_main V E args = Return (Ok out)
          \<and> (\<exists>contents block path proofs root pv. e_open_file V (arg_block_data args) = Ok contents
          \<and> e_from_reader V contents = Ok block
          \<and> e_to_str V (arg_db_path args) = Some path
          \<and> fst (generate_proofs_for_block (e_tree V) E block (e_tree_new V path)) = Ok proofs
          \<and> pv = abi_encode_public_values E (public_values_of E (block_input block proofs) root)
          \<and> guest_main E (block_input block proofs) = Ok pv
          \<and> (arg_execute args \<longrightarrow> (\<exists>cycles. out = Executed root cycles))
          \<and> (arg_prove args \<longrightarrow> (\<exists>pk prf. out = Verified \<and> e_verify V (pv, prf) pk = Ok ())))))"
  (is "_ \<and> _ \<and> (_ \<longrightarrow> _ \<and> (\<exists>out. _ \<and> ?ran out))")
proof (intro conjI impI)
  show "script_status (script_main V E args) \<in> {0, 1, 101}" by (rule script_status_main(1))
  show "script_status (script_main V E args) = 1" if "arg_execute args = arg_prove args"
    using that by (rule script_status_main(2))
next
  assume zero: "script_status (script_main V E args) = 0"
  then show "arg_execute args \<noteq> arg_prove args" using script_status_main(2) [of args V E] by auto
  from script_status_main(3) [OF zero] obtain out where out: "script_main V E args = Return (Ok out)" ..
  show "\<exists>out. script_main V E args = Return (Ok out) \<and> ?ran out"
    using out script_main_ran [OF assms out] by (intro exI [of _ out] conjI)
qed

theorem script_reports_guest_run_witness:
  "script_status (script_main ref_script_env ref_externs
       \<lparr>arg_execute = True, arg_prove = False, arg_block_data = [], arg_db_path = []\<rparr>) = 0
   \<and> (\<exists>proofs root. guest_main ref_externs (block_input five_block proofs)
        = Ok (abi_encode_public_values ref_externs (public_values_of ref_externs (block_input five_block proofs) root)))"
proof -
  let ?args = "\<lparr>arg_execute = True, arg_prove = False, arg_block_data = [], arg_db_path = []\<rparr>"
  obtain stdin where w: "write_block ref_io five_block five_proofs [] = (Ok (), stdin)"
    by (auto simp: write_block_def five_block_def five_proofs_def input_five_def ref_io_def reader_codec_def
        bind_m_split stdin_write_def)
  have run: "script_main ref_script_env ref_externs ?args = Return (Ok (Executed (post_state_root five_block) 1000))"
    using five_replay five_guest ref.guest_run_block [OF w, of ref_externs] w
    by (simp add: script_main_def ref_script_env_def ref_client_def anyhow_res_def public_values_of_def
        ref.abi_encode_public_values ref.abi_decode_public_values)
  have "alloy ref_externs" "sp1_stdio (e_io ref_script_env)"
      "sp1_client (e_execute ref_script_env) (e_io ref_script_env) ref_externs"
      "\<And>pk. sp1_client (e_prove ref_script_env pk) (e_io ref_script_env) ref_externs"
    by (simp_all add: ref_script_env_def ref.alloy_axioms ref.sp1_stdio_axioms ref.sp1_client_axioms)
  from script_reports_guest_run [OF this, of ?args] run
  show ?thesis by (auto simp: ref_script_env_def)
qed

text \<open>
C39. The fixture script never produces a fixture: it writes two of the nine values the guest
  reads, so no proof of the guest's execution exists on its input, and it panics, whichever
  proof system is chosen.
\<close>
theorem evm_script_panics:
  assumes "\<And>pk. sp1_client (v_plonk V pk) (v_io V) E" and "\<And>pk. sp1_client (v_groth16 V pk) (v_io V) E"
  shows "\<exists>msg. evm_main V E args = Panic msg"
proof -
  obtain written stdin where w: "evm_stdin (v_io V) [] = (written, stdin)" by fastforce
  then have "length stdin < 9"
    by (auto simp: evm_stdin_def bind_m_split stdin_write_def split: result.splits)
  then have "v_plonk V pk stdin \<noteq> Ok r" "v_groth16 V pk stdin \<noteq> Ok r" for pk r
    using sp1_client.needs_nine_inputs assms by blast+
  then show ?thesis
    using w by (auto simp: evm_main_def expect_def bind_res_def split: result.splits proof_system.splits)
qed

theorem evm_script_panics_witness:
  "\<exists>msg. evm_main ref_evm_env ref_externs \<lparr>evm_n = 20, evm_system = Groth16\<rparr> = Panic msg"
  by (rule evm_script_panics) (simp_all add: ref_evm_env_def ref.sp1_client_axioms)

end
