(* ===== verification/Core_Cache.thy ===== *)
theory Core_Cache
  imports Core_Executor
begin

text \<open>
  The typing of the executor's account cache (\<^verbatim>\<open>crates/core/src/executor.rs\<close>): a map in
  which every account is filed under its own identity, kept by every operation on every
  outcome.
\<close>

definition cache_ok :: "'t executor \<Rightarrow> bool" where
  "cache_ok ex \<longleftrightarrow> distinct (map fst (ex_cache ex)) \<and> (\<forall>k a. map_of (ex_cache ex) k = Some a \<longrightarrow> acc_id a = k)"

text \<open>A call that keeps \<open>Q\<close> on every outcome and returns only values with \<open>R\<close>.\<close>

definition yields :: "('s \<Rightarrow> bool) \<Rightarrow> ('a \<Rightarrow> bool) \<Rightarrow> ('s, 'a, 'e) action \<Rightarrow> bool" where
  "yields Q R m \<longleftrightarrow> (\<forall>s. Q s \<longrightarrow> Q (snd (m s)) \<and> (\<forall>x. fst (m s) = Ok x \<longrightarrow> R x))"

lemma yields_return: "R x \<Longrightarrow> yields Q R (return_m x)"
  by (simp add: yields_def)

lemma yields_lift: "(\<And>x. r = Ok x \<Longrightarrow> R x) \<Longrightarrow> yields Q R (lift_m r)"
  by (simp add: yields_def)

lemma yields_modify: "(\<And>s. Q s \<Longrightarrow> Q (f s)) \<Longrightarrow> yields Q (\<lambda>_. True) (modify_m f)"
  by (simp add: yields_def modify_m_def)

lemma yields_bind:
  assumes "yields Q S m" and "\<And>x. S x \<Longrightarrow> yields Q R (f x)"
  shows "yields Q R (bind_m m f)"
  using assms unfolding yields_def bind_m_split by (auto split: result.splits)

lemma yields_match:
  assumes "yields Q S m" and "\<And>x. S x \<Longrightarrow> yields Q R (f x)" and "\<And>e. yields Q R (h e)"
  shows "yields Q R (match_m m f h)"
  using assms unfolding yields_def match_m_split by (auto split: result.splits)

lemma yields_for_each:
  assumes "\<And>x. yields Q (\<lambda>_. True) (body x)"
  shows "yields Q (\<lambda>_. True) (for_each body xs)"
proof (induction xs)
  case Nil
  show ?case unfolding for_each.simps by (rule yields_return) simp
next
  case (Cons x xs)
  show ?case unfolding for_each.simps by (rule yields_bind [OF assms]) (rule Cons.IH)
qed

section \<open>Identities\<close>

lemma apply_deposit_id: "apply_deposit a d = Ok a' \<Longrightarrow> acc_id a' = acc_id a"
  by (auto simp: apply_deposit_def split: option.splits)

lemma apply_transaction_id:
  "apply_transaction E f t tx = Ok (Success f' t') \<Longrightarrow> acc_id f' = acc_id f \<and> acc_id t' = acc_id t"
  "apply_transaction E f t tx = Ok (Failure f') \<Longrightarrow> acc_id f' = acc_id f"
  by (auto simp: apply_transaction_def bind_res_Ok_iff Let_def split: option.splits if_splits)

lemma cache_ok_insert: "cache_ok ex \<Longrightarrow> acc_id a = k \<Longrightarrow> cache_ok (cache_insert k a ex)"
  by (auto simp: cache_ok_def cache_insert_def distinct_update update_conv split: if_splits)

lemma cache_ok_new [simp]: "cache_ok (executor_new t root)"
  by (simp add: cache_ok_def executor_new_def)

lemma cache_ok_success:
  "cache_ok ex \<Longrightarrow> acc_id f = k \<Longrightarrow> acc_id t = k' \<Longrightarrow> cache_ok (update_cache_success k f k' t ex)"
  by (auto simp: update_cache_success_def intro!: cache_ok_insert)

text \<open>What the tree is relied on for: an account read under a key has this identity.\<close>

definition keyed :: "'t tree_ops \<Rightarrow> externs \<Rightarrow> bool" where
  "keyed T E \<longleftrightarrow> (\<forall>root t k a. account_at T E root t k = Ok a \<longrightarrow> acc_id a = k)"

abbreviation typed :: "('t executor, 'a, 'e) action \<Rightarrow> ('a \<Rightarrow> bool) \<Rightarrow> bool" where
  "typed m R \<equiv> yields cache_ok R m"

lemma typed_get_account_helper:
  assumes "keyed T E"
  shows "typed (get_account_helper T E k) (\<lambda>a. acc_id a = k)"
  unfolding yields_def
proof (intro allI impI)
  fix ex :: "'a executor"
  assume ok: "cache_ok ex"
  let ?t = "snd (get_account T E (ex_root ex) k (ex_tree ex))"
  show "cache_ok (snd (get_account_helper T E k ex))
    \<and> (\<forall>a. fst (get_account_helper T E k ex) = Ok a \<longrightarrow> acc_id a = k)"
  proof (cases "map_of (ex_cache ex) k")
    case (Some a)
    with ok show ?thesis by (auto simp: get_account_helper_def cache_ok_def)
  next
    case None
    have tree: "cache_ok (ex\<lparr>ex_tree := t\<rparr>)" for t using ok by (simp add: cache_ok_def)
    show ?thesis
    proof (cases "fst (get_account T E (ex_root ex) k (ex_tree ex))")
      case (Ok a)
      with assms have "acc_id a = k" by (auto simp: keyed_def account_at_def)
      with None Ok cache_ok_insert [OF tree [of ?t], of a k] show ?thesis
        by (simp add: get_account_helper_def bind_m_split on_tree_def modify_m_def case_prod_beta)
    qed (use None tree in \<open>simp_all add: get_account_helper_def bind_m_split on_tree_def case_prod_beta\<close>)
  qed
qed

section \<open>The operations\<close>

lemma typed_deposit:
  assumes "keyed T E"
  shows "typed (executor_apply_deposit T E dep) (\<lambda>_. True)"
  unfolding executor_apply_deposit_def
proof (rule yields_bind)
  show "typed (match_m (get_account_helper T E (dep_to dep)) return_m
      (\<lambda>e. case e of AccountNotFound _ \<Rightarrow> return_m (account_new (dep_to dep)) | _ \<Rightarrow> lift_m (Err e)))
      (\<lambda>a. acc_id a = dep_to dep)"
    by (rule yields_match [OF typed_get_account_helper [OF assms]])
      (auto split: core_error.split intro!: yields_return yields_lift simp: account_new_def)
qed (auto split: result.split stf_error.split intro!: yields_modify yields_return yields_lift cache_ok_insert
    dest: apply_deposit_id)

lemma typed_transaction:
  assumes "keyed T E"
  shows "typed (executor_apply_transaction T E tx) (\<lambda>_. True)"
  unfolding executor_apply_transaction_def
proof (rule yields_match [OF typed_get_account_helper [OF assms]], rule yields_bind)
  show "typed (match_m (get_account_helper T E (tx_to tx)) return_m (\<lambda>_. return_m (account_new (tx_to tx))))
      (\<lambda>a. acc_id a = tx_to tx)"
    by (rule yields_match [OF typed_get_account_helper [OF assms]])
      (auto intro!: yields_return simp: account_new_def)
qed (auto split: result.split transaction_result.split stf_error.split core_error.split
    simp: handle_stf_error_def intro!: yields_modify yields_return yields_lift cache_ok_insert cache_ok_success
    dest: apply_transaction_id)

lemma typed_forced:
  assumes "keyed T E"
  shows "typed (executor_apply_forced_tx T E tx) (\<lambda>_. True)"
  using typed_transaction [OF assms] yields_return [of "\<lambda>_. True"]
  by (auto simp: executor_apply_forced_tx_as_transaction)

lemma typed_apply_block:
  assumes "keyed T E"
  shows "typed (apply_block T E txs ds fs) (\<lambda>_. True)"
  unfolding apply_block_def
  by (intro yields_bind [where S = "\<lambda>_. True"] yields_for_each typed_deposit typed_forced typed_transaction assms)

lemma bincode_keyed: "bincode_fixint E \<Longrightarrow> keyed T E"
  by (simp add: keyed_def bincode_fixint.account_at_not_Ok)

section \<open>Properties\<close>

text \<open>
C40. The executor's cache is well-formed: whatever a block does and however it ends, by success,
  error or panic, the cache is a map with distinct keys in which every account is filed under
  its own identity, provided that an account read from the tree under a key has this identity.
  So \<open>commit_block\<close> inserts each account once, under its own key.
\<close>
theorem executor_cache_well_formed:
  assumes "keyed T E" and "apply_block T E txs ds fs (executor_new t root) = (r, ex)"
  shows "distinct (map fst (ex_cache ex)) \<and> (\<forall>(k, a) \<in> set (ex_cache ex). acc_id a = k)"
proof -
  have "cache_ok ex"
    using typed_apply_block [OF assms(1), of txs ds fs] assms(2) cache_ok_new [of t root]
    unfolding yields_def by (metis snd_conv)
  then show ?thesis by (auto simp: cache_ok_def)
qed

theorem executor_cache_well_formed_witness:
  "distinct (map fst (ex_cache (snd (apply_block ref_tree ref_externs [] [to_alice] [] (executor_new ref_empty None)))))"
proof -
  obtain r ex where run: "apply_block ref_tree ref_externs [] [to_alice] [] (executor_new ref_empty None) = (r, ex)"
    by fastforce
  from executor_cache_well_formed [OF bincode_keyed [OF ref.bincode_fixint_axioms] run] show ?thesis
    by (simp add: run)
qed

end
