(* ===== verification/Spec2Isabelle.thy ===== *)
theory Spec2Isabelle
  imports Startup Script Core_Cache
begin

text \<open>
  A verification development for \<open>tiny-sp1-rollup\<close>, a rollup that executes transfers off chain,
  proves each block in the SP1 zkVM and posts the proof to a bridge contract.

  \<^bold>\<open>The program.\<close> Users deposit ether on the contract, queue forced transactions there, or
  submit transactions to the sequencer's HTTP handler. The sequencer's optimistic worker
  fetches the contract's queues, takes the mempool, applies the batch to accounts in a Merkle
  tree, and commits the resulting block to a queue in RocksDB. The prover worker takes the
  oldest block, generates Merkle proofs by replaying it, has the guest program prove
  \<open>execute_transition\<close> on it, and sends public values and proof to the contract, which compares
  commitments and moves its state root.

  \<^bold>\<open>The theories\<close>, in the order of their imports (sources under \<^verbatim>\<open>src/crates\<close> and
  \<^verbatim>\<open>src/contracts\<close>):
  \<^item> \<open>Prelude\<close>: machine integers, byte encodings, the 32-byte array, outcomes of fallible
    functions (value, error, panic), state-passing calls.
  \<^item> \<open>Stf_Types\<close>, \<open>Stf_Merkle\<close>, \<open>Stf_Apply\<close>, \<open>Stf_Commit\<close>, \<open>Stf_Transition\<close>:
    \<^verbatim>\<open>stf/src/lib.rs\<close>. The record \<open>externs\<close> holds the third-party functions; \<open>Sol_Abi\<close> has
    their contracts as locales (\<open>alloy\<close>, \<open>bincode_fixint\<close>) and an instance.
  \<^item> \<open>Guest\<close>: \<^verbatim>\<open>program/src/main.rs\<close>. \<open>Guest_Io\<close>: its reads and the host's writes of the
    zkVM input, value by value (locale \<open>sp1_stdio\<close>).
  \<^item> \<open>Core_Tree\<close>, \<open>Core_Executor\<close>, \<open>Core_Proofs\<close>: \<^verbatim>\<open>core/src\<close> (errors, types, tree access,
    the block executor, proof generation) and \<open>apply_optimistic_batch\<close>. The Merkle tree crate is
    the record \<open>tree_ops\<close> with the locales \<open>stable_reads\<close> and \<open>tree_store\<close>. \<open>Core_Cache\<close>: the
    typing of the executor's cache. \<open>Seq_Error\<close>: \<open>SequencerError\<close> with its conversions and
    responses.
  \<^item> \<open>Bincode\<close>, \<open>Queue_Store\<close>: \<^verbatim>\<open>sequencer/src/persistence.rs\<close> over a database (\<open>kv_ops\<close>,
    locale \<open>kv_store\<close>) and a codec (locale \<open>lossless_codec\<close>), together \<open>block_store\<close>;
    \<open>open_db\<close> with locale \<open>opened_store\<close>.
  \<^item> \<open>Bridge\<close>: \<^verbatim>\<open>RollupBridge.sol\<close>. \<open>L1_Fetch\<close>: the two fetch functions of
    \<^verbatim>\<open>sequencer/src/main.rs\<close>, over the contract as the endpoint.
  \<^item> \<open>Sequencer\<close>: the shared state, the sections the handler and the workers run, and their
    interleaving \<open>sys_step\<close> (\<^verbatim>\<open>sequencer/src/main.rs\<close>); locale \<open>sp1_prover\<close>.
  \<^item> \<open>Seq_Config\<close>: \<^verbatim>\<open>sequencer/src/config.rs\<close>. \<open>Startup\<close>: \<open>main\<close> of the sequencer, and what a
    restart finds (locale \<open>head_store\<close>).
  \<^item> \<open>Script\<close>: the programs under \<^verbatim>\<open>script/src/bin\<close> (locale \<open>sp1_client\<close>).

  \<^bold>\<open>State and operations.\<close> A struct is a record, an enum a datatype, a \<open>u64\<close> a 64-bit word. A
  function with a mutable receiver takes the state and returns the outcome with the state it
  leaves behind. \<open>HashMap\<close> iteration order is a parameter. The workers are program counters
  with their local variables; a step is a section between two suspension points, and what the
  network answers is arbitrary at each call.

  \<^bold>\<open>What is shown.\<close>
  \<^item> The guest: an accepted block is a run of the abstract ledger on the tree under the
    pre-state root, unless hashes collide, and creates no value; every such run is accepted with
    suitable proofs; the operations compute the transfer over unbounded integers; the committed
    public values decode to exactly this.
  \<^item> The executor refines a map from identities to accounts and creates no value, except by
    self-transfers, which mint; the replay on the host and the guest agree where the host finds
    every sender and takes every recipient to be new.
  \<^item> The leaves the executor stores cannot be read back as accounts, with what follows for
    later deposits, for transactions and for provability.
  \<^item> The queue store is a queue in block order with atomic commits, reads included; the contract's counters and
    nullifiers are safe in every run, also when the receiver of a withdrawal calls back; contract, fetch and guest agree on the commitments in both
    directions.
  \<^item> The sequencer, in every interleaving: no transaction is lost or duplicated before a crash
    of the commit, blocks form a chain, blocks are handled in order, the proven head is the root
    of a block that a guest run commits, the prover's loop ends; and a panic under the tree's
    lock stops both workers, up to a block already applied.
  \<^item> A restart between two blocks finds head, counter and queue as they were; after a crash
    before the commit of a block this block is missing and the next ones continue from its
    post-state root.
  \<^item> The guest reads the nine values the host writes; the block script's exit status and
    output report what the guest commits; the fixture script, which writes two of them, always panics.

  \<^bold>\<open>Bounds.\<close> There is no fuel: every loop is a structural recursion over a list or a step of
  the system; the prover's inner loop has a rank that bounds it by eight moves. The order of
  the queue is shown up to \<open>2^64\<close> blocks, commitments for fewer than \<open>2^32\<close> items, where the
  code's counters wrap.

  \<^bold>\<open>Not modelled.\<close> Logging, the HTTP server, the timing of sleeps and retries; the cryptography
  of the digests, the zkVM and its verifier, RocksDB, the tree crate, the configuration and
  serialisation crates and the SDK's client, which are parameters with the laws named in the
  locales; the two build scripts, one call of a build tool each; the property tests of the
  state transition function, whose assertions are covered by the equations of \<open>Stf_Apply\<close>, which
  hold for all inputs; \<open>Fibonacci.sol\<close>, a template the rollup does not use; ether balances.
\<close>

section \<open>Properties of the whole sequencer\<close>

text \<open>
C8. No transaction is lost, duplicated or reordered: in every reachable state, the accepted
  transactions are those of the produced blocks in order, then those of the block that was
  drained from the mempool and not committed yet, then the mempool; and draining the mempool
  never runs out of range, although transactions arrive while a block is built. A worker whose
  commit failed has stopped, and its drained block counts as in flight from then on: its
  transactions are in no block and not in the mempool.
\<close>
theorem no_transaction_lost:
  assumes "reachable P app s"
  shows "accepted s = concat (map pb_txs (produced s)) @ in_flight (s_opt s) @ mempool (s_app s)
    \<and> (\<forall>b. s_opt s = OptHead b \<longrightarrow> (\<exists>a'. drain_mempool (length (pb_txs b)) (s_app s) = (Ok (), a')))"
  using mempool_inv_reachable [OF assms] by (auto simp: mempool_inv_def drain_mempool_def)

theorem no_transaction_lost_witness:
  "accepted ref_sys = concat (map pb_txs (produced ref_sys)) @ in_flight (s_opt ref_sys) @ mempool (s_app ref_sys)"
  using no_transaction_lost [OF ref_run] by blast

text \<open>
C9. The produced blocks form a chain: from the state in which the sequencer started, block
  numbers are consecutive (modulo \<open>2^64\<close>), each block's pre-state root is the post-state root of
  the one before it, and between two blocks the optimistic head is the last post-state root.
\<close>
theorem produced_blocks_form_a_chain:
  assumes "reachable P app s"
  shows "chained (optimistic app) (block_counter app) (produced s)
    \<and> (s_opt s = OptSleep \<longrightarrow> optimistic (s_app s) = last_root (optimistic app) (produced s)
        \<and> block_counter (s_app s) = block_counter app + of_nat (length (produced s)))"
  using chain_inv_reachable [OF assms] by (auto simp: chain_inv_def)

theorem produced_blocks_form_a_chain_witness:
  "chained hash_default 0 [ref_block] \<and> block_counter ref_app' = 1"
  using produced_blocks_form_a_chain [OF ref_run] by (simp add: ref_sys_def ref_app_def)

text \<open>
C10. Every block is handled once and in order: with the blocks found in the store at the start
  as a backlog, the blocks retired from the queue are a prefix of backlog and produced blocks,
  the store holds exactly the rest, the block the prover works on is the oldest of it, and a
  block is attempted at most three times (for fewer than \<open>2^64\<close> blocks).
\<close>
theorem blocks_are_handled_in_order:
  assumes "block_store (p_kv P) view (p_codec P)" and "store_ok (p_codec P) (view (queue_db app))"
    and "q_pending (queue_of (p_codec P) (view (queue_db app))) = by_number backlog"
    and "ascending backlog" and "\<forall>b \<in> set backlog. block_number b < block_counter app"
    and "reachable P app s" and "unat (block_counter app) + length (produced s) \<le> 2 ^ 64"
  shows "(\<exists>waiting. backlog @ produced s = retired s @ waiting
      \<and> q_pending (queue_of (p_codec P) (view (queue_db (s_app s)))) = by_number waiting
      \<and> (\<forall>b. prv_block (s_prv s) = Some b \<longrightarrow> (\<exists>rest. waiting = b # rest)))
    \<and> (\<forall>b n. s_prv s = PrvBlock b n \<longrightarrow> n < 3)"
  using queue_inv_reachable [OF assms] retries_reachable [OF assms(6)]
  by (auto simp: queue_inv_def MAX_RETRIES_def)

theorem blocks_are_handled_in_order_witness:
  "\<exists>waiting. [ref_block] = waiting \<and> q_pending (queue_of ref_codec (ref_view (queue_db ref_app'))) = by_number waiting"
proof -
  have "block_store (p_kv ref_params) ref_view (p_codec ref_params)"
    using ref.block_store_axioms by (simp add: ref_params_def)
  moreover have "store_ok (p_codec ref_params) (ref_view (queue_db ref_app))"
    by (simp add: store_ok_def filed_def ref_view_def ref_app_def)
  moreover have "q_pending (queue_of (p_codec ref_params) (ref_view (queue_db ref_app))) = by_number []"
    by (simp add: queue_of_def blocks_in_def ref_view_def ref_app_def by_number_def fun_eq_iff)
  moreover have "unat (block_counter ref_app) + length (produced ref_sys) \<le> 2 ^ 64"
    by (simp add: ref_app_def ref_sys_def)
  ultimately have "\<exists>waiting. [] @ produced ref_sys = retired ref_sys @ waiting
      \<and> q_pending (queue_of (p_codec ref_params) (ref_view (queue_db (s_app ref_sys)))) = by_number waiting"
    using blocks_are_handled_in_order [of ref_params ref_view ref_app "[]" ref_sys] ref_run
    by (auto simp: ascending_def)
  then show ?thesis by (simp add: ref_sys_def ref_params_def)
qed

text \<open>
C11. The proven head is what a guest run commits: the proven head is the initial root or the
  post-state root of the last proved block, and for every proved block there is a run of the
  guest on this block whose committed public values name the block's own pre-state root,
  post-state root and commitments.
\<close>
theorem proven_head_is_genuine:
  assumes "alloy (p_ext P)" and "sp1_prover (p_prove P) (p_ext P)" and "reachable P app s"
  shows "proven (s_app s) = last_root (proven app) (proved s)
    \<and> (\<forall>b \<in> set (proved s). \<exists>proofs. guest_main (p_ext P) (block_input b proofs)
        = Ok (abi_encode_public_values (p_ext P)
            (public_values_of (p_ext P) (block_input b proofs) (post_state_root b))))"
  using proven_inv_reachable [OF assms] by (simp add: proven_inv_def genuine_def)

theorem proven_head_is_genuine_witness:
  "proven (s_app five_sys) = post_state_root five_block
    \<and> (\<exists>proofs. guest_main ref_externs (block_input five_block proofs)
        = Ok (abi_encode_public_values ref_externs
            (public_values_of ref_externs (block_input five_block proofs) (post_state_root five_block))))"
proof -
  have ext: "p_ext five_params = ref_externs" "p_prove five_params = ref_prove"
    by (simp_all add: five_params_def ref_params_def)
  have "alloy (p_ext five_params)" "sp1_prover (p_prove five_params) (p_ext five_params)"
    using ref.alloy_axioms ref.sp1_prover_axioms by (simp_all add: ext)
  from proven_head_is_genuine [OF this five_run] show ?thesis
    by (simp add: ext five_sys_def last_root_def)
qed

text \<open>
C32. A panic during proof generation stops the sequencer: when the replay of the prover's block
  panics, as its root check does, the lock of the tree is poisoned by the prover's step, and in
  every run from there the lock stays poisoned and no block is ever proved again; and no block
  is produced again but one at most, the block that the optimistic worker had already applied
  to the tree and not yet committed.
\<close>
theorem poisoned_lock_stops_the_sequencer:
  assumes "s_prv s = PrvBlock b n"
    and "generate_proofs_for_block (p_tree P) (p_ext P) b (tree (s_app s)) = (Panic msg, t)"
    and "prv_step P (s_prv s, s_app s) e (pc', a')"
    and "(sys_step P)\<^sup>*\<^sup>* (record_event e (s\<lparr>s_app := a', s_prv := pc'\<rparr>)) s'"
  shows "poisoned (s_app s') \<and> proved s' = proved s
    \<and> (produced s' = produced s
       \<or> (\<exists>b'. uncommitted (s_opt s) = Some b' \<and> produced s' = produced s @ [b']))"
proof -
  have a': "poisoned a' \<and> \<not> past_generation pc' \<and> e = Silent"
    using assms(3) unfolding assms(1)
    by (cases rule: prv_step.cases)
      (use assms(2) in \<open>auto simp: generate_section_def after_failure_def split: if_splits\<close>)
  with poisoned_opt_forever [OF assms(4)] poisoned_prv_forever [OF assms(4)] show ?thesis
    by (auto simp: stuck_since_def)
qed

text \<open>The prover replays a block with a wrong root while the worker is about to commit another block.\<close>

theorem poisoned_lock_stops_the_sequencer_witness:
  "\<exists>s s'. sys_step ref_params (ref_drained\<lparr>s_prv := PrvBlock (ref_block\<lparr>pb_txs := [], post_state_root := hash_of [1]\<rparr>) 0\<rparr>) s
    \<and> (sys_step ref_params)\<^sup>*\<^sup>* s s' \<and> produced s' = [ref_block] \<and> poisoned (s_app s') \<and> proved s' = []"
proof -
  let ?b = "ref_block\<lparr>pb_txs := [], post_state_root := hash_of [1]\<rparr>"
  let ?s = "ref_drained\<lparr>s_prv := PrvBlock ?b 0\<rparr>" and ?a = "ref_app\<lparr>block_counter := 1, poisoned := True\<rparr>"
  have "hash_default \<noteq> hash_of [1]" by (simp add: evals)
  then have gen: "generate_proofs_for_block (p_tree ref_params) (p_ext ref_params) ?b (tree (s_app ?s))
      = (Panic ''fatal: root mismatch after proof generation simulation'', tree (s_app ?s))"
    by (simp add: generate_proofs_for_block_def ref_block_def bind_m_split)
  then have "generate_section ref_params ?b (s_app ?s)
      = (Err [''fatal: root mismatch after proof generation simulation''], ?a)"
    by (simp add: generate_section_def) (simp add: ref_drained_def ref_app_def)
  from prv_generate_fails [OF this, of 0]
  have step: "prv_step ref_params (s_prv ?s, s_app ?s) Silent (PrvBlock ?b 1, ?a)"
    by (simp add: after_failure_def MAX_RETRIES_def)
  let ?t = "?s\<lparr>s_app := ?a, s_prv := PrvBlock ?b 1\<rparr>"
  have "fits ref_block" by (simp add: fits_def ref_block_def)
  then obtain a' where "commit_section ref_params ref_block ?a = (Ok (), a')"
    by (simp add: commit_section_def ref_params_def commit_optimistic_block_def store_simps ref_kv_def
        ref_codec_def plain_add_def ref_block_def)
  from opt_commit [OF this] have "sys_step ref_params ?t (record_event (Produce ref_block) (?t\<lparr>s_app := a', s_opt := OptSleep\<rparr>))"
    by (intro optimistic_worker) (simp add: ref_drained_def)
  then have run: "(sys_step ref_params)\<^sup>*\<^sup>* (record_event Silent ?t) (?t\<lparr>s_app := a', s_opt := OptSleep, produced := [ref_block]\<rparr>)"
    by (simp add: ref_drained_def)
  from poisoned_lock_stops_the_sequencer [OF _ gen step run] have "poisoned a'"
    by (simp add: ref_drained_def)
  with run prover_worker [OF step] show ?thesis
    by (intro exI [of _ ?t] exI [of _ "?t\<lparr>s_app := a', s_opt := OptSleep, produced := [ref_block]\<rparr>"])
      (simp add: ref_drained_def)
qed

text \<open>
C19. The prover's inner loop ends: from the moment the prover takes a block, it makes at most
  eight moves, whatever the other parties do meanwhile, until it sleeps again, and then its
  last move retired this block from the queue, or until it has stopped; before that, a next
  step is always possible. Repeated attempts at a failing queue operation are not moves.
\<close>
theorem prover_loop_ends:
  assumes "prv_path P (PrvBlock b 0) es pc"
  shows "length es \<le> 8 \<and> (pc = PrvSleep \<longrightarrow> last es = Retire b)
    \<and> (pc = PrvSleep \<or> pc = PrvStopped \<or> prv_block pc = Some b \<and> length es < 8
        \<and> (\<forall>a. \<exists>e pc' a'. prv_step P (pc, a) e (pc', a')))"
proof -
  have len: "length es + prv_rank pc \<le> 8"
    using prv_path_bounded [OF assms] by (simp add: MAX_RETRIES_def)
  have "prv_rank pc > 0" if "prv_block pc = Some b"
    using that by (cases pc) simp_all
  with len prv_path_retires [OF assms, of b] show ?thesis
    by (auto intro: prv_step_enabled)
qed

theorem prover_loop_ends_witness:
  "length [Silent, Silent, Prove five_block, Retire five_block] \<le> 8
    \<and> last [Silent, Silent, Prove five_block, Retire five_block] = Retire five_block"
proof -
  have "on_queue (remove_pending (p_kv five_params) (block_number five_block)) five_committed
      = (Ok (), snd (on_queue (remove_pending (p_kv five_params) (block_number five_block)) five_committed))"
    by (simp add: on_queue_def remove_pending_def store_simps five_params_def ref_params_def ref_kv_def)
  from prv_remove [OF _ this] have "prv_step five_params (PrvDone five_block, five_committed) (Retire five_block)
      (PrvSleep, snd (on_queue (remove_pending (p_kv five_params) (block_number five_block)) five_committed))"
    by simp
  from path_move [OF prv_generate [OF five_generate] _ _ path_move [OF prv_prove [OF five_prove] _ _
      path_move [OF prv_head _ _ path_move [OF this _ _ path_end]]]]
  have "prv_path five_params (PrvBlock five_block 0)
      [Silent, Silent, Prove five_block, Retire five_block] PrvSleep" by simp
  from prover_loop_ends [OF this] show ?thesis by simp
qed

end
